(* ===== verification/Prelude.thy ===== *)
theory Prelude
  imports Main "HOL-Library.Word"
begin

text \<open>
  Shared ground of the Logmoko development: names for the machine types the C code uses,
  the collections of rewrite rules the component theories fill, generic lemmas on lists,
  options and words, and the transition-system interface that every state machine of the
  development (the ring protocol, the handler life cycle, the logger registry) implements.
\<close>

unbundle bit_operations_syntax

section \<open>Machine types and rule collections\<close>

text \<open>\<open>size_t\<close>, \<open>unsigned long\<close> and \<open>uintptr_t\<close> are 64 bits wide on every platform the
  README lists; \<open>unsigned int\<close> is 32 bits wide.\<close>

type_synonym u64 = "64 word"
type_synonym u32 = "32 word"

text \<open>The byte that ends a C string.\<close>

abbreviation NUL :: char where
  "NUL \<equiv> CHR 0x00"

text \<open>The string a C function reads at an address: the bytes up to the first \<open>NUL\<close>.\<close>

definition cstr :: "char list \<Rightarrow> string" where
  "cstr b = takeWhile (\<lambda>c. c \<noteq> NUL) b"

text \<open>\<open>LMK_E_OK\<close> and \<open>LMK_E_NG\<close> of \<open>logmoko_types.h\<close>.\<close>

definition LMK_E_OK :: int where
  "LMK_E_OK = 0"

definition LMK_E_NG :: int where
  "LMK_E_NG = -1"

lemma LMK_E_distinct [simp]: "LMK_E_OK \<noteq> LMK_E_NG" "LMK_E_NG \<noteq> LMK_E_OK"
  by (simp_all add: LMK_E_OK_def LMK_E_NG_def)

named_theorems ring_simps \<open>unfolding the ring operations\<close>
named_theorems registry_simps \<open>unfolding the logger and handler operations\<close>
named_theorems format_simps \<open>unfolding the formatters\<close>
named_theorems config_simps \<open>unfolding the configuration parser\<close>

section \<open>Lists\<close>

lemma nth_update_inj:
  assumes "i < length xs" "i \<noteq> j"
  shows "xs[j := y] ! i = xs ! i"
  using assms by simp

lemma map_upt_Suc_shift: "map f [0..<Suc n] = f 0 # map (\<lambda>i. f (Suc i)) [0..<n]"
  by (simp add: upt_conv_Cons map_Suc_upt [symmetric] o_def del: upt_Suc)

lemma takeWhile_append_stop: "\<not> P x \<Longrightarrow> takeWhile P (xs @ x # ys) = takeWhile P xs"
  by (induction xs) auto

lemma cstr_stop [simp]: "cstr (xs @ NUL # ys) = cstr xs"
  by (simp add: cstr_def takeWhile_append_stop)

lemma cstr_id [simp]: "NUL \<notin> set xs \<Longrightarrow> cstr xs = xs"
  by (auto simp: cstr_def takeWhile_eq_all_conv)

lemma NUL_notin_cstr [simp]: "NUL \<notin> set (cstr xs)"
  by (auto simp: cstr_def dest: set_takeWhileD)

section \<open>Words\<close>

lemma unat_of_nat_u64: "n < 2 ^ 64 \<Longrightarrow> unat (of_nat n :: u64) = n"
  by (simp add: unat_of_nat take_bit_nat_eq_self_iff)

lemma word_diff_zero_iff: "(a :: 'a::len word) - b = 0 \<longleftrightarrow> a = b"
  by simp

lemma sint_zero_iff: "sint (a :: 'a::len word) = 0 \<longleftrightarrow> a = 0"
  by (metis signed_0 signed_word_eqI)

lemma unat_less_u64: "unat (w :: u64) < 2 ^ 64"
proof -
  have "unat w < 2 ^ LENGTH(64)" by (rule unsigned_less)
  then show ?thesis by simp
qed

lemma pow2_le_half: "k < 64 \<Longrightarrow> (2::nat) ^ k \<le> 2 ^ 63"
  by (rule power_increasing) auto

lemma unat_pow2_u64: "k < 64 \<Longrightarrow> unat (2 ^ k :: u64) = 2 ^ k"
  using pow2_le_half [of k] unat_of_nat_u64 [of "2 ^ k"] by simp

lemma sint_of_int_u64:
  assumes "- (2 ^ 63) \<le> i" "i < 2 ^ 63"
  shows "sint (of_int i :: u64) = i"
proof -
  have "sint (of_int i :: u64) = signed_take_bit (LENGTH(64) - Suc 0) i"
    by (simp add: signed_of_int)
  then show ?thesis using assms by (simp add: signed_take_bit_int_eq_self)
qed

lemma sint_of_nat_u64: "n < 2 ^ 63 \<Longrightarrow> sint (of_nat n :: u64) = int n"
  using sint_of_int_u64 [of "int n"] by (simp add: nat_less_iff flip: of_nat_less_iff)

lemma sint_of_nat_diff_u64:
  assumes "a < 2 ^ 63" "b < 2 ^ 63"
  shows "sint (of_nat a - of_nat b :: u64) = int a - int b"
proof -
  have "(of_nat a - of_nat b :: u64) = of_int (int a - int b)" by simp
  moreover have "sint (of_int (int a - int b) :: u64) = int a - int b"
    using assms by (intro sint_of_int_u64) auto
  ultimately show ?thesis by simp
qed

lemma unat_pred_u64: "0 < unat (v :: u64) \<Longrightarrow> unat (v - 1) = unat v - 1"
  by (rule unat_minus_one) auto

text \<open>Masking with \<open>2^k - 1\<close> is reduction modulo \<open>2^k\<close>; the ring relies on it to index.\<close>

lemma unat_and_mask: "unat ((w :: 'a::len word) AND mask k) = unat w mod 2 ^ k"
proof -
  have "unat (w AND mask k) = unat (take_bit k w)"
    by (simp only: take_bit_eq_mask)
  also have "\<dots> = take_bit k (unat w)"
    by (rule unsigned_take_bit_eq)
  finally show ?thesis by (simp only: take_bit_eq_mod)
qed

lemma and_mask_index_inj:
  fixes t :: u64
  assumes k: "k < 64" and i: "i < 2 ^ k" and j: "j < 2 ^ k"
    and eq: "unat ((t + of_nat i) AND mask k) = unat ((t + of_nat j) AND mask k)"
  shows "i = j"
proof -
  have mod64: "unat (t + of_nat n) mod 2 ^ k = (unat t + n) mod 2 ^ k" for n
  proof -
    have "unat (t + of_nat n) = (unat t + n) mod 2 ^ 64"
      by (simp add: unat_word_ariths unat_of_nat take_bit_eq_mod mod_simps)
    moreover have "(2::nat) ^ k dvd 2 ^ 64"
      using k by (intro le_imp_power_dvd) simp
    ultimately show ?thesis by (simp add: mod_mod_cancel)
  qed
  have "(unat t + i) mod 2 ^ k = (unat t + j) mod 2 ^ k"
    using eq by (simp add: unat_and_mask mod64)
  then have "i mod 2 ^ k = j mod 2 ^ k"
    by (simp add: mod_add_cong mod_add_left_eq nat_mod_eq_iff)
  then show ?thesis using i j by simp
qed

section \<open>Transition systems\<close>

text \<open>
  The interface of a state machine: initial states, labelled steps and an invariant that
  holds at the start and is kept by every step. The one lemma every client uses is that the
  invariant holds in each reachable state.
\<close>

inductive reachable :: "('s \<Rightarrow> bool) \<Rightarrow> ('s \<Rightarrow> 'l \<Rightarrow> 's \<Rightarrow> bool) \<Rightarrow> 's \<Rightarrow> bool"
  for init :: "'s \<Rightarrow> bool" and step :: "'s \<Rightarrow> 'l \<Rightarrow> 's \<Rightarrow> bool" where
  reach_init: "init s \<Longrightarrow> reachable init step s"
| reach_step: "reachable init step s \<Longrightarrow> step s l t \<Longrightarrow> reachable init step t"

fun trace :: "('s \<Rightarrow> 'l \<Rightarrow> 's \<Rightarrow> bool) \<Rightarrow> 's \<Rightarrow> 'l list \<Rightarrow> 's \<Rightarrow> bool" where
  "trace step s [] t \<longleftrightarrow> s = t"
| "trace step s (l # ls) t \<longleftrightarrow> (\<exists>u. step s l u \<and> trace step u ls t)"

lemma reachable_trace:
  "reachable init step s \<Longrightarrow> trace step s ls t \<Longrightarrow> reachable init step t"
  by (induction ls arbitrary: s) (auto intro: reach_step)

locale transition_system =
  fixes init :: "'s \<Rightarrow> bool"
    and step :: "'s \<Rightarrow> 'l \<Rightarrow> 's \<Rightarrow> bool"
    and inv :: "'s \<Rightarrow> bool"
  assumes inv_init: "init s \<Longrightarrow> inv s"
    and inv_step: "inv s \<Longrightarrow> step s l t \<Longrightarrow> inv t"
begin

lemma reachable_inv: "reachable init step s \<Longrightarrow> inv s"
  by (induction rule: reachable.induct) (auto intro: inv_init inv_step)

lemma trace_inv: "inv s \<Longrightarrow> trace step s ls t \<Longrightarrow> inv t"
  by (induction ls arbitrary: s) (auto intro: inv_step)

end

end
