(* ===== verification/Ring.thy ===== *)
theory Ring
  imports Prelude
begin

text \<open>
  The ring buffer of \<open>logmoko.h\<close> (\<open>struct lmk_ring_slot\<close>, \<open>lmk_next_pow2\<close>,
  \<open>lmk_ring_init\<close>, \<open>lmk_ring_enqueue\<close>, \<open>lmk_ring_peek_slot\<close>, \<open>lmk_ring_consume\<close>) as it runs
  when no other thread interferes. Cursors and sequence numbers are 64-bit words and wrap, as
  in C. The theory shows that the operations implement a bounded FIFO queue, stated once as
  the interface \<open>bounded_fifo\<close> that the handlers' drain loops are proved against; the
  interleaved execution is in \<open>Ring_Concurrent\<close>.
\<close>

section \<open>Data\<close>

definition LMK_LOG_MSG_MAX_SIZE :: nat where
  "LMK_LOG_MSG_MAX_SIZE = 2048"

text \<open>\<open>rec_data\<close> is the memory at \<open>rec->data\<close>, of which \<open>rec_data_len\<close> bytes are the message.\<close>

record lmk_log_record =
  rec_log_level :: int
  rec_data :: "char list"
  rec_data_len :: nat
  rec_line_no :: int
  rec_file_name :: string

text \<open>\<open>req_data\<close> is the whole array \<open>data[LMK_LOG_MSG_MAX_SIZE]\<close>, stale bytes included.\<close>

record lmk_log_request =
  req_log_level :: int
  req_data :: "char list"
  req_line_no :: int
  req_file_name :: string
  req_handler_name :: string

record lmk_ring_slot =
  slot_sequence :: u64
  slot_req :: lmk_log_request

text \<open>What a consumer can observe of a request: the metadata and the C string in \<open>data\<close>.\<close>

record log_entry =
  entry_level :: int
  entry_message :: string
  entry_line :: int
  entry_file :: string
  entry_handler :: string

definition entry_of_request :: "lmk_log_request \<Rightarrow> log_entry" where
  "entry_of_request q = \<lparr>entry_level = req_log_level q, entry_message = cstr (req_data q),
     entry_line = req_line_no q, entry_file = req_file_name q, entry_handler = req_handler_name q\<rparr>"

text \<open>What a producer asks to be logged; messages longer than the slot are cut.\<close>

definition entry_of_record :: "lmk_log_record \<Rightarrow> string \<Rightarrow> log_entry" where
  "entry_of_record rec hname = \<lparr>entry_level = rec_log_level rec,
     entry_message = cstr (take (min (rec_data_len rec) (LMK_LOG_MSG_MAX_SIZE - 1)) (rec_data rec)),
     entry_line = rec_line_no rec, entry_file = rec_file_name rec, entry_handler = hname\<rparr>"

section \<open>Operations\<close>

text \<open>Round up to the next power of two, minimum 2.\<close>

definition lmk_next_pow2 :: "u64 \<Rightarrow> u64" where
  "lmk_next_pow2 v =
     (if v < 2 then 2
      else
        let v = v - 1;
            v = v OR drop_bit 1 v; v = v OR drop_bit 2 v; v = v OR drop_bit 4 v;
            v = v OR drop_bit 8 v; v = v OR drop_bit 16 v; v = v OR drop_bit 32 v
        in v + 1)"

text \<open>\<open>lmk_malloc\<close> zero-fills the ring; \<open>lmk_ring_init\<close> then numbers its slots.\<close>

definition zero_request :: lmk_log_request where
  "zero_request = \<lparr>req_log_level = 0, req_data = replicate LMK_LOG_MSG_MAX_SIZE NUL,
     req_line_no = 0, req_file_name = [], req_handler_name = []\<rparr>"

definition zero_slot :: lmk_ring_slot where
  "zero_slot = \<lparr>slot_sequence = 0, slot_req = zero_request\<rparr>"

fun ring_init_loop :: "lmk_ring_slot list \<Rightarrow> nat \<Rightarrow> nat \<Rightarrow> lmk_ring_slot list" where
  "ring_init_loop ring i 0 = ring"
| "ring_init_loop ring i (Suc n) =
     ring_init_loop (ring[i := (ring ! i)\<lparr>slot_sequence := of_nat i\<rparr>]) (Suc i) n"

definition lmk_ring_init :: "lmk_ring_slot list \<Rightarrow> nat \<Rightarrow> lmk_ring_slot list" where
  "lmk_ring_init ring n = ring_init_loop ring 0 n"

definition ring_index :: "u64 \<Rightarrow> u64 \<Rightarrow> nat" where
  "ring_index msk pos = unat (pos AND msk)"

text \<open>The \<open>intptr_t\<close> difference of two cursors, in two's complement.\<close>

definition ring_diff :: "u64 \<Rightarrow> u64 \<Rightarrow> int" where
  "ring_diff seq pos = sint (seq - pos)"

text \<open>The writes into a claimed slot: the metadata, then the \<open>memcpy\<close> and the terminator.\<close>

definition write_meta :: "lmk_log_record \<Rightarrow> string \<Rightarrow> lmk_log_request \<Rightarrow> lmk_log_request" where
  "write_meta rec hname q = q\<lparr>req_log_level := rec_log_level rec, req_line_no := rec_line_no rec,
     req_file_name := rec_file_name rec, req_handler_name := hname\<rparr>"

definition write_data :: "lmk_log_record \<Rightarrow> lmk_log_request \<Rightarrow> lmk_log_request" where
  "write_data rec q =
     (let n = (if rec_data_len rec < LMK_LOG_MSG_MAX_SIZE - 1 then rec_data_len rec
               else LMK_LOG_MSG_MAX_SIZE - 1)
      in q\<lparr>req_data := take n (rec_data rec) @ NUL # drop (Suc n) (req_data q)\<rparr>)"

text \<open>
  The retry loop of \<open>lmk_ring_enqueue\<close>, entered with the last value of \<open>head\<close> in \<open>pos\<close>. The
  compare-exchange stores the current head into \<open>pos\<close> when it fails. The result is the return
  code, the slots and the new head; a loop that never ends is \<open>None\<close>.
\<close>

partial_function (option) enqueue_loop ::
  "lmk_ring_slot list \<Rightarrow> u64 \<Rightarrow> u64 \<Rightarrow> lmk_log_record \<Rightarrow> string \<Rightarrow> u64
    \<Rightarrow> (int \<times> lmk_ring_slot list \<times> u64) option" where
  "enqueue_loop ring head msk rec hname pos =
     (let i = ring_index msk pos; slot = ring ! i; diff = ring_diff (slot_sequence slot) pos
      in if diff = 0 then
           (if head = pos
            then Some (1, ring[i := \<lparr>slot_sequence = pos + 1,
                   slot_req = write_data rec (write_meta rec hname (slot_req slot))\<rparr>], pos + 1)
            else enqueue_loop ring head msk rec hname head)
         else if diff < 0 then Some (0, ring, head)
         else enqueue_loop ring head msk rec hname head)"

definition lmk_ring_enqueue ::
  "lmk_ring_slot list \<Rightarrow> u64 \<Rightarrow> u64 \<Rightarrow> lmk_log_record \<Rightarrow> string
    \<Rightarrow> (int \<times> lmk_ring_slot list \<times> u64) option" where
  "lmk_ring_enqueue ring head msk rec hname = enqueue_loop ring head msk rec hname head"

text \<open>The pointer result is the index of the slot, \<open>None\<close> standing for \<open>NULL\<close>.\<close>

definition lmk_ring_peek_slot :: "lmk_ring_slot list \<Rightarrow> u64 \<Rightarrow> u64 \<Rightarrow> nat option" where
  "lmk_ring_peek_slot ring tail msk =
     (let i = ring_index msk tail
      in if ring_diff (slot_sequence (ring ! i)) (tail + 1) = 0 then Some i else None)"

definition lmk_ring_consume ::
  "lmk_ring_slot list \<Rightarrow> u64 \<Rightarrow> u64 \<Rightarrow> lmk_ring_slot list \<times> u64" where
  "lmk_ring_consume ring tail msk =
     (let i = ring_index msk tail
      in (ring[i := (ring ! i)\<lparr>slot_sequence := tail + msk + 1\<rparr>], tail + 1))"

section \<open>The ring as a queue\<close>

text \<open>The four fields every handler struct declares for its ring.\<close>

record lmk_ring =
  rb_slots :: "lmk_ring_slot list"
  rb_head :: u64
  rb_tail :: u64
  rb_mask :: u64

definition ring_shape :: "lmk_ring_slot list \<Rightarrow> u64 \<Rightarrow> bool" where
  "ring_shape slots msk \<longleftrightarrow> (\<exists>k\<in>{1..<64}. length slots = 2 ^ k \<and> msk = mask k)"

definition ring_fill :: "lmk_ring \<Rightarrow> nat" where
  "ring_fill r = unat (rb_head r - rb_tail r)"

definition ring_slot_at :: "lmk_ring \<Rightarrow> nat \<Rightarrow> lmk_ring_slot" where
  "ring_slot_at r i = rb_slots r ! ring_index (rb_mask r) (rb_tail r + of_nat i)"

definition ring_invar :: "lmk_ring \<Rightarrow> bool" where
  "ring_invar r \<longleftrightarrow> ring_shape (rb_slots r) (rb_mask r) \<and> ring_fill r \<le> length (rb_slots r) \<and>
     (\<forall>i<length (rb_slots r). slot_sequence (ring_slot_at r i) =
        (if i < ring_fill r then rb_tail r + of_nat i + 1 else rb_tail r + of_nat i))"

definition ring_contents :: "lmk_ring \<Rightarrow> log_entry list" where
  "ring_contents r = map (\<lambda>i. entry_of_request (slot_req (ring_slot_at r i))) [0..<ring_fill r]"

text \<open>The ring as one value: the operations of a handler on its own fields.\<close>

definition ring_enq :: "lmk_log_record \<times> string \<Rightarrow> lmk_ring \<Rightarrow> (int \<times> lmk_ring) option" where
  "ring_enq x r = (case lmk_ring_enqueue (rb_slots r) (rb_head r) (rb_mask r) (fst x) (snd x) of
     None \<Rightarrow> None | Some (rc, slots, h) \<Rightarrow> Some (rc, r\<lparr>rb_slots := slots, rb_head := h\<rparr>))"

definition ring_peek :: "lmk_ring \<Rightarrow> log_entry option" where
  "ring_peek r = map_option (\<lambda>i. entry_of_request (slot_req (rb_slots r ! i)))
     (lmk_ring_peek_slot (rb_slots r) (rb_tail r) (rb_mask r))"

definition ring_deq :: "lmk_ring \<Rightarrow> lmk_ring" where
  "ring_deq r = (case lmk_ring_consume (rb_slots r) (rb_tail r) (rb_mask r) of
     (slots, t) \<Rightarrow> r\<lparr>rb_slots := slots, rb_tail := t\<rparr>)"

definition ring_new :: "nat \<Rightarrow> lmk_ring" where
  "ring_new n = \<lparr>rb_slots = lmk_ring_init (replicate n zero_slot) n, rb_head = 0, rb_tail = 0,
     rb_mask = of_nat n - 1\<rparr>"

text \<open>A log call on a handler either enqueues or is dropped; a batch of calls in sequence.\<close>

fun enq_all :: "('x \<Rightarrow> 'q \<Rightarrow> (int \<times> 'q) option) \<Rightarrow> 'x list \<Rightarrow> 'q \<Rightarrow> (nat \<times> 'q) option" where
  "enq_all enq [] q = Some (0, q)"
| "enq_all enq (x # xs) q =
     (case enq x q of
        None \<Rightarrow> None
      | Some (rc, q') \<Rightarrow> map_option (\<lambda>(d, q''). (if rc = 0 then Suc d else d, q'')) (enq_all enq xs q'))"

text \<open>A schedule of calls on one queue, and what each of them reports.\<close>

datatype 'x qop = Enq 'x | Take

datatype 'e outcome = Logged | Dropped | Taken 'e | Nothing

fun run_ops :: "('x \<Rightarrow> 'q \<Rightarrow> (int \<times> 'q) option) \<Rightarrow> ('q \<Rightarrow> 'e option) \<Rightarrow> ('q \<Rightarrow> 'q)
    \<Rightarrow> 'x qop list \<Rightarrow> 'q \<Rightarrow> ('e outcome list \<times> 'q) option" where
  "run_ops enq peek deq [] q = Some ([], q)"
| "run_ops enq peek deq (Enq x # ops) q =
     (case enq x q of
        None \<Rightarrow> None
      | Some (rc, q') \<Rightarrow> map_option (\<lambda>(os, q''). ((if rc = 0 then Dropped else Logged) # os, q''))
          (run_ops enq peek deq ops q'))"
| "run_ops enq peek deq (Take # ops) q =
     (case peek q of
        None \<Rightarrow> map_option (\<lambda>(os, q''). (Nothing # os, q'')) (run_ops enq peek deq ops q)
      | Some e \<Rightarrow> map_option (\<lambda>(os, q''). (Taken e # os, q'')) (run_ops enq peek deq ops (deq q)))"

text \<open>The specification: a list of at most \<open>cap\<close> entries.\<close>

fun spec_ops :: "('x \<Rightarrow> 'e) \<Rightarrow> nat \<Rightarrow> 'x qop list \<Rightarrow> 'e list \<Rightarrow> 'e outcome list \<times> 'e list" where
  "spec_ops elem cap [] es = ([], es)"
| "spec_ops elem cap (Enq x # ops) es =
     (if length es < cap
      then let (os, es') = spec_ops elem cap ops (es @ [elem x]) in (Logged # os, es')
      else let (os, es') = spec_ops elem cap ops es in (Dropped # os, es'))"
| "spec_ops elem cap (Take # ops) [] = (let (os, es') = spec_ops elem cap ops [] in (Nothing # os, es'))"
| "spec_ops elem cap (Take # ops) (e # es) =
     (let (os, es') = spec_ops elem cap ops es in (Taken e # os, es'))"

text \<open>The inner loop of every consumer thread: \<open>while ((slot = peek())) { handle(slot); consume(); }\<close>.\<close>

partial_function (option) drain_loop ::
  "('q \<Rightarrow> 'e option) \<Rightarrow> ('q \<Rightarrow> 'q) \<Rightarrow> ('e \<Rightarrow> 's \<Rightarrow> 's) \<Rightarrow> 'q \<Rightarrow> 's \<Rightarrow> ('q \<times> 's) option" where
  "drain_loop peek deq handle q s =
     (case peek q of None \<Rightarrow> Some (q, s) | Some e \<Rightarrow> drain_loop peek deq handle (deq q) (handle e s))"

section \<open>Rounding up to a power of two\<close>

text \<open>The shifts smear every set bit of \<open>w\<close> over the \<open>n\<close> positions below it.\<close>

definition smeared :: "nat \<Rightarrow> u64 \<Rightarrow> u64 \<Rightarrow> bool" where
  "smeared n w x \<longleftrightarrow> (\<forall>i. bit x i \<longleftrightarrow> (\<exists>j<n. bit w (i + j)))"

lemma smeared_start: "smeared 1 w w"
  by (simp add: smeared_def)

lemma smeared_double:
  assumes "smeared n w x"
  shows "smeared (2 * n) w (x OR drop_bit n x)"
proof -
  have "(\<exists>j<2 * n. bit w (i + j)) \<longleftrightarrow> (\<exists>j<n. bit w (i + j)) \<or> (\<exists>j<n. bit w (n + i + j))" for i
  proof
    assume "\<exists>j<2 * n. bit w (i + j)"
    then obtain j where j: "j < 2 * n" "bit w (i + j)" by blast
    show "(\<exists>j<n. bit w (i + j)) \<or> (\<exists>j<n. bit w (n + i + j))"
    proof (cases "j < n")
      case False
      with j have "j - n < n" "bit w (n + i + (j - n))" by (auto simp: add.commute)
      then show ?thesis by blast
    qed (use j in blast)
  next
    assume "(\<exists>j<n. bit w (i + j)) \<or> (\<exists>j<n. bit w (n + i + j))"
    then show "\<exists>j<2 * n. bit w (i + j)"
    proof
      assume "\<exists>j<n. bit w (n + i + j)"
      then obtain j where "j < n" "bit w (n + i + j)" by blast
      then have "n + j < 2 * n \<and> bit w (i + (n + j))" by (simp add: ac_simps)
      then show ?thesis by blast
    next
      assume "\<exists>j<n. bit w (i + j)"
      then obtain j where "j < n" "bit w (i + j)" by blast
      then have "j < 2 * n \<and> bit w (i + j)" by simp
      then show ?thesis by blast
    qed
  qed
  then show ?thesis
    using assms by (simp add: smeared_def bit_or_iff bit_drop_bit_eq)
qed

lemma word_bit_iff_odd_unat: "bit (w :: u64) n \<longleftrightarrow> odd (unat w div 2 ^ n)"
proof -
  have "bit (unat w) n \<longleftrightarrow> bit w n"
    by (auto simp: bit_unsigned_iff possible_bit_def dest: bit_imp_le_length)
  then show ?thesis by (simp add: bit_iff_odd)
qed

lemma smeared_full:
  assumes "smeared 64 w x" and lo: "2 ^ k \<le> unat w" and hi: "unat w < 2 ^ Suc k" and k: "k < 64"
  shows "x = mask (Suc k)"
proof (rule bit_word_eqI)
  fix i assume "i < LENGTH(64)"
  have top: "bit w k"
  proof -
    have "unat w div 2 ^ k = 1"
      using lo hi by (simp add: div_nat_eqI)
    then have "odd (unat w div 2 ^ k)" by simp
    then show ?thesis by (simp add: word_bit_iff_odd_unat)
  qed
  have above: "\<not> bit w m" if "k < m" for m
  proof -
    have "unat w < 2 ^ m"
      using hi that by (metis Suc_leI less_le_trans one_le_numeral power_increasing)
    then show ?thesis by (simp add: word_bit_iff_odd_unat)
  qed
  have "(\<exists>j<64. bit w (i + j)) \<longleftrightarrow> i \<le> k"
  proof
    assume "\<exists>j<64. bit w (i + j)"
    then obtain j where "bit w (i + j)" by blast
    then have "\<not> k < i + j" using above by blast
    then show "i \<le> k" by simp
  next
    assume "i \<le> k"
    then have "k - i < 64" "bit w (i + (k - i))" using k top by auto
    then show "\<exists>j<64. bit w (i + j)" by blast
  qed
  then show "bit x i \<longleftrightarrow> bit (mask (Suc k) :: u64) i"
    using assms(1) k by (auto simp: smeared_def bit_mask_iff)
qed

lemma next_pow2_smear:
  assumes "2 \<le> v"
  shows "\<exists>x. smeared 64 (v - 1) x \<and> lmk_next_pow2 v = x + 1"
proof -
  have "\<not> v < 2" using assms by simp
  have 1: "smeared 2 w (w OR drop_bit 1 w)" for w
    using smeared_double [OF smeared_start] by simp
  have 2: "smeared 4 w (x OR drop_bit 2 x)" if "smeared 2 w x" for w x
    using smeared_double [OF that] by simp
  have 3: "smeared 8 w (x OR drop_bit 4 x)" if "smeared 4 w x" for w x
    using smeared_double [OF that] by simp
  have 4: "smeared 16 w (x OR drop_bit 8 x)" if "smeared 8 w x" for w x
    using smeared_double [OF that] by simp
  have 5: "smeared 32 w (x OR drop_bit 16 x)" if "smeared 16 w x" for w x
    using smeared_double [OF that] by simp
  have 6: "smeared 64 w (x OR drop_bit 32 x)" if "smeared 32 w x" for w x
    using smeared_double [OF that] by simp
  show ?thesis
    using 6 [OF 5 [OF 4 [OF 3 [OF 2 [OF 1 [of "v - 1"]]]]]] \<open>\<not> v < 2\<close>
    unfolding lmk_next_pow2_def Let_def by auto
qed

lemma next_pow2_exponent:
  assumes "2 \<le> v"
  shows "\<exists>k<64. 2 ^ k < unat v \<and> unat v \<le> 2 ^ Suc k \<and> lmk_next_pow2 v = 2 ^ Suc k"
proof -
  obtain x where x: "smeared 64 (v - 1) x" "lmk_next_pow2 v = x + 1"
    using next_pow2_smear [OF assms] by blast
  have v: "unat (v - 1) = unat v - 1" "2 \<le> unat v"
    using assms by (simp_all add: word_le_nat_alt unat_pred_u64)
  then obtain k where k: "2 ^ k \<le> unat (v - 1)" "unat (v - 1) < 2 ^ Suc k"
    using ex_power_ivl1 [of 2 "unat (v - 1)"] by force
  have "(2::nat) ^ k < 2 ^ 64"
    using k(1) unat_less_u64 [of "v - 1"] by simp
  then have "k < 64"
    by (rule power_less_imp_less_exp [rotated]) simp
  then have "x = mask (Suc k)" using smeared_full x(1) k by blast
  then have "lmk_next_pow2 v = 2 ^ Suc k"
    using x(2) by (simp add: mask_eq_exp_minus_1)
  then show ?thesis using k v \<open>k < 64\<close> by (intro exI [of _ k]) auto
qed

lemma length_ring_contents [simp]: "length (ring_contents r) = ring_fill r"
  by (simp add: ring_contents_def)

lemma ring_contents_Nil: "ring_contents r = [] \<longleftrightarrow> ring_fill r = 0"
  by (simp add: ring_contents_def)

lemma ring_shapeE:
  assumes "ring_shape slots msk"
  obtains k where "1 \<le> k" "k < 64" "length slots = 2 ^ k" "msk = mask k"
  using assms by (auto simp: ring_shape_def)

lemma ring_index_less: "ring_shape slots msk \<Longrightarrow> ring_index msk pos < length slots"
  by (auto elim!: ring_shapeE simp: ring_index_def unat_and_mask)

lemma ring_index_inj:
  assumes "ring_shape slots msk" "i < length slots" "j < length slots"
  shows "ring_index msk (t + of_nat i) = ring_index msk (t + of_nat j) \<longleftrightarrow> i = j"
  using assms by (auto elim!: ring_shapeE simp: ring_index_def dest: and_mask_index_inj)

lemma ring_index_wrap:
  assumes "ring_shape slots msk"
  shows "ring_index msk (t + of_nat (length slots)) = ring_index msk t"
proof -
  obtain k where k: "k < 64" "length slots = 2 ^ k" "msk = mask k"
    using assms by (rule ring_shapeE)
  have "unat (t + 2 ^ k) = (unat t + 2 ^ k) mod 2 ^ 64"
    using k(1) by (simp add: unat_word_ariths unat_pow2_u64)
  moreover have "(2::nat) ^ k dvd 2 ^ 64"
    using k(1) by (intro le_imp_power_dvd) simp
  ultimately show ?thesis
    by (simp add: k ring_index_def unat_and_mask mod_mod_cancel)
qed

lemma ring_head_eq: "rb_head r = rb_tail r + of_nat (ring_fill r)"
  by (simp add: ring_fill_def)

lemma ring_fill_bound:
  assumes "ring_invar r"
  shows "ring_fill r \<le> length (rb_slots r)" "length (rb_slots r) \<le> 2 ^ 63"
  using assms pow2_le_half by (auto simp: ring_invar_def elim!: ring_shapeE)

lemma ring_seq_ready:
  "ring_invar r \<Longrightarrow> i < ring_fill r \<Longrightarrow> slot_sequence (ring_slot_at r i) = rb_tail r + of_nat i + 1"
  by (auto simp: ring_invar_def)

lemma ring_seq_free:
  "ring_invar r \<Longrightarrow> ring_fill r \<le> i \<Longrightarrow> i < length (rb_slots r) \<Longrightarrow>
     slot_sequence (ring_slot_at r i) = rb_tail r + of_nat i"
  by (auto simp: ring_invar_def)

text \<open>The head slot of a full ring is the tail slot, still marked ready for the consumer.\<close>

lemma ring_diff_full:
  assumes "ring_invar r" "ring_fill r = length (rb_slots r)"
  shows "ring_diff (slot_sequence (ring_slot_at r (ring_fill r))) (rb_head r) < 0"
proof -
  from assms(1) obtain k where k: "1 \<le> k" "k < 64" "length (rb_slots r) = 2 ^ k"
    "ring_shape (rb_slots r) (rb_mask r)"
    by (auto simp: ring_invar_def elim: ring_shapeE)
  have "ring_slot_at r (ring_fill r) = ring_slot_at r 0"
    using ring_index_wrap [OF k(4)] by (simp add: ring_slot_at_def assms(2))
  then have "slot_sequence (ring_slot_at r (ring_fill r)) - rb_head r = 1 - 2 ^ k"
    using ring_seq_ready [OF assms(1), of 0] assms(2) k(3) by (simp add: ring_head_eq)
  moreover have "sint (1 - 2 ^ k :: u64) < 0"
  proof -
    have le: "(2::int) ^ 1 \<le> 2 ^ k" "(2::int) ^ k \<le> 2 ^ 63"
      using k by (intro power_increasing; simp)+
    then have "sint (of_int (1 - 2 ^ k) :: u64) = 1 - 2 ^ k"
      by (intro sint_of_int_u64) auto
    with le show ?thesis by simp
  qed
  ultimately show ?thesis by (simp add: ring_diff_def)
qed

lemma enqueue_loop_at_head:
  assumes "ring_invar r"
  shows "lmk_ring_enqueue (rb_slots r) (rb_head r) (rb_mask r) rec hname =
    (if ring_fill r < length (rb_slots r)
     then Some (1, (rb_slots r)[ring_index (rb_mask r) (rb_head r) :=
            \<lparr>slot_sequence = rb_head r + 1, slot_req = write_data rec (write_meta rec hname
               (slot_req (ring_slot_at r (ring_fill r))))\<rparr>], rb_head r + 1)
     else Some (0, rb_slots r, rb_head r))"
proof -
  have slot: "rb_slots r ! ring_index (rb_mask r) (rb_head r) = ring_slot_at r (ring_fill r)"
    by (simp add: ring_slot_at_def ring_head_eq)
  show ?thesis
  proof (cases "ring_fill r < length (rb_slots r)")
    case True
    then have "ring_diff (slot_sequence (ring_slot_at r (ring_fill r))) (rb_head r) = 0"
      using ring_seq_free [OF assms] by (simp add: ring_diff_def ring_head_eq)
    with True slot show ?thesis
      by (simp add: lmk_ring_enqueue_def enqueue_loop.simps Let_def)
  next
    case False
    then have "ring_fill r = length (rb_slots r)" using ring_fill_bound(1) [OF assms] by simp
    then have "ring_diff (slot_sequence (ring_slot_at r (ring_fill r))) (rb_head r) < 0"
      by (rule ring_diff_full [OF assms])
    with False slot show ?thesis
      by (simp add: lmk_ring_enqueue_def enqueue_loop.simps Let_def)
  qed
qed

lemma entry_written [simp]:
  "entry_of_request (write_data rec (write_meta rec hname q)) = entry_of_record rec hname"
  by (simp add: entry_of_request_def entry_of_record_def write_data_def write_meta_def Let_def min_def)

lemma ring_enq_step:
  assumes inv: "ring_invar r" and room: "ring_fill r < length (rb_slots r)"
    and r': "r' = r\<lparr>rb_slots := (rb_slots r)[ring_index (rb_mask r) (rb_head r) :=
            \<lparr>slot_sequence = rb_head r + 1, slot_req = q\<rparr>], rb_head := rb_head r + 1\<rparr>"
  shows "ring_fill r' = Suc (ring_fill r)" "ring_invar r'"
    "ring_contents r' = ring_contents r @ [entry_of_request q]"
proof -
  let ?n = "ring_fill r"
  have shape: "ring_shape (rb_slots r) (rb_mask r)" using inv by (simp add: ring_invar_def)
  have "rb_head r + 1 - rb_tail r = of_nat (Suc ?n)" by (simp add: ring_head_eq)
  moreover have "Suc ?n < 2 ^ 64" using ring_fill_bound(2) [OF inv] room by simp
  ultimately show fill: "ring_fill r' = Suc ?n"
    using r' by (simp add: ring_fill_def unat_of_nat_u64 del: of_nat_Suc)
  have slot: "ring_slot_at r' i = (if i = ?n then \<lparr>slot_sequence = rb_head r + 1, slot_req = q\<rparr>
      else ring_slot_at r i)" if "i < length (rb_slots r)" for i
    using r' that room ring_index_inj [OF shape room that] ring_index_less [OF shape]
    by (auto simp: ring_slot_at_def ring_head_eq nth_list_update)
  show "ring_invar r'"
    unfolding ring_invar_def fill
    using r' inv shape room slot
    by (auto simp: ring_invar_def ring_shape_def ring_head_eq less_Suc_eq)
  show "ring_contents r' = ring_contents r @ [entry_of_request q]"
    using slot room by (simp add: ring_contents_def fill)
qed

lemma ring_deq_frame:
  "rb_head (ring_deq r) = rb_head r" "rb_mask (ring_deq r) = rb_mask r" "rb_tail (ring_deq r) = rb_tail r + 1"
  "length (rb_slots (ring_deq r)) = length (rb_slots r)"
  by (simp_all add: ring_deq_def lmk_ring_consume_def Let_def)

lemma ring_deq_fill:
  assumes inv: "ring_invar r" and ne: "0 < ring_fill r"
  shows "Suc (ring_fill (ring_deq r)) = ring_fill r"
proof -
  let ?n = "ring_fill r"
  have "of_nat ?n = of_nat (?n - 1) + (1 :: u64)" using ne by (simp add: of_nat_diff Suc_leI)
  then have "rb_head r - (rb_tail r + 1) = of_nat (?n - 1)" by (simp add: ring_head_eq)
  then have "ring_fill (ring_deq r) = unat (of_nat (?n - 1) :: u64)" by (simp only: ring_fill_def [of "ring_deq r"] ring_deq_frame)
  also have "\<dots> = ?n - 1" using ring_fill_bound [OF inv] by (intro unat_of_nat_u64) simp
  finally show ?thesis using ne by simp
qed

text \<open>The slot of the tail becomes the last of the window, one round later; the others move up by one.\<close>

lemma ring_deq_slot:
  assumes inv: "ring_invar r" and i: "i < length (rb_slots r)"
  shows "ring_slot_at (ring_deq r) i = (if Suc i = length (rb_slots r)
      then (ring_slot_at r 0)\<lparr>slot_sequence := rb_tail r + of_nat (length (rb_slots r))\<rparr> else ring_slot_at r (Suc i))"
proof -
  let ?s = "length (rb_slots r)"
  have shape: "ring_shape (rb_slots r) (rb_mask r)" using inv by (simp add: ring_invar_def)
  then obtain k where k: "k < 64" "?s = 2 ^ k" "rb_mask r = mask k" by (rule ring_shapeE)
  have msk: "rb_mask r + 1 = of_nat ?s" using k by (simp add: mask_eq_exp_minus_1)
  show ?thesis
  proof (cases "Suc i = ?s")
    case True
    then have "ring_index (rb_mask r) (rb_tail r + 1 + of_nat i) = ring_index (rb_mask r) (rb_tail r)"
      using ring_index_wrap [OF shape, of "rb_tail r"] by (simp add: ac_simps flip: True)
    with True show ?thesis
      using ring_index_less [OF shape] msk
      by (simp add: ring_slot_at_def ring_deq_def lmk_ring_consume_def Let_def add.assoc)
  next
    case False
    with i have "ring_index (rb_mask r) (rb_tail r + of_nat (Suc i)) \<noteq> ring_index (rb_mask r) (rb_tail r + of_nat 0)"
      by (subst ring_index_inj [OF shape]) auto
    with False show ?thesis
      by (simp add: ring_slot_at_def ring_deq_def lmk_ring_consume_def Let_def ac_simps)
  qed
qed

lemma ring_deq_step:
  assumes inv: "ring_invar r" and ne: "0 < ring_fill r"
  shows "ring_invar (ring_deq r)" "Suc (ring_fill (ring_deq r)) = ring_fill r"
    "ring_contents r = entry_of_request (slot_req (ring_slot_at r 0)) # ring_contents (ring_deq r)"
proof -
  let ?r = "ring_deq r" and ?s = "length (rb_slots r)"
  note slot = ring_deq_slot [OF inv]
  show fill: "Suc (ring_fill ?r) = ring_fill r" by (rule ring_deq_fill [OF assms])
  show "ring_invar ?r"
    unfolding ring_invar_def ring_deq_frame
  proof (intro conjI allI impI)
    show "ring_shape (rb_slots ?r) (rb_mask r)" using inv ring_deq_frame(4) by (simp add: ring_shape_def ring_invar_def)
    show "ring_fill ?r \<le> ?s" using fill ring_fill_bound(1) [OF inv] by simp
    fix i assume i: "i < ?s"
    show "slot_sequence (ring_slot_at ?r i) = (if i < ring_fill ?r then rb_tail r + 1 + of_nat i + 1
            else rb_tail r + 1 + of_nat i)"
    proof (cases "Suc i = ?s")
      case True
      then show ?thesis using slot [OF i] fill ring_fill_bound(1) [OF inv] by (auto simp: ac_simps simp flip: True)
    next
      case False
      then show ?thesis using slot [OF i] fill inv i by (auto simp: ring_invar_def ac_simps)
    qed
  qed
  have "slot_req (ring_slot_at ?r i) = slot_req (ring_slot_at r (Suc i))" if "i < ring_fill ?r" for i
    using slot [of i] that fill ring_fill_bound(1) [OF inv] by auto
  then show "ring_contents r = entry_of_request (slot_req (ring_slot_at r 0)) # ring_contents ?r"
    unfolding ring_contents_def fill [symmetric] map_upt_Suc_shift by simp
qed

section \<open>The bounded FIFO interface\<close>

locale bounded_fifo =
  fixes invar :: "'q \<Rightarrow> bool"
    and contents :: "'q \<Rightarrow> 'e list"
    and capacity :: "'q \<Rightarrow> nat"
    and enq :: "'x \<Rightarrow> 'q \<Rightarrow> (int \<times> 'q) option"
    and elem :: "'x \<Rightarrow> 'e"
    and peek :: "'q \<Rightarrow> 'e option"
    and deq :: "'q \<Rightarrow> 'q"
  assumes bounded: "invar q \<Longrightarrow> length (contents q) \<le> capacity q"
    and enq_room: "invar q \<Longrightarrow> length (contents q) < capacity q \<Longrightarrow>
      \<exists>q'. enq x q = Some (1, q') \<and> invar q' \<and> capacity q' = capacity q \<and>
        contents q' = contents q @ [elem x]"
    and enq_full: "invar q \<Longrightarrow> length (contents q) = capacity q \<Longrightarrow> enq x q = Some (0, q)"
    and peek_hd: "invar q \<Longrightarrow> peek q = (case contents q of [] \<Rightarrow> None | e # _ \<Rightarrow> Some e)"
    and deq_tl: "invar q \<Longrightarrow> contents q \<noteq> [] \<Longrightarrow>
      invar (deq q) \<and> capacity (deq q) = capacity q \<and> contents (deq q) = tl (contents q)"

context bounded_fifo
begin

lemma enq_total: "invar q \<Longrightarrow> \<exists>rc q'. enq x q = Some (rc, q') \<and> invar q' \<and> capacity q' = capacity q"
  using enq_room [of q x] enq_full [of q x] bounded [of q] by (fastforce simp: le_less)

lemma enq_all_spec:
  assumes "invar q"
  shows "\<exists>q'. enq_all enq xs q =
      Some (length xs - (capacity q - length (contents q)), q') \<and> invar q' \<and> capacity q' = capacity q \<and>
      contents q' = contents q @ map elem (take (capacity q - length (contents q)) xs)"
  using assms
proof (induction xs arbitrary: q)
  case Nil
  then show ?case by simp
next
  case (Cons x xs)
  show ?case
  proof (cases "length (contents q) < capacity q")
    case True
    then obtain q1 where q1: "enq x q = Some (1, q1)" "invar q1" "capacity q1 = capacity q"
      "contents q1 = contents q @ [elem x]"
      using enq_room [OF Cons.prems] by blast
    then have "capacity q1 - length (contents q1) = capacity q - length (contents q) - 1" by simp
    with True Cons.IH [OF q1(2)] q1 show ?thesis
      by (auto simp: take_Cons' Suc_diff_Suc)
  next
    case False
    then have "length (contents q) = capacity q" using bounded [OF Cons.prems] by simp
    with enq_full [OF Cons.prems] Cons.IH [OF Cons.prems] show ?thesis by auto
  qed
qed

lemma run_ops_refines:
  assumes "invar q"
  shows "\<exists>q'. run_ops enq peek deq ops q =
      Some (fst (spec_ops elem (capacity q) ops (contents q)), q') \<and> invar q' \<and>
      contents q' = snd (spec_ops elem (capacity q) ops (contents q))"
  using assms
proof (induction ops arbitrary: q)
  case Nil
  then show ?case by simp
next
  case (Cons op ops)
  show ?case
  proof (cases op)
    case (Enq x)
    show ?thesis
    proof (cases "length (contents q) < capacity q")
      case True
      then obtain q1 where q1: "enq x q = Some (1, q1)" "invar q1" "capacity q1 = capacity q"
        "contents q1 = contents q @ [elem x]"
        using enq_room [OF Cons.prems] by blast
      then show ?thesis using Cons.IH [OF q1(2)] True Enq by (auto simp: split_beta)
    next
      case False
      then have "length (contents q) = capacity q" using bounded [OF Cons.prems] by simp
      with enq_full [OF Cons.prems] Cons.IH [OF Cons.prems] Enq show ?thesis
        by (auto simp: split_beta)
    qed
  next
    case Take
    show ?thesis
    proof (cases "contents q")
      case Nil
      then show ?thesis using Take Cons.IH [OF Cons.prems] peek_hd [OF Cons.prems]
        by (auto simp: split_beta)
    next
      case (Cons e es)
      then have "invar (deq q)" "capacity (deq q) = capacity q" "contents (deq q) = es"
        using deq_tl [OF Cons.prems] by auto
      then show ?thesis
        using Take Cons.IH [of "deq q"] peek_hd [OF Cons.prems] Cons by (auto simp: split_beta)
    qed
  qed
qed

lemma drain_loop_spec:
  assumes "invar q"
  shows "\<exists>q'. drain_loop peek deq handle q s = Some (q', fold handle (contents q) s) \<and>
      invar q' \<and> capacity q' = capacity q \<and> contents q' = []"
  using assms
proof (induction "contents q" arbitrary: q s)
  case Nil
  then show ?case using peek_hd [of q] by (simp add: drain_loop.simps)
next
  case (Cons e es)
  then have d: "invar (deq q)" "capacity (deq q) = capacity q" "contents (deq q) = es"
    using deq_tl [of q] by (metis list.discI list.sel(3))+
  then obtain q' where "drain_loop peek deq handle (deq q) (handle e s) = Some (q', fold handle es (handle e s))"
      "invar q'" "capacity q' = capacity q" "contents q' = []"
    using Cons.hyps(1) [of "deq q" "handle e s"] by auto
  moreover have "peek q = Some e"
    using peek_hd [OF Cons.prems] Cons.hyps(2) by (metis list.simps(5))
  ultimately show ?case
    using Cons.hyps(2) by (subst drain_loop.simps) (auto simp flip: Cons.hyps(2))
qed

end

lemma next_pow2_bounds:
  assumes "unat v \<le> 2 ^ 63"
  shows "\<exists>k. 1 \<le> k \<and> k < 64 \<and> lmk_next_pow2 v = 2 ^ k \<and> unat (lmk_next_pow2 v) = 2 ^ k \<and>
    unat v \<le> 2 ^ k \<and> (\<forall>j\<ge>1. unat v \<le> 2 ^ j \<longrightarrow> k \<le> j)"
proof (cases "v < 2")
  case True
  then have "unat v \<le> 2 ^ 1" by (simp add: word_less_nat_alt)
  with True show ?thesis by (intro exI [of _ 1]) (auto simp: lmk_next_pow2_def)
next
  case False
  then obtain k where k: "k < 64" "2 ^ k < unat v" "unat v \<le> 2 ^ Suc k" "lmk_next_pow2 v = 2 ^ Suc k"
    using next_pow2_exponent [of v] by (auto simp: not_less)
  have "(2::nat) ^ k < 2 ^ 63" using k(2) assms by (rule less_le_trans)
  then have "Suc k < 64" using power_less_imp_less_exp [of "2::nat" k 63] by simp
  moreover have "Suc k \<le> j" if "unat v \<le> 2 ^ j" for j
  proof -
    have "(2::nat) ^ k < 2 ^ j" using k(2) that by (rule less_le_trans)
    then show ?thesis using power_less_imp_less_exp [of "2::nat" k j] by simp
  qed
  ultimately show ?thesis
    using k unat_pow2_u64 [of "Suc k"] by (intro exI [of _ "Suc k"]) auto
qed

lemma ring_peek_eq:
  assumes "ring_invar r"
  shows "ring_peek r = (if 0 < ring_fill r
    then Some (entry_of_request (slot_req (ring_slot_at r 0))) else None)"
proof -
  have "0 < length (rb_slots r)" using assms by (auto simp: ring_invar_def elim: ring_shapeE)
  then have "slot_sequence (ring_slot_at r 0) = (if 0 < ring_fill r then rb_tail r + 1 else rb_tail r)"
    using assms by (auto simp: ring_invar_def)
  then show ?thesis
    by (simp add: ring_peek_def lmk_ring_peek_slot_def ring_diff_def ring_slot_at_def sint_zero_iff Let_def)
qed

lemma ring_init_loop_spec:
  "i + n \<le> length ring \<Longrightarrow> length (ring_init_loop ring i n) = length ring \<and>
    (\<forall>j<length ring. ring_init_loop ring i n ! j =
      (if i \<le> j \<and> j < i + n then (ring ! j)\<lparr>slot_sequence := of_nat j\<rparr> else ring ! j))"
  by (induction n arbitrary: i ring) (auto simp: nth_list_update)

lemma ring_new_invar:
  assumes "1 \<le> k" "k < 64"
  shows "ring_invar (ring_new (2 ^ k))" "ring_contents (ring_new (2 ^ k)) = []"
    "length (rb_slots (ring_new (2 ^ k))) = 2 ^ k"
proof -
  let ?r = "ring_new (2 ^ k)"
  have init: "length (rb_slots ?r) = 2 ^ k"
    "\<And>j. j < 2 ^ k \<Longrightarrow> slot_sequence (rb_slots ?r ! j) = of_nat j"
    using ring_init_loop_spec [of 0 "2 ^ k" "replicate (2 ^ k) zero_slot"]
    by (auto simp: ring_new_def lmk_ring_init_def)
  then show "length (rb_slots ?r) = 2 ^ k" by simp
  have fields: "rb_head ?r = 0" "rb_tail ?r = 0" "rb_mask ?r = mask k"
    by (simp_all add: ring_new_def mask_eq_exp_minus_1)
  have shape: "ring_shape (rb_slots ?r) (rb_mask ?r)"
    using assms init(1) fields by (auto simp: ring_shape_def)
  have "slot_sequence (ring_slot_at ?r i) = of_nat i" if "i < 2 ^ k" for i
  proof -
    have "i < 2 ^ 64" using that pow2_le_half [OF assms(2)] by simp
    then have "ring_index (mask k) (of_nat i) = i"
      using that by (simp add: ring_index_def unat_and_mask unat_of_nat_u64)
    with that show ?thesis by (simp add: ring_slot_at_def fields init(2))
  qed
  then show "ring_invar ?r"
    using shape init(1) fields by (simp add: ring_invar_def ring_fill_def)
  show "ring_contents ?r = []" by (simp add: ring_contents_def ring_fill_def fields)
qed

interpretation rb: bounded_fifo ring_invar ring_contents "\<lambda>r. length (rb_slots r)"
  ring_enq "\<lambda>x. entry_of_record (fst x) (snd x)" ring_peek ring_deq
proof
  fix r :: lmk_ring assume inv: "ring_invar r"
  then show "length (ring_contents r) \<le> length (rb_slots r)" by (simp add: ring_fill_bound)
  show "\<exists>r'. ring_enq x r = Some (1, r') \<and> ring_invar r' \<and> length (rb_slots r') = length (rb_slots r) \<and>
      ring_contents r' = ring_contents r @ [entry_of_record (fst x) (snd x)]"
    if "length (ring_contents r) < length (rb_slots r)" for x
    using that inv enqueue_loop_at_head [OF inv] ring_enq_step [OF inv _ refl]
    by (simp add: ring_enq_def)
  show "ring_enq x r = Some (0, r)" if "length (ring_contents r) = length (rb_slots r)" for x
    using that enqueue_loop_at_head [OF inv] by (simp add: ring_enq_def)
  have peek: "ring_peek r = (if 0 < ring_fill r then Some (entry_of_request (slot_req (ring_slot_at r 0))) else None)" by (rule ring_peek_eq [OF inv])
  show "ring_peek r = (case ring_contents r of [] \<Rightarrow> None | e # _ \<Rightarrow> Some e)"
  proof (cases "ring_fill r = 0")
    case True
    then have "ring_contents r = []" by (simp add: ring_contents_Nil)
    with True show ?thesis by (simp add: peek)
  next
    case False
    then show ?thesis using ring_deq_step(3) [OF inv] by (simp add: peek)
  qed
  show "ring_invar (ring_deq r) \<and> length (rb_slots (ring_deq r)) = length (rb_slots r) \<and>
      ring_contents (ring_deq r) = tl (ring_contents r)" if "ring_contents r \<noteq> []"
  proof -
    have "0 < ring_fill r" using that length_ring_contents [of r] by (metis length_greater_0_conv)
    then show ?thesis using ring_deq_step [OF inv]
      by (simp add: ring_deq_def lmk_ring_consume_def Let_def)
  qed
qed



section \<open>Properties\<close>

text \<open>
  C1. The sequential ring is a bounded FIFO queue: from every state that satisfies the
  invariant, whatever the values of the 64-bit cursors, any schedule of enqueues and takes
  reports exactly what a list of at most \<open>ring_size\<close> entries reports, ends in a state that
  satisfies the invariant and holds the same entries. In particular every call returns.
\<close>

theorem ring_refines_bounded_queue:
  assumes "ring_invar r"
  shows "\<exists>r'. run_ops ring_enq ring_peek ring_deq ops r =
      Some (fst (spec_ops (\<lambda>x. entry_of_record (fst x) (snd x)) (length (rb_slots r)) ops (ring_contents r)), r') \<and>
    ring_invar r' \<and>
    ring_contents r' = snd (spec_ops (\<lambda>x. entry_of_record (fst x) (snd x)) (length (rb_slots r)) ops (ring_contents r))"
  by (rule rb.run_ops_refines [OF assms])

text \<open>A two-slot ring whose cursors are about to wrap round to zero.\<close>

definition wrap_ring :: lmk_ring where
  "wrap_ring = \<lparr>rb_slots = [zero_slot\<lparr>slot_sequence := 0\<rparr>, zero_slot\<lparr>slot_sequence := - 1\<rparr>],
     rb_head = - 1, rb_tail = - 1, rb_mask = 1\<rparr>"

definition sample_record :: "string \<Rightarrow> lmk_log_record" where
  "sample_record msg = \<lparr>rec_log_level = 2, rec_data = msg, rec_data_len = length msg,
     rec_line_no = 7, rec_file_name = ''app.c''\<rparr>"

lemma wrap_ring_shape: "ring_shape (rb_slots wrap_ring) (rb_mask wrap_ring)"
  unfolding ring_shape_def by (rule bexI [of _ 1]) (simp_all add: wrap_ring_def mask_eq_exp_minus_1)

lemma wrap_ring_invar: "ring_invar wrap_ring"
  using wrap_ring_shape
  by (auto simp: ring_invar_def ring_fill_def ring_slot_at_def ring_index_def wrap_ring_def
      numeral_2_eq_2 less_Suc_eq)

lemma wrap_ring_contents: "ring_contents wrap_ring = []" "length (rb_slots wrap_ring) = 2"
  by (simp_all add: ring_contents_Nil ring_fill_def wrap_ring_def)

theorem ring_refines_bounded_queue_witness:
  "ring_invar wrap_ring \<and>
   (\<exists>r'. run_ops ring_enq ring_peek ring_deq
      [Enq (sample_record ''a'', ''h''), Enq (sample_record ''b'', ''h''), Enq (sample_record ''c'', ''h''),
       Take, Take, Take] wrap_ring =
     Some ([Logged, Logged, Dropped, Taken (entry_of_record (sample_record ''a'') ''h''),
       Taken (entry_of_record (sample_record ''b'') ''h''), Nothing], r'))"
  using ring_refines_bounded_queue [OF wrap_ring_invar, of "[Enq (sample_record ''a'', ''h''),
      Enq (sample_record ''b'', ''h''), Enq (sample_record ''c'', ''h''), Take, Take, Take]"]
  by (auto simp: wrap_ring_invar wrap_ring_contents)

text \<open>
  C2. Ring creation: for every \<open>ring_buffer_size\<close> a configuration can hold (at most
  \<open>2^63\<close>), \<open>lmk_next_pow2\<close> returns the least power of two, two or more, that is at least the
  requested size, so the mask of the ring selects valid slots.
\<close>

theorem lmk_next_pow2_least:
  assumes "unat v \<le> 2 ^ 63"
  shows "\<exists>k. 1 \<le> k \<and> k < 64 \<and> lmk_next_pow2 v = 2 ^ k \<and> unat (lmk_next_pow2 v) = 2 ^ k \<and>
    unat v \<le> 2 ^ k \<and> (\<forall>j\<ge>1. unat v \<le> 2 ^ j \<longrightarrow> k \<le> j)"
  by (rule next_pow2_bounds [OF assms])

theorem lmk_next_pow2_least_witness:
  "unat (1000 :: u64) \<le> 2 ^ 63 \<and> (\<exists>k. lmk_next_pow2 1000 = 2 ^ k \<and> 1000 \<le> (2::nat) ^ k) \<and>
   lmk_next_pow2 1000 = 1024"
proof -
  have h: "unat (1000 :: u64) \<le> 2 ^ 63" by simp
  have "lmk_next_pow2 1000 = 1024" by (simp add: lmk_next_pow2_def)
  with h lmk_next_pow2_least [OF h] show ?thesis by auto
qed

text \<open>
  C3. Bursts: on a fresh ring of \<open>2^k\<close> slots, a burst of log calls is accepted up to the ring
  size, the rest is counted as dropped, nothing blocks, and the consumer's drain loop
  terminates having handled exactly the accepted entries, oldest first, leaving the ring empty.
\<close>

theorem ring_burst_then_drain:
  assumes "1 \<le> k" "k < 64"
  shows "\<exists>r r'. enq_all ring_enq xs (ring_new (2 ^ k)) = Some (length xs - 2 ^ k, r) \<and>
    drain_loop ring_peek ring_deq handle r s =
      Some (r', fold handle (map (\<lambda>x. entry_of_record (fst x) (snd x)) (take (2 ^ k) xs)) s) \<and>
    ring_invar r' \<and> ring_contents r' = []"
proof -
  obtain r where r: "enq_all ring_enq xs (ring_new (2 ^ k)) = Some (length xs - 2 ^ k, r)" "ring_invar r"
      "ring_contents r = map (\<lambda>x. entry_of_record (fst x) (snd x)) (take (2 ^ k) xs)"
    using rb.enq_all_spec [of "ring_new (2 ^ k)" xs] ring_new_invar [OF assms] by auto
  then show ?thesis using rb.drain_loop_spec [OF r(2), of handle s] by auto
qed

theorem ring_burst_then_drain_witness:
  "\<exists>r r'. enq_all ring_enq (map (\<lambda>m. (sample_record m, ''h'')) [''a'', ''b'', ''c'']) (ring_new (2 ^ 1)) = Some (1, r) \<and>
    drain_loop ring_peek ring_deq (\<lambda>e out. out @ [entry_message e]) r [] = Some (r', [''a'', ''b''])"
  using ring_burst_then_drain [of 1 "map (\<lambda>m. (sample_record m, ''h'')) [''a'', ''b'', ''c'']"
      "\<lambda>e out. out @ [entry_message e]" "[]"]
  by (auto simp: entry_of_record_def sample_record_def LMK_LOG_MSG_MAX_SIZE_def)

text \<open>
  C4. The signed subtraction \<open>(intptr_t)seq - (intptr_t)pos\<close> of \<open>lmk_ring_enqueue\<close> stays within
  \<open>intptr_t\<close> (no undefined behaviour) and equals the two's complement difference of the model,
  as long as fewer than \<open>2^63\<close> minus two rings of messages have been logged.
\<close>

theorem ring_diff_exact:
  assumes inv: "ring_invar r" and young: "unat (rb_tail r) + 2 * length (rb_slots r) < 2 ^ 63"
    and i: "i < length (rb_slots r)"
  shows "sint (slot_sequence (ring_slot_at r i)) - sint (rb_head r) =
      ring_diff (slot_sequence (ring_slot_at r i)) (rb_head r) \<and>
    \<bar>sint (slot_sequence (ring_slot_at r i)) - sint (rb_head r)\<bar> < 2 ^ 63"
proof -
  define a where "a = unat (rb_tail r) + i + (if i < ring_fill r then 1 else 0)"
  define b where "b = unat (rb_tail r) + ring_fill r"
  have ab: "a < 2 ^ 63" "b < 2 ^ 63"
    using young i ring_fill_bound(1) [OF inv] by (auto simp: a_def b_def)
  have "slot_sequence (ring_slot_at r i) = of_nat a" "rb_head r = of_nat b"
    using inv i by (auto simp: ring_invar_def a_def b_def ring_head_eq)
  then show ?thesis
    using ab by (auto simp: ring_diff_def sint_of_nat_diff_u64 sint_of_nat_u64)
qed

theorem ring_diff_exact_witness:
  "ring_invar (ring_new (2 ^ 1)) \<and> unat (rb_tail (ring_new (2 ^ 1))) + 2 * length (rb_slots (ring_new (2 ^ 1))) < 2 ^ 63 \<and>
   \<bar>sint (slot_sequence (ring_slot_at (ring_new (2 ^ 1)) 1)) - sint (rb_head (ring_new (2 ^ 1)))\<bar> < 2 ^ 63"
proof -
  have inv: "ring_invar (ring_new (2 ^ 1))" and len: "length (rb_slots (ring_new (2 ^ 1))) = 2 ^ 1"
    using ring_new_invar [of 1] by auto
  have young: "unat (rb_tail (ring_new (2 ^ 1))) + 2 * length (rb_slots (ring_new (2 ^ 1))) < 2 ^ 63"
    unfolding len by (simp add: ring_new_def)
  have "1 < length (rb_slots (ring_new (2 ^ 1)))" unfolding len by simp
  from ring_diff_exact [OF inv young this] inv young show ?thesis by blast
qed

end
