(* ===== verification/Ring_Concurrent.thy ===== *)
theory Ring_Concurrent
  imports Ring
begin

text \<open>
  The same ring under interleaving: any number of producer threads inside \<open>lmk_ring_enqueue\<close>
  and the one consumer thread inside its peek, handle, consume loop, one atomic access at a
  time (sequentially consistent; the acquire and release orderings of the source are not
  weakened further). Producer program counters follow the statements of
  \<open>lmk_ring_enqueue\<close>: load of \<open>head\<close>, load of the slot's sequence number and three-way
  branch, weak compare-exchange (which may fail spuriously), the writes into the claimed slot
  and the releasing store of the sequence number. \<open>cs_claimed\<close>, \<open>cs_taken\<close> and \<open>cs_delivered\<close>
  are history variables: the messages in the order of successful compare-exchanges, the number
  consumed and what the consumer handled.

  The state is an extensible record, so that \<open>Async_Handler\<close> can add the fields of the sleep
  and wake protocol and reuse the steps and the invariant.
\<close>

section \<open>State\<close>

datatype producer_pc =
    P_idle
  | P_top lmk_log_record string u64
  | P_cas lmk_log_record string u64
  | P_reload lmk_log_record string
  | P_meta lmk_log_record string u64
  | P_data lmk_log_record string u64
  | P_publish lmk_log_record string u64
  | P_done int

datatype consumer_pc = C_peek | C_handle | C_consume

record ring_cstate =
  cs_slots :: "lmk_ring_slot list"
  cs_head :: u64
  cs_tail :: u64
  cs_mask :: u64
  cs_prod :: "nat \<Rightarrow> producer_pc"
  cs_cons :: consumer_pc
  cs_claimed :: "log_entry list"
  cs_taken :: nat
  cs_delivered :: "log_entry list"

datatype ring_label =
    L_call nat | L_load nat | L_reload nat | L_cas nat | L_meta nat | L_data nat | L_publish nat
  | L_return nat | L_peek | L_handle | L_consume

abbreviation set_pc :: "nat \<Rightarrow> producer_pc \<Rightarrow> 'a ring_cstate_scheme \<Rightarrow> 'a ring_cstate_scheme" where
  "set_pc t pc s \<equiv> s\<lparr>cs_prod := (cs_prod s)(t := pc)\<rparr>"

abbreviation slot_for :: "'a ring_cstate_scheme \<Rightarrow> u64 \<Rightarrow> lmk_ring_slot" where
  "slot_for s pos \<equiv> cs_slots s ! ring_index (cs_mask s) pos"

abbreviation set_slot :: "u64 \<Rightarrow> lmk_ring_slot \<Rightarrow> 'a ring_cstate_scheme \<Rightarrow> 'a ring_cstate_scheme" where
  "set_slot pos sl s \<equiv> s\<lparr>cs_slots := (cs_slots s)[ring_index (cs_mask s) pos := sl]\<rparr>"

section \<open>Steps\<close>

inductive ring_step :: "'a ring_cstate_scheme \<Rightarrow> ring_label \<Rightarrow> 'a ring_cstate_scheme \<Rightarrow> bool" where
  call: "cs_prod s t = P_idle \<Longrightarrow> ring_step s (L_call t) (set_pc t (P_top rec h (cs_head s)) s)"
| load_free: "cs_prod s t = P_top rec h pos \<Longrightarrow> ring_diff (slot_sequence (slot_for s pos)) pos = 0 \<Longrightarrow>
    ring_step s (L_load t) (set_pc t (P_cas rec h pos) s)"
| load_full: "cs_prod s t = P_top rec h pos \<Longrightarrow> ring_diff (slot_sequence (slot_for s pos)) pos < 0 \<Longrightarrow>
    ring_step s (L_load t) (set_pc t (P_done 0) s)"
| load_stale: "cs_prod s t = P_top rec h pos \<Longrightarrow> ring_diff (slot_sequence (slot_for s pos)) pos > 0 \<Longrightarrow>
    ring_step s (L_load t) (set_pc t (P_reload rec h) s)"
| reload: "cs_prod s t = P_reload rec h \<Longrightarrow>
    ring_step s (L_reload t) (set_pc t (P_top rec h (cs_head s)) s)"
| cas_ok: "cs_prod s t = P_cas rec h pos \<Longrightarrow> cs_head s = pos \<Longrightarrow>
    ring_step s (L_cas t) (set_pc t (P_meta rec h pos)
      (s\<lparr>cs_head := pos + 1, cs_claimed := cs_claimed s @ [entry_of_record rec h]\<rparr>))"
| cas_fail: "cs_prod s t = P_cas rec h pos \<Longrightarrow>
    ring_step s (L_cas t) (set_pc t (P_top rec h (cs_head s)) s)"
| meta: "cs_prod s t = P_meta rec h pos \<Longrightarrow>
    ring_step s (L_meta t) (set_pc t (P_data rec h pos) (set_slot pos
      ((slot_for s pos)\<lparr>slot_req := write_meta rec h (slot_req (slot_for s pos))\<rparr>) s))"
| data: "cs_prod s t = P_data rec h pos \<Longrightarrow>
    ring_step s (L_data t) (set_pc t (P_publish rec h pos) (set_slot pos
      ((slot_for s pos)\<lparr>slot_req := write_data rec (slot_req (slot_for s pos))\<rparr>) s))"
| publish: "cs_prod s t = P_publish rec h pos \<Longrightarrow>
    ring_step s (L_publish t) (set_pc t (P_done 1) (set_slot pos
      ((slot_for s pos)\<lparr>slot_sequence := pos + 1\<rparr>) s))"
| return: "cs_prod s t = P_done rc \<Longrightarrow> ring_step s (L_return t) (set_pc t P_idle s)"
| peek_ready: "cs_cons s = C_peek \<Longrightarrow> lmk_ring_peek_slot (cs_slots s) (cs_tail s) (cs_mask s) = Some i \<Longrightarrow>
    ring_step s L_peek (s\<lparr>cs_cons := C_handle\<rparr>)"
| peek_none: "cs_cons s = C_peek \<Longrightarrow> lmk_ring_peek_slot (cs_slots s) (cs_tail s) (cs_mask s) = None \<Longrightarrow>
    ring_step s L_peek s"
| handle: "cs_cons s = C_handle \<Longrightarrow>
    ring_step s L_handle (s\<lparr>cs_cons := C_consume,
      cs_delivered := cs_delivered s @ [entry_of_request (slot_req (slot_for s (cs_tail s)))]\<rparr>)"
| consume: "cs_cons s = C_consume \<Longrightarrow>
    lmk_ring_consume (cs_slots s) (cs_tail s) (cs_mask s) = (slots, tail) \<Longrightarrow>
    ring_step s L_consume (s\<lparr>cs_cons := C_peek, cs_slots := slots, cs_tail := tail,
      cs_taken := Suc (cs_taken s)\<rparr>)"

definition ring_cinit :: "'a ring_cstate_scheme \<Rightarrow> bool" where
  "ring_cinit s \<longleftrightarrow> (\<exists>k\<in>{1..<64}. cs_slots s = lmk_ring_init (replicate (2 ^ k) zero_slot) (2 ^ k) \<and>
     cs_mask s = mask k) \<and> cs_head s = 0 \<and> cs_tail s = 0 \<and> cs_prod s = (\<lambda>_. P_idle) \<and>
     cs_cons s = C_peek \<and> cs_claimed s = [] \<and> cs_taken s = 0 \<and> cs_delivered s = []"

section \<open>Invariant\<close>

abbreviation cs_size :: "'a ring_cstate_scheme \<Rightarrow> nat" where
  "cs_size s \<equiv> length (cs_slots s)"

abbreviation cs_claims :: "'a ring_cstate_scheme \<Rightarrow> nat" where
  "cs_claims s \<equiv> length (cs_claimed s)"

definition cs_young :: "'a ring_cstate_scheme \<Rightarrow> bool" where
  "cs_young s \<longleftrightarrow> cs_claims s + cs_size s < 2 ^ 63"

definition cs_at :: "'a ring_cstate_scheme \<Rightarrow> nat \<Rightarrow> lmk_ring_slot" where
  "cs_at s p = cs_slots s ! (p mod cs_size s)"

fun writing :: "producer_pc \<Rightarrow> (lmk_log_record \<times> string \<times> u64) option" where
  "writing (P_meta rec h pos) = Some (rec, h, pos)"
| "writing (P_data rec h pos) = Some (rec, h, pos)"
| "writing (P_publish rec h pos) = Some (rec, h, pos)"
| "writing _ = None"

fun stage_ok :: "producer_pc \<Rightarrow> lmk_log_request \<Rightarrow> bool" where
  "stage_ok (P_data rec h pos) q \<longleftrightarrow> write_meta rec h q = q"
| "stage_ok (P_publish rec h pos) q \<longleftrightarrow> entry_of_request q = entry_of_record rec h"
| "stage_ok _ q \<longleftrightarrow> True"

definition inv_geometry :: "'a ring_cstate_scheme \<Rightarrow> bool" where
  "inv_geometry s \<longleftrightarrow> ring_shape (cs_slots s) (cs_mask s) \<and> cs_head s = of_nat (cs_claims s) \<and>
     cs_tail s = of_nat (cs_taken s) \<and> cs_taken s \<le> cs_claims s \<and> cs_claims s \<le> cs_taken s + cs_size s"

definition inv_seqs :: "'a ring_cstate_scheme \<Rightarrow> bool" where
  "inv_seqs s \<longleftrightarrow> (\<forall>p. cs_taken s \<le> p \<and> p < cs_taken s + cs_size s \<longrightarrow>
     slot_sequence (cs_at s p) = of_nat p \<or>
     p < cs_claims s \<and> slot_sequence (cs_at s p) = of_nat (Suc p) \<and>
       entry_of_request (slot_req (cs_at s p)) = cs_claimed s ! p)"

text \<open>Producer \<open>t\<close> has claimed position \<open>p\<close> and not yet published it.\<close>

definition owns :: "'a ring_cstate_scheme \<Rightarrow> nat \<Rightarrow> lmk_log_record \<Rightarrow> string \<Rightarrow> u64 \<Rightarrow> nat \<Rightarrow> bool" where
  "owns s t rec h pos p \<longleftrightarrow> cs_taken s \<le> p \<and> p < cs_claims s \<and> pos = of_nat p \<and> slot_sequence (cs_at s p) = of_nat p \<and>
     cs_claimed s ! p = entry_of_record rec h \<and> stage_ok (cs_prod s t) (slot_req (cs_at s p))"

definition inv_writers :: "'a ring_cstate_scheme \<Rightarrow> bool" where
  "inv_writers s \<longleftrightarrow> (\<forall>t rec h pos. writing (cs_prod s t) = Some (rec, h, pos) \<longrightarrow> (\<exists>p. owns s t rec h pos p))"

definition inv_exclusive :: "'a ring_cstate_scheme \<Rightarrow> bool" where
  "inv_exclusive s \<longleftrightarrow> (\<forall>t t' rec h rec' h' pos. writing (cs_prod s t) = Some (rec, h, pos) \<longrightarrow>
     writing (cs_prod s t') = Some (rec', h', pos) \<longrightarrow> t = t')"

definition inv_owned :: "'a ring_cstate_scheme \<Rightarrow> bool" where
  "inv_owned s \<longleftrightarrow> (\<forall>p. cs_taken s \<le> p \<and> p < cs_claims s \<and> slot_sequence (cs_at s p) = of_nat p \<longrightarrow>
     (\<exists>t rec h. writing (cs_prod s t) = Some (rec, h, of_nat p)))"

fun cursor_ok :: "nat \<Rightarrow> nat \<Rightarrow> producer_pc \<Rightarrow> bool" where
  "cursor_ok claims limit (P_top rec h pos) \<longleftrightarrow> (\<exists>p\<le>claims. pos = of_nat p)"
| "cursor_ok claims limit (P_cas rec h pos) \<longleftrightarrow>
     (\<exists>p\<le>claims. pos = of_nat p \<and> (p = claims \<longrightarrow> claims < limit))"
| "cursor_ok claims limit _ \<longleftrightarrow> True"

definition inv_cursors :: "'a ring_cstate_scheme \<Rightarrow> bool" where
  "inv_cursors s \<longleftrightarrow> (\<forall>t. cursor_ok (cs_claims s) (cs_taken s + cs_size s) (cs_prod s t))"

definition inv_consumer :: "'a ring_cstate_scheme \<Rightarrow> bool" where
  "inv_consumer s \<longleftrightarrow>
     (cs_cons s \<noteq> C_peek \<longrightarrow> cs_taken s < cs_claims s \<and> slot_sequence (cs_at s (cs_taken s)) = of_nat (Suc (cs_taken s))) \<and>
     cs_delivered s = take (if cs_cons s = C_consume then Suc (cs_taken s) else cs_taken s) (cs_claimed s)"

lemmas ring_cinv_defs = inv_geometry_def inv_seqs_def inv_writers_def owns_def inv_exclusive_def
  inv_owned_def inv_cursors_def inv_consumer_def

definition ring_ccore :: "'a ring_cstate_scheme \<Rightarrow> bool" where
  "ring_ccore s \<longleftrightarrow> inv_geometry s \<and> inv_seqs s \<and> inv_writers s \<and> inv_exclusive s \<and> inv_owned s \<and>
     inv_cursors s \<and> inv_consumer s"

definition ring_cinv :: "'a ring_cstate_scheme \<Rightarrow> bool" where
  "ring_cinv s \<longleftrightarrow> (cs_young s \<longrightarrow> ring_ccore s)"

section \<open>Positions and slots\<close>

text \<open>\<open>cs_at\<close> depends on the slots only.\<close>

lemma cs_at_frame [simp]:
  "cs_at (cs_head_update f0 s) p = cs_at s p"
  "cs_at (cs_tail_update f1 s) p = cs_at s p"
  "cs_at (cs_mask_update f2 s) p = cs_at s p"
  "cs_at (cs_prod_update f3 s) p = cs_at s p"
  "cs_at (cs_cons_update f4 s) p = cs_at s p"
  "cs_at (cs_claimed_update f5 s) p = cs_at s p"
  "cs_at (cs_taken_update f6 s) p = cs_at s p"
  "cs_at (cs_delivered_update f7 s) p = cs_at s p"
  by (simp_all add: cs_at_def)

lemma mod_window_inj:
  fixes p q T N :: nat
  assumes "T \<le> p" "p < T + N" "T \<le> q" "q < T + N" "p mod N = q mod N"
  shows "p = q"
proof -
  have "p = q" if "p \<le> q" "q < p + N" "p mod N = q mod N" for p q :: nat
    using that by (metis add.commute le_add_diff_inverse less_diff_conv2 mod_eq_dvd_iff_nat
        nat_dvd_not_less not_less_iff_gr_or_eq zero_less_diff le_neq_implies_less)
  from this [of p q] this [of q p] assms show ?thesis by linarith
qed

lemma window_rep:
  fixes p T N :: nat
  assumes "0 < N"
  shows "\<exists>q. T \<le> q \<and> q < T + N \<and> q mod N = p mod N"
proof (intro exI conjI)
  let ?q = "T + (p + (N - 1) * T) mod N"
  show "T \<le> ?q" by simp
  show "?q < T + N" using assms by simp
  have "?q mod N = (T + (p + (N - 1) * T)) mod N" by (simp add: mod_add_right_eq)
  also have "T + (p + (N - 1) * T) = p + N * T" using assms by (cases N) auto
  finally show "?q mod N = p mod N" by simp
qed

lemma of_nat_u64_inj: "p < 2 ^ 64 \<Longrightarrow> q < 2 ^ 64 \<Longrightarrow> (of_nat p :: u64) = of_nat q \<longleftrightarrow> p = q"
  by (metis unat_of_nat_u64)

lemma ring_index_of_nat:
  assumes "ring_shape slots msk" "p < 2 ^ 64"
  shows "ring_index msk (of_nat p) = p mod length slots"
  using assms by (auto elim!: ring_shapeE simp: ring_index_def unat_and_mask unat_of_nat_u64)

lemma ring_shape_size: "ring_shape slots msk \<Longrightarrow> 2 \<le> length slots"
proof (erule ring_shapeE)
  fix k :: nat assume "1 \<le> k" "length slots = 2 ^ k"
  then show "2 \<le> length slots" using power_increasing [of 1 k "2::nat"] by simp
qed

lemma slot_for_at:
  assumes "inv_geometry s" "p < 2 ^ 64"
  shows "slot_for s (of_nat p) = cs_at s p"
  using assms by (auto simp: inv_geometry_def cs_at_def ring_index_of_nat)


lemma young_bounds:
  assumes "inv_geometry s" "cs_young s"
  shows "cs_taken s + cs_size s < 2 ^ 63" "cs_claims s < 2 ^ 63" "2 \<le> cs_size s" "cs_slots s \<noteq> []"
  using assms ring_shape_size by (fastforce simp: inv_geometry_def cs_young_def)+

text \<open>Within the window of live positions, a write to one slot leaves the others alone.\<close>

lemma cs_at_set_slot:
  assumes "inv_geometry s" "p < 2 ^ 64"
    and "cs_taken s \<le> p" "p < cs_taken s + cs_size s" "cs_taken s \<le> q" "q < cs_taken s + cs_size s"
  shows "cs_at (set_slot (of_nat p) sl s) q = (if q = p then sl else cs_at s q)"
proof -
  have "ring_index (cs_mask s) (of_nat p) = p mod cs_size s" "0 < cs_size s"
    using assms(1,2) ring_index_of_nat ring_shape_size by (fastforce simp: inv_geometry_def)+
  then show ?thesis
    using assms(3-) mod_window_inj [of "cs_taken s" p "cs_size s" q] by (auto simp: cs_at_def nth_list_update)
qed

text \<open>What a producer learns when it loads the sequence number of its slot.\<close>

lemma load_analysis:
  assumes core: "ring_ccore s" and young: "cs_young s" and p: "p \<le> cs_claims s"
  shows "ring_diff (slot_sequence (slot_for s (of_nat p))) (of_nat p) = 0 \<Longrightarrow> p = cs_claims s \<Longrightarrow>
      cs_claims s < cs_taken s + cs_size s"
    and "ring_diff (slot_sequence (slot_for s (of_nat p))) (of_nat p) < 0 \<Longrightarrow>
      p = cs_claims s \<and> cs_claims s = cs_taken s + cs_size s"
proof -
  let ?T = "cs_taken s" and ?N = "cs_size s" and ?H = "cs_claims s"
  have geo: "inv_geometry s" using core by (simp add: ring_ccore_def)
  note bounds = young_bounds [OF geo young]
  have HT: "?H \<le> ?T + ?N" using geo by (simp add: inv_geometry_def)
  obtain q where q: "?T \<le> q" "q < ?T + ?N" "q mod ?N = p mod ?N"
    using window_rep [of ?N ?T p] bounds(3) by fastforce
  have "slot_for s (of_nat p) = cs_at s q"
    using slot_for_at [OF geo, of p] p bounds q(3) by (simp add: cs_at_def)
  then obtain e where e: "slot_sequence (slot_for s (of_nat p)) = of_nat (q + e)" "e = 0 \<or> e = 1 \<and> q < ?H"
    using core q unfolding ring_ccore_def inv_seqs_def by (metis Suc_eq_plus1 add_0_right)
  have diff: "ring_diff (slot_sequence (slot_for s (of_nat p))) (of_nat p) = int (q + e) - int p"
    using e q p bounds by (auto simp: ring_diff_def e(1) simp del: of_nat_add intro!: sint_of_nat_diff_u64)
  have wrap: "p = q + ?N" if "q < p"
  proof (rule ccontr)
    assume "p \<noteq> q + ?N"
    then have "p < q + ?N" using p HT q by simp
    then have "p = q" by (rule mod_window_inj [rotated]) (use q(3) that bounds(3) in auto)
    with that show False by simp
  qed
  show "?H < ?T + ?N" if "ring_diff (slot_sequence (slot_for s (of_nat p))) (of_nat p) = 0" "p = ?H"
    using that(1) wrap e(2) bounds(3) that(2) q unfolding diff by fastforce
  show "p = ?H \<and> ?H = ?T + ?N" if "ring_diff (slot_sequence (slot_for s (of_nat p))) (of_nat p) < 0"
  proof -
    have "q < p" using that unfolding diff by simp
    from wrap [OF this] p HT q show ?thesis by linarith
  qed
qed

lemma writerE:
  assumes "ring_ccore s" "writing (cs_prod s t) = Some (rec, h, pos)"
  obtains p where "cs_taken s \<le> p" "p < cs_claims s" "pos = of_nat p"
    "slot_sequence (cs_at s p) = of_nat p" "cs_claimed s ! p = entry_of_record rec h"
    "stage_ok (cs_prod s t) (slot_req (cs_at s p))"
  using assms unfolding ring_ccore_def inv_writers_def owns_def by blast

lemma published_entry:
  assumes "ring_ccore s" "cs_taken s \<le> p" "p < cs_taken s + cs_size s"
    and "slot_sequence (cs_at s p) = of_nat (Suc p)"
  shows "p < cs_claims s \<and> entry_of_request (slot_req (cs_at s p)) = cs_claimed s ! p"
proof -
  have "(of_nat (Suc p) :: u64) \<noteq> of_nat p" by simp
  then show ?thesis using assms unfolding ring_ccore_def inv_seqs_def by metis
qed

lemma inv_writersI:
  "(\<And>t rec h pos. writing (cs_prod s t) = Some (rec, h, pos) \<Longrightarrow> \<exists>p. owns s t rec h pos p) \<Longrightarrow> inv_writers s"
  by (simp add: inv_writers_def)

lemma core_owns:
  "ring_ccore s \<Longrightarrow> writing (cs_prod s t) = Some (rec, h, pos) \<Longrightarrow> \<exists>p. owns s t rec h pos p"
  by (simp add: ring_ccore_def inv_writers_def)

lemma of_nat_Suc_neq: "(of_nat (Suc p) :: u64) \<noteq> of_nat p"
  by simp

lemma slot_write_frame:
  assumes "u = set_pc t pc (set_slot pos sl s)"
  shows "cs_cons u = cs_cons s" "cs_claimed u = cs_claimed s" "cs_taken u = cs_taken s" "cs_delivered u = cs_delivered s"
    "cs_prod u = (cs_prod s)(t := pc)" "cs_size u = cs_size s"
  using assms by simp_all

text \<open>The slot of a producer that is writing, and what a write to it changes.\<close>

lemma ownerE:
  assumes core: "ring_ccore s" and young: "cs_young s" and w: "writing (cs_prod s t) = Some (rec, h, pos)"
  obtains p where "owns s t rec h pos p" "slot_for s pos = cs_at s p" "p < cs_taken s + cs_size s"
    "\<And>q sl. cs_taken s \<le> q \<Longrightarrow> q < cs_taken s + cs_size s \<Longrightarrow> cs_at (set_slot pos sl s) q = (if q = p then sl else cs_at s q)"
proof -
  have geo: "inv_geometry s" using core by (simp add: ring_ccore_def)
  note bounds = young_bounds [OF geo young]
  obtain p where p: "owns s t rec h pos p" using core_owns [OF core w] by blast
  then have "p < cs_taken s + cs_size s" "p < 2 ^ 64" using geo bounds by (simp_all add: owns_def inv_geometry_def)
  moreover have "slot_for s pos = cs_at s p" using slot_for_at [OF geo, of p] p calculation by (simp add: owns_def)
  moreover have "cs_at (set_slot pos sl s) q = (if q = p then sl else cs_at s q)"
    if "cs_taken s \<le> q" "q < cs_taken s + cs_size s" for q sl
    using cs_at_set_slot [OF geo, of p q sl] that p calculation(1,2) unfolding owns_def by blast
  ultimately show ?thesis using that [OF p] by blast
qed

lemma owner_unique:
  assumes core: "ring_ccore s" and young: "cs_young s"
    and t: "writing (cs_prod s t) = Some (rec, h, of_nat p)" "p < cs_claims s"
    and t': "writing (cs_prod s t') = Some (rec', h', of_nat q)" "q < cs_claims s"
  shows "q = p \<longleftrightarrow> t' = t"
proof
  show "t' = t" if "q = p" using that t(1) t'(1) core unfolding ring_ccore_def inv_exclusive_def by metis
  have "cs_claims s < 2 ^ 63" using young_bounds(2) [OF _ young] core by (simp add: ring_ccore_def)
  then have "p < 2 ^ 64" "q < 2 ^ 64" using t(2) t'(2) by simp_all
  moreover have "(of_nat q :: u64) = of_nat p" if "t' = t" using that t(1) t'(1) by simp
  ultimately show "q = p" if "t' = t" using that of_nat_u64_inj [of q p] by blast
qed

section \<open>Every step keeps the invariant\<close>

text \<open>A producer that moves between states in which it owns no slot.\<close>

lemma core_set_pc:
  assumes "ring_ccore s" "writing (cs_prod s t) = None" "writing pc = None"
    and "cursor_ok (cs_claims s) (cs_taken s + cs_size s) pc"
  shows "ring_ccore (set_pc t pc s)"
proof -
  have w: "writing (cs_prod (set_pc t pc s) t') = Some x \<Longrightarrow> t' \<noteq> t \<and> writing (cs_prod s t') = Some x" for t' x
    using assms(3) by (auto split: if_splits)
  have o: "writing (cs_prod s t') = Some x \<Longrightarrow> t' \<noteq> t \<and> writing (cs_prod (set_pc t pc s) t') = Some x" for t' x
    using assms(2) by auto
  have "inv_writers (set_pc t pc s)"
  proof (rule inv_writersI)
    fix t' rec h pos assume "writing (cs_prod (set_pc t pc s) t') = Some (rec, h, pos)"
    from w [OF this] obtain p where "t' \<noteq> t" "owns s t' rec h pos p" using core_owns [OF assms(1)] by blast
    then have "owns (set_pc t pc s) t' rec h pos p" by (simp add: owns_def)
    then show "\<exists>p. owns (set_pc t pc s) t' rec h pos p" ..
  qed
  moreover have "inv_exclusive (set_pc t pc s)"
    using assms(1) w unfolding ring_ccore_def inv_exclusive_def by metis
  moreover have "inv_owned (set_pc t pc s)"
  proof -
    have "inv_owned s" using assms(1) by (simp add: ring_ccore_def)
    then show ?thesis using o unfolding inv_owned_def cs_at_def
      by simp blast
  qed
  moreover have "inv_cursors (set_pc t pc s)"
    using assms(1,4) by (simp add: ring_ccore_def inv_cursors_def)
  ultimately show ?thesis
    using assms(1) by (simp add: ring_ccore_def inv_geometry_def inv_seqs_def inv_consumer_def cs_at_def)
qed


text \<open>A successful compare-exchange claims the next position, whose slot is free.\<close>

lemma cas_position:
  assumes core: "ring_ccore s" and young: "cs_young s" and pc: "cs_prod s t = P_cas rec h pos" and head: "cs_head s = pos"
  shows "pos = of_nat (cs_claims s)" "cs_claims s < cs_taken s + cs_size s" "slot_sequence (cs_at s (cs_claims s)) = of_nat (cs_claims s)"
    "writing (cs_prod s t') \<noteq> Some (rec', h', pos)"
proof -
  let ?H = "cs_claims s" and ?W = "cs_taken s + cs_size s"
  have geo: "inv_geometry s" using core by (simp add: ring_ccore_def)
  note bounds = young_bounds [OF geo young]
  show pos: "pos = of_nat ?H" using geo head by (simp add: inv_geometry_def)
  have "cursor_ok ?H ?W (cs_prod s t)" using core by (simp add: ring_ccore_def inv_cursors_def)
  then obtain p where p: "p \<le> ?H" "pos = of_nat p" "p = ?H \<longrightarrow> ?H < ?W" by (auto simp: pc)
  then have "p = ?H" using pos bounds of_nat_u64_inj [of p ?H] by simp
  with p show room: "?H < ?W" by simp
  show "slot_sequence (cs_at s ?H) = of_nat ?H" using core room geo by (auto simp: ring_ccore_def inv_seqs_def inv_geometry_def)
  show "writing (cs_prod s t') \<noteq> Some (rec', h', pos)"
  proof
    assume "writing (cs_prod s t') = Some (rec', h', pos)"
    from core_owns [OF core this] obtain q where "q < ?H" "pos = of_nat q" by (auto simp: owns_def)
    then show False using pos bounds of_nat_u64_inj [of q ?H] by simp
  qed
qed

lemma core_cas_ok:
  assumes core: "ring_ccore s" and young: "cs_young s"
    and pc: "cs_prod s t = P_cas rec h pos" and head: "cs_head s = pos"
  shows "ring_ccore (set_pc t (P_meta rec h pos)
      (s\<lparr>cs_head := pos + 1, cs_claimed := cs_claimed s @ [entry_of_record rec h]\<rparr>))" (is "ring_ccore ?s'")
proof -
  let ?T = "cs_taken s" and ?N = "cs_size s" and ?H = "cs_claims s"
  have geo: "inv_geometry s" using core by (simp add: ring_ccore_def)
  note pos = cas_position [OF assms]
  have "inv_geometry ?s'" using geo pos(1,2) by (simp add: inv_geometry_def)
  moreover have "inv_seqs ?s'" using core by (auto simp: ring_ccore_def inv_seqs_def nth_append)
  moreover have "inv_writers ?s'"
  proof (rule inv_writersI)
    fix t' rec' h' pos' assume w: "writing (cs_prod ?s' t') = Some (rec', h', pos')"
    have "owns ?s' t' rec' h' pos' (cs_claims s)" if "t' = t" using that w pos(1,3) geo by (auto simp: owns_def inv_geometry_def)
    moreover have "owns ?s' t' rec' h' pos' p" if "t' \<noteq> t" "owns s t' rec' h' pos' p" for p
      using that by (simp add: owns_def nth_append)
    ultimately show "\<exists>p. owns ?s' t' rec' h' pos' p" using core_owns [OF core, of t' rec' h' pos'] w by (cases "t' = t") auto
  qed
  moreover have "inv_exclusive ?s'" using core pos(4) by (auto simp: ring_ccore_def inv_exclusive_def)
  moreover have "inv_owned ?s'"
  proof -
    have "\<exists>t' rec' h'. writing (cs_prod s t') = Some (rec', h', of_nat q) \<and> t' \<noteq> t"
      if "?T \<le> q" "q < ?H" "slot_sequence (cs_at s q) = of_nat q" for q
      using that core pc by (fastforce simp: ring_ccore_def inv_owned_def)
    then show ?thesis using pos(1) by (auto simp: inv_owned_def less_Suc_eq split: if_splits) metis
  qed
  moreover have "inv_cursors ?s'"
  proof -
    have "cursor_ok (Suc ?H) (?T + ?N) pc" if "cursor_ok ?H (?T + ?N) pc" for pc
      using that by (cases pc) (simp_all, (metis le_SucI Suc_n_not_le_n)+)
    then show ?thesis using core by (simp add: ring_ccore_def inv_cursors_def)
  qed
  moreover have "inv_consumer ?s'" using core geo by (auto simp: ring_ccore_def inv_consumer_def inv_geometry_def)
  ultimately show ?thesis by (simp add: ring_ccore_def)
qed

text \<open>A producer that writes the slot it owns: the sequence number stays, only it sees the bytes.\<close>

lemma core_write_req:
  assumes core: "ring_ccore s" and young: "cs_young s"
    and pc: "writing (cs_prod s t) = Some (rec, h, pos)" and pc': "writing pc' = Some (rec, h, pos)"
    and stage: "\<And>q. stage_ok (cs_prod s t) q \<Longrightarrow> stage_ok pc' (f q)"
  shows "ring_ccore (set_pc t pc' (set_slot pos
      ((slot_for s pos)\<lparr>slot_req := f (slot_req (slot_for s pos))\<rparr>) s))"
proof -
  let ?T = "cs_taken s" and ?N = "cs_size s" and ?H = "cs_claims s"
  obtain p where p: "owns s t rec h pos p" "slot_for s pos = cs_at s p" "p < ?T + ?N"
    "\<And>q sl. ?T \<le> q \<Longrightarrow> q < ?T + ?N \<Longrightarrow> cs_at (set_slot pos sl s) q = (if q = p then sl else cs_at s q)"
    using ownerE [OF core young pc] by blast
  define u where "u = set_pc t pc' (set_slot pos ((slot_for s pos)\<lparr>slot_req := f (slot_req (slot_for s pos))\<rparr>) s)"
  note fr = slot_write_frame [OF u_def]
  have geo: "inv_geometry s" using core by (simp add: ring_ccore_def)
  have at: "cs_at u q = (if q = p then (cs_at s p)\<lparr>slot_req := f (slot_req (cs_at s p))\<rparr> else cs_at s q)"
    if "?T \<le> q" "q < ?T + ?N" for q using p(2,4) that by (simp add: u_def)
  have HT: "?H \<le> ?T + ?N" using geo by (simp add: inv_geometry_def)
  have w: "writing (cs_prod u t') = writing (cs_prod s t')" for t' using pc pc' by (simp add: u_def)
  have "inv_geometry u" using geo by (simp add: inv_geometry_def ring_shape_def u_def)
  moreover have "inv_seqs u" using core p(1) at by (auto simp: ring_ccore_def inv_seqs_def owns_def fr)
  moreover have "inv_writers u"
  proof (rule inv_writersI, unfold w)
    fix t' rec' h' pos' assume w': "writing (cs_prod s t') = Some (rec', h', pos')"
    obtain q where q: "owns s t' rec' h' pos' q" using core_owns [OF core w'] by blast
    then have "q = p \<longleftrightarrow> t' = t" using owner_unique [OF core young, of t rec h p t' rec' h' q] pc w' p(1) by (simp add: owns_def)
    then have "owns u t' rec' h' pos' q"
      using p(1,3) q stage at [of q] HT by (auto simp: owns_def fr)
    then show "\<exists>p. owns u t' rec' h' pos' p" ..
  qed
  moreover have "inv_exclusive u" using core unfolding ring_ccore_def inv_exclusive_def w by blast
  moreover have "inv_owned u"
  proof -
    have "slot_sequence (cs_at u q) = slot_sequence (cs_at s q)" if "?T \<le> q" "q < ?H" for q using at [of q] that HT by auto
    then show ?thesis using core unfolding ring_ccore_def inv_owned_def w by (auto simp: fr)
  qed
  moreover have "inv_cursors u"
  proof -
    have "cursor_ok a b pc'" for a b using pc' by (cases pc') auto
    then show ?thesis using core by (simp add: ring_ccore_def inv_cursors_def u_def)
  qed
  moreover have "inv_consumer u"
    using core at [of ?T] young_bounds(4) [OF geo young] by (auto simp: ring_ccore_def inv_consumer_def fr split: if_splits)
  ultimately show ?thesis by (simp add: ring_ccore_def u_def)
qed

lemma core_publish:
  assumes core: "ring_ccore s" and young: "cs_young s" and pc: "cs_prod s t = P_publish rec h pos"
  shows "ring_ccore (set_pc t (P_done 1) (set_slot pos ((slot_for s pos)\<lparr>slot_sequence := pos + 1\<rparr>) s))"
proof -
  let ?T = "cs_taken s" and ?N = "cs_size s" and ?H = "cs_claims s"
  have wt: "writing (cs_prod s t) = Some (rec, h, pos)" using pc by simp
  obtain p where p: "owns s t rec h pos p" "slot_for s pos = cs_at s p" "p < ?T + ?N"
    "\<And>q sl. ?T \<le> q \<Longrightarrow> q < ?T + ?N \<Longrightarrow> cs_at (set_slot pos sl s) q = (if q = p then sl else cs_at s q)"
    using ownerE [OF core young wt] by blast
  then have pos: "pos = of_nat p" "p < ?H" by (simp_all add: owns_def)
  define u where "u = set_pc t (P_done 1) (set_slot pos ((slot_for s pos)\<lparr>slot_sequence := pos + 1\<rparr>) s)"
  note fr = slot_write_frame [OF u_def]
  have geo: "inv_geometry s" using core by (simp add: ring_ccore_def)
  have at: "cs_at u q = (if q = p then (cs_at s p)\<lparr>slot_sequence := of_nat (Suc p)\<rparr> else cs_at s q)"
    if "?T \<le> q" "q < ?T + ?N" for q using p(2,4) pos(1) that by (simp add: u_def add.commute)
  have HT: "?H \<le> ?T + ?N" using geo by (simp add: inv_geometry_def)
  have w: "writing (cs_prod u t') = (if t' = t then None else writing (cs_prod s t'))" for t' by (simp add: u_def)
  have other: "q = p \<longleftrightarrow> t' = t" if "writing (cs_prod s t') = Some (rec', h', of_nat q)" "q < ?H" for q t' rec' h'
    using owner_unique [OF core young _ pos(2) that, of t rec h] wt pos(1) by simp
  have "inv_geometry u" using geo by (simp add: inv_geometry_def ring_shape_def u_def)
  moreover have "inv_seqs u" using core p(1) at pc by (auto simp: ring_ccore_def inv_seqs_def owns_def fr)
  moreover have "inv_writers u"
  proof (rule inv_writersI)
    fix t' rec' h' pos' assume "writing (cs_prod u t') = Some (rec', h', pos')"
    then have w': "t' \<noteq> t" "writing (cs_prod s t') = Some (rec', h', pos')" unfolding w by (auto split: if_splits)
    obtain q where q: "owns s t' rec' h' pos' q" using core_owns [OF core w'(2)] by blast
    then have "q \<noteq> p" using other [of t' rec' h' q] w' by (simp add: owns_def)
    then have "owns u t' rec' h' pos' q" using q w'(1) HT at [of q] by (simp add: owns_def fr)
    then show "\<exists>p. owns u t' rec' h' pos' p" ..
  qed
  moreover have "inv_exclusive u" using core unfolding ring_ccore_def inv_exclusive_def w by (metis option.distinct(1))
  moreover have "inv_owned u"
    unfolding inv_owned_def
  proof (intro allI impI)
    fix q assume q: "cs_taken u \<le> q \<and> q < cs_claims u \<and> slot_sequence (cs_at u q) = of_nat q"
    then have qT: "?T \<le> q" "q < ?H" by (simp_all add: u_def)
    have "q \<noteq> p" using q at [OF qT(1)] qT(2) HT of_nat_Suc_neq [of p] by auto
    then have "slot_sequence (cs_at s q) = of_nat q" using q qT at [of q] HT by simp
    then obtain t' rec' h' where t': "writing (cs_prod s t') = Some (rec', h', of_nat q)"
      using core qT unfolding ring_ccore_def inv_owned_def by blast
    with other [OF t' qT(2)] \<open>q \<noteq> p\<close> show "\<exists>t' rec h. writing (cs_prod u t') = Some (rec, h, of_nat q)" unfolding w by auto
  qed
  moreover have "inv_cursors u" using core by (simp add: ring_ccore_def inv_cursors_def u_def)
  moreover have "inv_consumer u"
    using core at [of ?T] p(1) young_bounds(4) [OF geo young] by (auto simp: ring_ccore_def inv_consumer_def owns_def fr split: if_splits)
  ultimately show ?thesis by (simp add: ring_ccore_def u_def)
qed

lemma core_handle:
  assumes core: "ring_ccore s" and young: "cs_young s" and cons: "cs_cons s = C_handle"
  shows "ring_ccore (s\<lparr>cs_cons := C_consume,
      cs_delivered := cs_delivered s @ [entry_of_request (slot_req (slot_for s (cs_tail s)))]\<rparr>)"
proof -
  let ?T = "cs_taken s"
  have geo: "inv_geometry s" using core by (simp add: ring_ccore_def)
  note bounds = young_bounds [OF geo young]
  have slot: "slot_for s (cs_tail s) = cs_at s ?T"
    using slot_for_at [OF geo, of ?T] geo bounds by (simp add: inv_geometry_def)
  have T: "?T < cs_claims s" "slot_sequence (cs_at s ?T) = of_nat (Suc ?T)" "cs_delivered s = take ?T (cs_claimed s)"
    using core cons by (auto simp: ring_ccore_def inv_consumer_def)
  then have "entry_of_request (slot_req (cs_at s ?T)) = cs_claimed s ! ?T"
    using published_entry [OF core, of ?T] bounds by simp
  then show ?thesis
    using core T unfolding slot by (simp add: ring_ccore_def ring_cinv_defs take_Suc_conv_app_nth)
qed

text \<open>Consuming gives the slot of the tail to the position one round later.\<close>

lemma consume_slots:
  assumes core: "ring_ccore s" and young: "cs_young s"
    and c: "lmk_ring_consume (cs_slots s) (cs_tail s) (cs_mask s) = (slots, tail)"
    and v: "v = s\<lparr>cs_cons := C_peek, cs_slots := slots, cs_tail := tail, cs_taken := Suc (cs_taken s)\<rparr>"
  shows "tail = of_nat (Suc (cs_taken s))" "length slots = cs_size s" "cs_size v = cs_size s"
    "cs_taken s < q \<Longrightarrow> q \<le> cs_taken s + cs_size s \<Longrightarrow> cs_at v q =
      (if q = cs_taken s + cs_size s then (cs_at s (cs_taken s))\<lparr>slot_sequence := of_nat (cs_taken s + cs_size s)\<rparr> else cs_at s q)"
proof -
  let ?T = "cs_taken s" and ?N = "cs_size s"
  have geo: "inv_geometry s" using core by (simp add: ring_ccore_def)
  note bounds = young_bounds [OF geo young]
  have t: "cs_tail s = of_nat ?T" and shape: "ring_shape (cs_slots s) (cs_mask s)" using geo by (simp_all add: inv_geometry_def)
  have msk: "cs_mask s + 1 = of_nat ?N" using shape by (auto elim!: ring_shapeE simp: mask_eq_exp_minus_1)
  have idx: "ring_index (cs_mask s) (of_nat ?T) = ?T mod ?N" using ring_index_of_nat [OF shape, of ?T] bounds by simp
  have slots: "slots = (cs_slots s)[?T mod ?N := (cs_at s ?T)\<lparr>slot_sequence := of_nat (?T + ?N)\<rparr>]"
    and "tail = of_nat (Suc ?T)"
    using c msk by (auto simp: lmk_ring_consume_def Let_def idx cs_at_def t add.assoc)
  then show "tail = of_nat (Suc ?T)" "length slots = ?N" "cs_size v = ?N" by (simp_all add: v)
  show "cs_at v q = (if q = ?T + ?N then (cs_at s ?T)\<lparr>slot_sequence := of_nat (?T + ?N)\<rparr> else cs_at s q)"
    if "?T < q" "q \<le> ?T + ?N"
  proof (cases "q = ?T + ?N")
    case True
    then show ?thesis using bounds by (simp add: cs_at_def v slots)
  next
    case False
    then have "q mod ?N \<noteq> ?T mod ?N" using mod_window_inj [of ?T q ?N ?T] that bounds by auto
    with False show ?thesis by (simp add: cs_at_def v slots)
  qed
qed

lemma core_consume:
  assumes core: "ring_ccore s" and young: "cs_young s" and cons: "cs_cons s = C_consume"
    and c: "lmk_ring_consume (cs_slots s) (cs_tail s) (cs_mask s) = (slots, tail)"
  shows "ring_ccore (s\<lparr>cs_cons := C_peek, cs_slots := slots, cs_tail := tail, cs_taken := Suc (cs_taken s)\<rparr>)"
proof -
  let ?T = "cs_taken s" and ?N = "cs_size s" and ?H = "cs_claims s"
  define v where "v = s\<lparr>cs_cons := C_peek, cs_slots := slots, cs_tail := tail, cs_taken := Suc (cs_taken s)\<rparr>"
  note cs = consume_slots [OF core young c v_def] and at = consume_slots(4) [OF core young c v_def]
  have geo: "inv_geometry s" using core by (simp add: ring_ccore_def)
  have HT: "?H \<le> ?T + ?N" using geo by (simp add: inv_geometry_def)
  have T: "?T < ?H" "slot_sequence (cs_at s ?T) = of_nat (Suc ?T)" "cs_delivered s = take (Suc ?T) (cs_claimed s)"
    using core cons by (auto simp: ring_ccore_def inv_consumer_def)
  have v: "cs_head v = cs_head s" "cs_tail v = of_nat (Suc ?T)" "cs_prod v = cs_prod s" "cs_cons v = C_peek"
    "cs_claimed v = cs_claimed s" "cs_taken v = Suc ?T" "cs_delivered v = cs_delivered s" "cs_size v = ?N"
    using cs(1,3) by (simp_all add: v_def)
  have "inv_geometry v" using geo T by (simp add: inv_geometry_def v) (simp add: v_def cs(2) ring_shape_def)
  moreover have "inv_seqs v"
    unfolding inv_seqs_def v
  proof (intro allI impI)
    fix q assume q: "Suc ?T \<le> q \<and> q < Suc ?T + ?N"
    show "slot_sequence (cs_at v q) = of_nat q \<or> q < ?H \<and> slot_sequence (cs_at v q) = of_nat (Suc q) \<and>
        entry_of_request (slot_req (cs_at v q)) = cs_claimed s ! q"
      using q at [of q] core young_bounds(4) [OF geo young] by (cases "q = ?T + ?N") (simp_all add: ring_ccore_def inv_seqs_def)
  qed
  moreover have "inv_writers v"
  proof (rule inv_writersI)
    fix t' rec' h' pos' assume "writing (cs_prod v t') = Some (rec', h', pos')"
    then obtain q where q: "owns s t' rec' h' pos' q" using core_owns [OF core] v by metis
    then have "q \<noteq> ?T" using T(2) of_nat_Suc_neq [of ?T] by (auto simp: owns_def)
    then have "owns v t' rec' h' pos' q" using q HT at [of q] by (auto simp: owns_def v)
    then show "\<exists>p. owns v t' rec' h' pos' p" ..
  qed
  moreover have "inv_exclusive v" using core by (simp add: ring_ccore_def inv_exclusive_def v)
  moreover have "inv_owned v" using core HT at by (auto simp: ring_ccore_def inv_owned_def v Suc_le_eq)
  moreover have "inv_cursors v"
  proof -
    have "cursor_ok ?H (Suc ?T + ?N) pc" if "cursor_ok ?H (?T + ?N) pc" for pc using that by (cases pc) auto
    then show ?thesis using core by (simp add: ring_ccore_def inv_cursors_def v)
  qed
  moreover have "inv_consumer v" using T by (simp add: inv_consumer_def v)
  ultimately show ?thesis by (simp add: ring_ccore_def v_def)
qed

lemma core_peek:
  assumes core: "ring_ccore s" and young: "cs_young s" and cons: "cs_cons s = C_peek"
    and c: "lmk_ring_peek_slot (cs_slots s) (cs_tail s) (cs_mask s) = Some i"
  shows "ring_ccore (s\<lparr>cs_cons := C_handle\<rparr>)"
proof -
  let ?T = "cs_taken s"
  have geo: "inv_geometry s" using core by (simp add: ring_ccore_def)
  note bounds = young_bounds [OF geo young]
  have "slot_for s (cs_tail s) = cs_at s ?T" "cs_tail s = of_nat ?T"
    using slot_for_at [OF geo, of ?T] geo bounds by (simp_all add: inv_geometry_def)
  then have seq: "slot_sequence (cs_at s ?T) = of_nat (Suc ?T)"
    using c by (auto simp: lmk_ring_peek_slot_def ring_diff_def sint_zero_iff Let_def add.commute split: if_splits)
  then have "?T < cs_claims s" using published_entry [OF core, of ?T] bounds by simp
  with seq core cons show ?thesis by (simp add: ring_ccore_def ring_cinv_defs)
qed

lemma write_meta_idem: "write_meta rec h (write_meta rec h q) = write_meta rec h q"
  by (simp add: write_meta_def)

lemma entry_written_meta:
  "write_meta rec h q = q \<Longrightarrow> entry_of_request (write_data rec q) = entry_of_record rec h"
  using entry_written [of rec h q] by simp

lemma ring_cinv_step:
  assumes "ring_cinv s" "ring_step s l s'"
  shows "ring_cinv s'"
proof -
  have "ring_ccore s'" if young': "cs_young s'"
  proof -
    have young: "cs_young s"
      using assms(2) young' by (cases rule: ring_step.cases)
        (auto simp: cs_young_def lmk_ring_consume_def Let_def)
    with assms(1) have core: "ring_ccore s" by (simp add: ring_cinv_def)
    then have geo: "inv_geometry s" by (simp add: ring_ccore_def)
    have hd: "\<exists>p\<le>cs_claims s. cs_head s = of_nat p" using geo by (auto simp: inv_geometry_def)
    have cur: "cursor_ok (cs_claims s) (cs_taken s + cs_size s) (cs_prod s t)" for t
      using core by (simp add: ring_ccore_def inv_cursors_def)
    from assms(2) show ?thesis
    proof cases
      case (load_free t rec h pos)
      then obtain p where "p \<le> cs_claims s" "pos = of_nat p" using cur [of t] by auto
      with load_free have "cursor_ok (cs_claims s) (cs_taken s + cs_size s) (P_cas rec h pos)"
        using load_analysis(1) [OF core young, of p] by auto
      with load_free show ?thesis by (auto intro!: core_set_pc [OF core] simp del: cursor_ok.simps)
    next
      case (cas_ok t rec h pos)
      then show ?thesis using core_cas_ok [OF core young] by simp
    next
      case (meta t rec h pos)
      then show ?thesis
        using core_write_req [OF core young, of t rec h pos "P_data rec h pos" "write_meta rec h"]
        by (simp add: write_meta_idem)
    next
      case (data t rec h pos)
      then show ?thesis
        using core_write_req [OF core young, of t rec h pos "P_publish rec h pos" "write_data rec"]
          entry_written_meta [of rec h] by simp
    next
      case (publish t rec h pos)
      then show ?thesis using core_publish [OF core young] by simp
    next
      case handle
      then show ?thesis using core_handle [OF core young] by simp
    next
      case consume
      then show ?thesis using core_consume [OF core young] by simp
    next
      case peek_ready
      then show ?thesis using core_peek [OF core young] by simp
    qed (use core hd in \<open>auto intro!: core_set_pc [OF core]\<close>)
  qed
  then show ?thesis by (simp add: ring_cinv_def)
qed

lemma ring_cinv_init: "ring_cinit s \<Longrightarrow> ring_cinv s"
proof -
  assume init: "ring_cinit s"
  then obtain k where k: "1 \<le> k" "k < 64"
      "cs_slots s = lmk_ring_init (replicate (2 ^ k) zero_slot) (2 ^ k)" "cs_mask s = mask k"
    by (auto simp: ring_cinit_def)
  then have len: "cs_size s = 2 ^ k" and seq: "\<And>j. j < 2 ^ k \<Longrightarrow> slot_sequence (cs_slots s ! j) = of_nat j"
    using ring_init_loop_spec [of 0 "2 ^ k" "replicate (2 ^ k) zero_slot"] by (auto simp: lmk_ring_init_def)
  have "ring_shape (cs_slots s) (cs_mask s)" using k len by (auto simp: ring_shape_def)
  then have "ring_ccore s"
    using init seq len by (auto simp: ring_cinit_def ring_ccore_def ring_cinv_defs cs_at_def)
  then show "ring_cinv s" by (simp add: ring_cinv_def)
qed

interpretation cring: transition_system ring_cinit ring_step ring_cinv
  by unfold_locales (auto intro: ring_cinv_init ring_cinv_step)


lemma core_next_visible:
  assumes core: "ring_ccore s" and "cs_young s" "cs_taken s < cs_claims s"
    and "\<forall>t rec h. writing (cs_prod s t) \<noteq> Some (rec, h, cs_tail s)"
  shows "lmk_ring_peek_slot (cs_slots s) (cs_tail s) (cs_mask s) = Some (ring_index (cs_mask s) (cs_tail s)) \<and>
    entry_of_request (slot_req (slot_for s (cs_tail s))) = cs_claimed s ! cs_taken s"
proof -
  let ?T = "cs_taken s"
  from core have geo: "inv_geometry s" by (simp add: ring_ccore_def)
  note bounds = young_bounds [OF geo assms(2)]
  have tail: "cs_tail s = of_nat ?T" and slot: "slot_for s (cs_tail s) = cs_at s ?T"
    using slot_for_at [OF geo, of ?T] geo bounds by (simp_all add: inv_geometry_def)
  have "slot_sequence (cs_at s ?T) \<noteq> of_nat ?T"
    using core assms(3,4) tail unfolding ring_ccore_def inv_owned_def by auto
  then have seq: "slot_sequence (cs_at s ?T) = of_nat (Suc ?T)"
    using core bounds unfolding ring_ccore_def inv_seqs_def by (metis le_refl less_add_same_cancel1 length_greater_0_conv)
  then show ?thesis
    using published_entry [OF core, of ?T] bounds slot tail
    by (simp add: lmk_ring_peek_slot_def ring_diff_def Let_def sint_zero_iff add.commute)
qed

lemma reachable_core:
  "reachable ring_cinit ring_step s \<Longrightarrow> cs_young s \<Longrightarrow> ring_ccore s"
  using cring.reachable_inv by (auto simp: ring_cinv_def)

text \<open>A two-slot ring, three producers: two claim the slots, the third finds the ring full.\<close>

definition cring0 :: ring_cstate where
  "cring0 = \<lparr>cs_slots = lmk_ring_init (replicate (2 ^ 1) zero_slot) (2 ^ 1), cs_head = 0, cs_tail = 0,
     cs_mask = mask 1, cs_prod = (\<lambda>_. P_idle), cs_cons = C_peek, cs_claimed = [], cs_taken = 0,
     cs_delivered = []\<rparr>"

definition claim_at :: "nat \<Rightarrow> u64 \<Rightarrow> ring_cstate \<Rightarrow> ring_cstate" where
  "claim_at t pos s = set_pc t (P_meta (sample_record ''m'') ''h'' pos)
     (s\<lparr>cs_head := pos + 1, cs_claimed := cs_claimed s @ [entry_of_record (sample_record ''m'') ''h'']\<rparr>)"

lemma cring0_slots: "cs_slots cring0 = [zero_slot\<lparr>slot_sequence := 0\<rparr>, zero_slot\<lparr>slot_sequence := 1\<rparr>]"
  by (simp add: cring0_def lmk_ring_init_def numeral_2_eq_2)

lemma cring0_init: "ring_cinit cring0"
  by (auto simp: ring_cinit_def cring0_def intro!: bexI [of _ 1])

lemma creach: "reachable ring_cinit ring_step s \<Longrightarrow> ring_step s l t \<Longrightarrow> reachable ring_cinit ring_step t"
  by (rule reach_step)

lemma reachable_claim:
  assumes "reachable ring_cinit ring_step s" "cs_prod s t = P_idle" "cs_head s = pos"
    and "ring_diff (slot_sequence (slot_for s pos)) pos = 0"
  shows "reachable ring_cinit ring_step (claim_at t pos s)"
proof -
  let ?r = "sample_record ''m''"
  have 1: "reachable ring_cinit ring_step (set_pc t (P_top ?r ''h'' pos) s)"
    using creach [OF assms(1) ring_step.call [OF assms(2)]] assms(3) by simp
  have 2: "reachable ring_cinit ring_step (set_pc t (P_cas ?r ''h'' pos) s)"
    using creach [OF 1 ring_step.load_free [of _ t ?r "''h''" pos]] assms(4) by simp
  show ?thesis
    using creach [OF 2 ring_step.cas_ok [of _ t ?r "''h''" pos]] assms(3) by (simp add: claim_at_def)
qed

definition publish_at :: "nat \<Rightarrow> lmk_log_record \<Rightarrow> string \<Rightarrow> u64 \<Rightarrow> ring_cstate \<Rightarrow> ring_cstate" where
  "publish_at t rec h pos s = set_pc t (P_done 1) (set_slot pos ((slot_for s pos)\<lparr>slot_req :=
     write_data rec (write_meta rec h (slot_req (slot_for s pos))), slot_sequence := pos + 1\<rparr>) s)"

lemma reachable_publish:
  assumes "reachable ring_cinit ring_step s" "cs_prod s t = P_meta rec h pos"
    and "ring_index (cs_mask s) pos < cs_size s"
  shows "reachable ring_cinit ring_step (publish_at t rec h pos s)"
proof -
  have 1: "reachable ring_cinit ring_step (set_pc t (P_data rec h pos) (set_slot pos
      ((slot_for s pos)\<lparr>slot_req := write_meta rec h (slot_req (slot_for s pos))\<rparr>) s))"
    using creach [OF assms(1) ring_step.meta [OF assms(2)]] .
  have 2: "reachable ring_cinit ring_step (set_pc t (P_publish rec h pos) (set_slot pos
      ((slot_for s pos)\<lparr>slot_req := write_data rec (write_meta rec h (slot_req (slot_for s pos)))\<rparr>) s))"
    using creach [OF 1 ring_step.data [of _ t rec h pos]] assms(3) by simp
  show ?thesis
    using creach [OF 2 ring_step.publish [of _ t rec h pos]] assms(3) by (simp add: publish_at_def)
qed

definition cring1 :: ring_cstate where "cring1 = claim_at 0 0 cring0"
definition cring2 :: ring_cstate where "cring2 = claim_at 1 1 cring1"
definition cring3 :: ring_cstate where "cring3 = set_pc 2 (P_top (sample_record ''m'') ''h'' 2) cring2"

lemmas cring_defs = cring1_def cring2_def cring3_def claim_at_def

lemma cring_fields [simp]:
  "cs_head cring0 = 0" "cs_tail cring0 = 0" "cs_mask cring0 = 1" "cs_prod cring0 = (\<lambda>_. P_idle)"
  "cs_cons cring0 = C_peek" "cs_claimed cring0 = []" "cs_taken cring0 = 0" "cs_delivered cring0 = []"
  "length (cs_slots cring0) = 2"
  by (simp_all add: cring0_def mask_eq_exp_minus_1 lmk_ring_init_def numeral_2_eq_2)

lemma cring_reachable:
  "reachable ring_cinit ring_step cring1" "reachable ring_cinit ring_step cring2"
  "reachable ring_cinit ring_step cring3"
proof -
  have 0: "reachable ring_cinit ring_step cring0" by (rule reach_init) (rule cring0_init)
  show 1: "reachable ring_cinit ring_step cring1"
    unfolding cring1_def by (rule reachable_claim [OF 0]) (simp_all add: ring_diff_def ring_index_def cring0_slots)
  show 2: "reachable ring_cinit ring_step cring2"
    unfolding cring2_def
    by (rule reachable_claim [OF 1]) (simp_all add: cring_defs ring_diff_def ring_index_def cring0_slots)
  show "reachable ring_cinit ring_step cring3"
    using creach [OF 2 ring_step.call [of cring2 2 "sample_record ''m''" "''h''"]]
    by (simp add: cring_defs)
qed

lemma cring_young: "cs_young cring1" "cs_young cring2" "cs_young cring3"
  by (simp_all add: cs_young_def cring_defs)

definition cring4 :: ring_cstate where
  "cring4 = publish_at 0 (sample_record ''m'') ''h'' 0 cring1"

lemma cring4_reachable: "reachable ring_cinit ring_step cring4"
  unfolding cring4_def
  by (rule reachable_publish [OF cring_reachable(1)]) (simp_all add: cring_defs ring_index_def)

section \<open>Properties\<close>

text \<open>
  C5. Many producers, one consumer, any interleaving (with spuriously failing
  compare-exchanges): as long as the cursors stay below \<open>2^63\<close>, what the consumer has handled
  is exactly the first messages in the order in which producers claimed their slots, and at
  most \<open>ring_size\<close> claimed messages are outstanding. No message is lost, duplicated,
  reordered or read half-written.
\<close>

theorem ring_delivers_in_claim_order:
  assumes "reachable ring_cinit ring_step s" "cs_young s"
  shows "\<exists>n. (n = cs_taken s \<or> n = Suc (cs_taken s) \<and> cs_cons s = C_consume) \<and> n \<le> cs_claims s \<and>
    cs_delivered s = take n (cs_claimed s) \<and> cs_claims s \<le> cs_taken s + cs_size s"
  using reachable_core [OF assms] by (auto simp: ring_ccore_def inv_consumer_def inv_geometry_def Suc_le_eq)

theorem ring_delivers_in_claim_order_witness:
  "reachable ring_cinit ring_step cring2 \<and> cs_young cring2 \<and> cs_claims cring2 = 2 \<and>
   (\<exists>n. cs_delivered cring2 = take n (cs_claimed cring2) \<and> cs_claims cring2 \<le> cs_taken cring2 + cs_size cring2)"
  using ring_delivers_in_claim_order [OF cring_reachable(2) cring_young(2)] cring_reachable(2) cring_young(2)
  by (auto simp: cring_defs)

text \<open>
  C6. Slot ownership: while a producer writes into its claimed slot, no other producer is
  writing into the same array element, and the consumer is not reading it.
\<close>

theorem ring_slot_exclusive:
  assumes "reachable ring_cinit ring_step s" "cs_young s"
    and w: "writing (cs_prod s t) = Some (rec, h, pos)"
  shows "(\<forall>t' rec' h' pos'. writing (cs_prod s t') = Some (rec', h', pos') \<and>
        ring_index (cs_mask s) pos' = ring_index (cs_mask s) pos \<longrightarrow> t' = t) \<and>
    (cs_cons s \<noteq> C_peek \<longrightarrow> ring_index (cs_mask s) pos \<noteq> ring_index (cs_mask s) (cs_tail s))"
proof -
  let ?T = "cs_taken s" and ?N = "cs_size s" and ?H = "cs_claims s"
  have core: "ring_ccore s" by (rule reachable_core [OF assms(1,2)])
  then have geo: "inv_geometry s" by (simp add: ring_ccore_def)
  note bounds = young_bounds [OF geo assms(2)]
  have idx: "ring_index (cs_mask s) (of_nat q) = q mod ?N" if "q < ?T + ?N" for q
    using ring_index_of_nat [of "cs_slots s" "cs_mask s" q] geo that bounds by (simp add: inv_geometry_def)
  have HT: "?H \<le> ?T + ?N" "cs_tail s = of_nat ?T" using geo by (simp_all add: inv_geometry_def)
  from writerE [OF core w] obtain p where p: "?T \<le> p" "p < ?H" "pos = of_nat p"
    "slot_sequence (cs_at s p) = of_nat p" by metis
  show ?thesis
  proof (intro conjI allI impI)
    fix t' rec' h' pos'
    assume a: "writing (cs_prod s t') = Some (rec', h', pos') \<and>
      ring_index (cs_mask s) pos' = ring_index (cs_mask s) pos"
    from writerE [OF core a [THEN conjunct1]] obtain q where q: "?T \<le> q" "q < ?H" "pos' = of_nat q" by metis
    then have "q = p" using a p idx HT mod_window_inj [of ?T q ?N p] by simp
    then show "t' = t" using a w q p core unfolding ring_ccore_def inv_exclusive_def by metis
  next
    assume "cs_cons s \<noteq> C_peek"
    then have "slot_sequence (cs_at s ?T) = of_nat (Suc ?T)"
      using core by (simp add: ring_ccore_def inv_consumer_def)
    then have "p \<noteq> ?T" using p(4) by auto
    then show "ring_index (cs_mask s) pos \<noteq> ring_index (cs_mask s) (cs_tail s)"
      using p idx [of p] idx [of ?T] HT bounds mod_window_inj [of ?T p ?N ?T] by auto
  qed
qed

theorem ring_slot_exclusive_witness:
  "reachable ring_cinit ring_step cring2 \<and> cs_young cring2 \<and>
   writing (cs_prod cring2 0) = Some (sample_record ''m'', ''h'', 0) \<and>
   writing (cs_prod cring2 1) = Some (sample_record ''m'', ''h'', 1) \<and>
   ring_index (cs_mask cring2) 1 \<noteq> ring_index (cs_mask cring2) 0"
proof -
  have w: "writing (cs_prod cring2 0) = Some (sample_record ''m'', ''h'', 0)"
    "writing (cs_prod cring2 1) = Some (sample_record ''m'', ''h'', 1)" by (simp_all add: cring_defs)
  show ?thesis
    using ring_slot_exclusive [OF cring_reachable(2) cring_young(2) w(1)] w cring_reachable(2) cring_young(2)
    by (metis zero_neq_one)
qed

text \<open>
  C7. A log call is dropped only when the ring is full: whenever the load of the sequence
  number makes \<open>lmk_ring_enqueue\<close> return 0, at that instant all \<open>ring_size\<close> slots hold claimed
  messages that have not been consumed.
\<close>

theorem ring_drops_only_when_full:
  assumes "reachable ring_cinit ring_step s" "cs_young s"
    and "cs_prod s t = P_top rec h pos" "ring_step s (L_load t) s'" "cs_prod s' t = P_done 0"
  shows "cs_claims s = cs_taken s + cs_size s"
proof -
  have core: "ring_ccore s" by (rule reachable_core [OF assms(1,2)])
  then have "cursor_ok (cs_claims s) (cs_taken s + cs_size s) (cs_prod s t)"
    by (simp add: ring_ccore_def inv_cursors_def)
  then obtain p where p: "p \<le> cs_claims s" "pos = of_nat p" using assms(3) by auto
  from assms(4) have "ring_diff (slot_sequence (slot_for s pos)) pos < 0"
    using assms(3,5) by cases auto
  then show ?thesis using load_analysis(2) [OF core assms(2) p(1)] p(2) by simp
qed

theorem ring_drops_only_when_full_witness:
  "reachable ring_cinit ring_step cring3 \<and> ring_step cring3 (L_load 2) (set_pc 2 (P_done 0) cring3) \<and>
   cs_claims cring3 = cs_taken cring3 + cs_size cring3"
proof -
  have pc: "cs_prod cring3 2 = P_top (sample_record ''m'') ''h'' 2" by (simp add: cring3_def)
  have step: "ring_step cring3 (L_load 2) (set_pc 2 (P_done 0) cring3)"
    by (rule ring_step.load_full [OF pc]) (simp add: cring_defs ring_diff_def ring_index_def cring0_slots)
  show ?thesis
    using ring_drops_only_when_full [OF cring_reachable(3) cring_young(3) pc step] step cring_reachable(3) by simp
qed

text \<open>
  C8. No message is stranded in the ring: if the next message to be consumed has been claimed
  and no producer is in the middle of writing it, the consumer's peek finds it ready.
\<close>

theorem ring_next_message_visible:
  assumes "reachable ring_cinit ring_step s" "cs_young s" "cs_taken s < cs_claims s"
    and "\<forall>t rec h. writing (cs_prod s t) \<noteq> Some (rec, h, cs_tail s)"
  shows "lmk_ring_peek_slot (cs_slots s) (cs_tail s) (cs_mask s) = Some (ring_index (cs_mask s) (cs_tail s)) \<and>
    entry_of_request (slot_req (slot_for s (cs_tail s))) = cs_claimed s ! cs_taken s"
  by (rule core_next_visible [OF reachable_core [OF assms(1,2)] assms(2-4)])

theorem ring_next_message_visible_witness:
  "reachable ring_cinit ring_step cring4 \<and> cs_young cring4 \<and>
   lmk_ring_peek_slot (cs_slots cring4) (cs_tail cring4) (cs_mask cring4) = Some 0"
proof -
  have young: "cs_young cring4" by (simp add: cs_young_def cring4_def publish_at_def cring_defs)
  have "cs_taken cring4 < cs_claims cring4" "\<forall>t rec h. writing (cs_prod cring4 t) \<noteq> Some (rec, h, cs_tail cring4)"
    by (simp_all add: cring4_def publish_at_def cring_defs)
  from ring_next_message_visible [OF cring4_reachable young this] show ?thesis
    using cring4_reachable young by (simp add: cring4_def publish_at_def cring_defs ring_index_def)
qed

end
