(* ===== verification/Async_Handler.thy ===== *)
theory Async_Handler
  imports Ring_Concurrent
begin

text \<open>
  The life of an asynchronous handler around its ring: the four handlers of the program
  (console, file, socket, syslog) share, statement for statement, the callers' \<open>log_impl\<close> with
  \<open>maybe_wake\<close>, the outer loop of the consumer's \<open>thread_routine\<close> with its sleep protocol, and
  the first half of \<open>destroy\<close>. The state extends the one of \<open>Ring_Concurrent\<close> by \<open>running\<close>,
  \<open>sleeping\<close>, the mutex \<open>wakeup_lock\<close>, the two counters \<open>nr_log_calls\<close> and \<open>dropped\<close> and one
  program counter per thread; a step is one atomic access, one lock operation, one signal or
  one step of the ring. \<open>pthread_cond_wait\<close> releases the lock and blocks in one step, may wake
  spuriously, and reacquires the lock before it returns; a signal or broadcast that finds
  nobody blocked is lost. The work done per message (formatting and output) is the single
  step that moves the message to \<open>cs_delivered\<close>.

  The lemmas show mutual exclusion and the meaning of the flags (invariants), that the sleep
  protocol loses no wakeup, and what shutdown guarantees and what it does not.
\<close>

section \<open>State\<close>

datatype lock_holder = By_producer nat | By_consumer | By_destroyer

text \<open>Where a caller is in \<open>log_impl\<close> and \<open>maybe_wake\<close>.\<close>

datatype caller_pc = A_out | A_enter | A_enqueue | A_count | A_drop | A_check | A_lock | A_signal | A_unlock

text \<open>Where the consumer thread is in its outer loop.\<close>

datatype loop_pc = T_drain | T_check | T_lock | T_set | T_test | T_test_run | T_enter_wait | T_waiting
  | T_woken | T_clear | T_unlock | T_exit

text \<open>Where the thread that destroys the handler is.\<close>

datatype destroy_pc = D_idle | D_lock | D_broadcast | D_unlock | D_join | D_done

record handler_cstate = ring_cstate +
  hs_running :: bool
  hs_sleeping :: bool
  hs_lock :: "lock_holder option"
  hs_caller :: "nat \<Rightarrow> caller_pc"
  hs_loop :: loop_pc
  hs_destroy :: destroy_pc
  hs_logged :: u64
  hs_dropped :: u64

datatype handler_label =
    H_begin nat | H_enter nat | H_ring ring_label | H_leave nat | H_count nat | H_check nat | H_lock nat | H_signal nat
  | H_unlock nat | H_consumer | H_destroyer

abbreviation set_caller :: "nat \<Rightarrow> caller_pc \<Rightarrow> 'a handler_cstate_scheme \<Rightarrow> 'a handler_cstate_scheme" where
  "set_caller t pc s \<equiv> s\<lparr>hs_caller := (hs_caller s)(t := pc)\<rparr>"

definition ready :: "'a ring_cstate_scheme \<Rightarrow> bool" where
  "ready s \<longleftrightarrow> lmk_ring_peek_slot (cs_slots s) (cs_tail s) (cs_mask s) \<noteq> None"

text \<open>A signal or broadcast wakes the consumer only if it is blocked in \<open>pthread_cond_wait\<close>.\<close>

definition wake :: "loop_pc \<Rightarrow> loop_pc" where
  "wake pc = (if pc = T_waiting then T_woken else pc)"

fun producer_label :: "ring_label \<Rightarrow> nat option" where
  "producer_label (L_load t) = Some t"
| "producer_label (L_reload t) = Some t"
| "producer_label (L_cas t) = Some t"
| "producer_label (L_meta t) = Some t"
| "producer_label (L_data t) = Some t"
| "producer_label (L_publish t) = Some t"
| "producer_label _ = None"

section \<open>Steps\<close>

inductive handler_step :: "'a handler_cstate_scheme \<Rightarrow> handler_label \<Rightarrow> 'a handler_cstate_scheme \<Rightarrow> bool" where
  begin_log: "hs_caller s t = A_out \<Longrightarrow> hs_running s \<Longrightarrow>
    handler_step s (H_begin t) (set_caller t A_enter s)"
| refuse: "hs_caller s t = A_out \<Longrightarrow> \<not> hs_running s \<Longrightarrow> handler_step s (H_begin t) s"
| enter: "hs_caller s t = A_enter \<Longrightarrow> ring_step s (L_call t) s' \<Longrightarrow>
    handler_step s (H_enter t) (set_caller t A_enqueue s')"
| enqueue: "hs_caller s t = A_enqueue \<Longrightarrow> producer_label l = Some t \<Longrightarrow> ring_step s l s' \<Longrightarrow>
    handler_step s (H_ring l) s'"
| leave: "hs_caller s t = A_enqueue \<Longrightarrow> cs_prod s t = P_done rc \<Longrightarrow> ring_step s (L_return t) s' \<Longrightarrow>
    handler_step s (H_leave t) (set_caller t (if rc = 0 then A_drop else A_count) s')"
| count_dropped: "hs_caller s t = A_drop \<Longrightarrow>
    handler_step s (H_count t) (set_caller t A_out (s\<lparr>hs_dropped := hs_dropped s + 1\<rparr>))"
| count_logged: "hs_caller s t = A_count \<Longrightarrow>
    handler_step s (H_count t) (set_caller t A_check (s\<lparr>hs_logged := hs_logged s + 1\<rparr>))"
| check_sleeping: "hs_caller s t = A_check \<Longrightarrow>
    handler_step s (H_check t) (set_caller t (if hs_sleeping s then A_lock else A_out) s)"
| signal_lock: "hs_caller s t = A_lock \<Longrightarrow> hs_lock s = None \<Longrightarrow>
    handler_step s (H_lock t) (set_caller t A_signal (s\<lparr>hs_lock := Some (By_producer t)\<rparr>))"
| signal: "hs_caller s t = A_signal \<Longrightarrow>
    handler_step s (H_signal t) (set_caller t A_unlock (s\<lparr>hs_loop := wake (hs_loop s)\<rparr>))"
| signal_unlock: "hs_caller s t = A_unlock \<Longrightarrow>
    handler_step s (H_unlock t) (set_caller t A_out (s\<lparr>hs_lock := None\<rparr>))"
| drain: "hs_loop s = T_drain \<Longrightarrow> l \<in> {L_handle, L_consume} \<or> l = L_peek \<and> ready s \<Longrightarrow> ring_step s l s' \<Longrightarrow>
    handler_step s (H_ring l) s'"
| drained: "hs_loop s = T_drain \<Longrightarrow> cs_cons s = C_peek \<Longrightarrow> \<not> ready s \<Longrightarrow>
    handler_step s H_consumer (s\<lparr>hs_loop := T_check\<rparr>)"
| check_running: "hs_loop s = T_check \<Longrightarrow>
    handler_step s H_consumer (s\<lparr>hs_loop := (if hs_running s then T_lock else T_exit)\<rparr>)"
| sleep_lock: "hs_loop s = T_lock \<Longrightarrow> hs_lock s = None \<Longrightarrow>
    handler_step s H_consumer (s\<lparr>hs_loop := T_set, hs_lock := Some By_consumer\<rparr>)"
| set_sleeping: "hs_loop s = T_set \<Longrightarrow>
    handler_step s H_consumer (s\<lparr>hs_loop := T_test, hs_sleeping := True\<rparr>)"
| test_ring: "hs_loop s = T_test \<Longrightarrow>
    handler_step s H_consumer (s\<lparr>hs_loop := (if ready s then T_clear else T_test_run)\<rparr>)"
| test_running: "hs_loop s = T_test_run \<Longrightarrow>
    handler_step s H_consumer (s\<lparr>hs_loop := (if hs_running s then T_enter_wait else T_clear)\<rparr>)"
| cond_wait: "hs_loop s = T_enter_wait \<Longrightarrow>
    handler_step s H_consumer (s\<lparr>hs_loop := T_waiting, hs_lock := None\<rparr>)"
| spurious_wakeup: "hs_loop s = T_waiting \<Longrightarrow> handler_step s H_consumer (s\<lparr>hs_loop := T_woken\<rparr>)"
| relock: "hs_loop s = T_woken \<Longrightarrow> hs_lock s = None \<Longrightarrow>
    handler_step s H_consumer (s\<lparr>hs_loop := T_test, hs_lock := Some By_consumer\<rparr>)"
| clear_sleeping: "hs_loop s = T_clear \<Longrightarrow>
    handler_step s H_consumer (s\<lparr>hs_loop := T_unlock, hs_sleeping := False\<rparr>)"
| sleep_unlock: "hs_loop s = T_unlock \<Longrightarrow>
    handler_step s H_consumer (s\<lparr>hs_loop := T_drain, hs_lock := None\<rparr>)"
| stop_running: "hs_destroy s = D_idle \<Longrightarrow>
    handler_step s H_destroyer (s\<lparr>hs_destroy := D_lock, hs_running := False\<rparr>)"
| destroy_lock: "hs_destroy s = D_lock \<Longrightarrow> hs_lock s = None \<Longrightarrow>
    handler_step s H_destroyer (s\<lparr>hs_destroy := D_broadcast, hs_lock := Some By_destroyer\<rparr>)"
| broadcast: "hs_destroy s = D_broadcast \<Longrightarrow>
    handler_step s H_destroyer (s\<lparr>hs_destroy := D_unlock, hs_loop := wake (hs_loop s)\<rparr>)"
| destroy_unlock: "hs_destroy s = D_unlock \<Longrightarrow>
    handler_step s H_destroyer (s\<lparr>hs_destroy := D_join, hs_lock := None\<rparr>)"
| join: "hs_destroy s = D_join \<Longrightarrow> hs_loop s = T_exit \<Longrightarrow>
    handler_step s H_destroyer (s\<lparr>hs_destroy := D_done\<rparr>)"

definition handler_init :: "'a handler_cstate_scheme \<Rightarrow> bool" where
  "handler_init s \<longleftrightarrow> ring_cinit s \<and> hs_running s \<and> \<not> hs_sleeping s \<and> hs_lock s = None \<and>
     hs_caller s = (\<lambda>_. A_out) \<and> hs_loop s = T_drain \<and> hs_destroy s = D_idle \<and>
     hs_logged s = 0 \<and> hs_dropped s = 0"

section \<open>Invariants\<close>

text \<open>The program points at which each thread holds \<open>wakeup_lock\<close>.\<close>

fun loop_holds :: "loop_pc \<Rightarrow> bool" where
  "loop_holds T_set = True" | "loop_holds T_test = True" | "loop_holds T_test_run = True"
| "loop_holds T_enter_wait = True" | "loop_holds T_clear = True" | "loop_holds T_unlock = True"
| "loop_holds _ = False"

fun caller_holds :: "caller_pc \<Rightarrow> bool" where
  "caller_holds A_signal = True" | "caller_holds A_unlock = True" | "caller_holds _ = False"

fun destroy_holds :: "destroy_pc \<Rightarrow> bool" where
  "destroy_holds D_broadcast = True" | "destroy_holds D_unlock = True" | "destroy_holds _ = False"

text \<open>The program points at which \<open>sleeping\<close> is 1.\<close>

fun loop_asleep :: "loop_pc \<Rightarrow> bool" where
  "loop_asleep T_test = True" | "loop_asleep T_test_run = True" | "loop_asleep T_enter_wait = True"
| "loop_asleep T_waiting = True" | "loop_asleep T_woken = True" | "loop_asleep T_clear = True"
| "loop_asleep _ = False"

text \<open>The points after the last look at the ring, and at \<open>running\<close>, before blocking or while blocked.\<close>

fun ring_checked :: "loop_pc \<Rightarrow> bool" where
  "ring_checked T_test_run = True" | "ring_checked T_enter_wait = True" | "ring_checked T_waiting = True"
| "ring_checked _ = False"

fun running_checked :: "loop_pc \<Rightarrow> bool" where
  "running_checked T_enter_wait = True" | "running_checked T_waiting = True" | "running_checked _ = False"

definition inv_lock :: "'a handler_cstate_scheme \<Rightarrow> bool" where
  "inv_lock s \<longleftrightarrow>
     (hs_lock s = Some By_consumer \<longleftrightarrow> loop_holds (hs_loop s)) \<and>
     (\<forall>t. hs_lock s = Some (By_producer t) \<longleftrightarrow> caller_holds (hs_caller s t)) \<and>
     (hs_lock s = Some By_destroyer \<longleftrightarrow> destroy_holds (hs_destroy s))"

definition inv_flags :: "'a handler_cstate_scheme \<Rightarrow> bool" where
  "inv_flags s \<longleftrightarrow> (hs_sleeping s \<longleftrightarrow> loop_asleep (hs_loop s)) \<and> (hs_running s \<longleftrightarrow> hs_destroy s = D_idle)"

definition inv_callers :: "'a handler_cstate_scheme \<Rightarrow> bool" where
  "inv_callers s \<longleftrightarrow> (\<forall>t. cs_prod s t \<noteq> P_idle \<longleftrightarrow> hs_caller s t = A_enqueue)"

text \<open>A caller that has published a message and has not yet signalled or seen the consumer awake.\<close>

definition pending :: "'a handler_cstate_scheme \<Rightarrow> nat \<Rightarrow> bool" where
  "pending s t \<longleftrightarrow> cs_prod s t = P_done 1 \<or> hs_caller s t \<in> {A_count, A_check, A_lock, A_signal}"

definition inv_wake :: "'a handler_cstate_scheme \<Rightarrow> bool" where
  "inv_wake s \<longleftrightarrow> (ring_checked (hs_loop s) \<and> ready s \<longrightarrow> (\<exists>t. pending s t))"

definition inv_stop :: "'a handler_cstate_scheme \<Rightarrow> bool" where
  "inv_stop s \<longleftrightarrow>
     (running_checked (hs_loop s) \<and> \<not> hs_running s \<longrightarrow> hs_destroy s \<in> {D_lock, D_broadcast}) \<and>
     (hs_loop s \<noteq> T_drain \<longrightarrow> cs_cons s = C_peek)"

definition handler_inv :: "'a handler_cstate_scheme \<Rightarrow> bool" where
  "handler_inv s \<longleftrightarrow> ring_cinv s \<and> inv_lock s \<and> inv_flags s \<and> inv_callers s \<and> inv_wake s \<and> inv_stop s"

lemmas handler_inv_defs = inv_lock_def inv_flags_def inv_callers_def inv_wake_def inv_stop_def

lemma ring_step_extension:
  assumes "ring_step s l s'"
  shows "hs_running s' = hs_running s" "hs_sleeping s' = hs_sleeping s" "hs_lock s' = hs_lock s"
    "hs_caller s' = hs_caller s" "hs_loop s' = hs_loop s" "hs_destroy s' = hs_destroy s"
    "hs_logged s' = hs_logged s" "hs_dropped s' = hs_dropped s"
  using assms by (cases; simp)+


lemma ring_cinv_frame [simp]:
  "ring_cinv (hs_running_update f0 s) = ring_cinv s"
  "ring_cinv (hs_sleeping_update f1 s) = ring_cinv s"
  "ring_cinv (hs_lock_update f2 s) = ring_cinv s"
  "ring_cinv (hs_caller_update f3 s) = ring_cinv s"
  "ring_cinv (hs_loop_update f4 s) = ring_cinv s"
  "ring_cinv (hs_destroy_update f5 s) = ring_cinv s"
  "ring_cinv (hs_logged_update f6 s) = ring_cinv s"
  "ring_cinv (hs_dropped_update f7 s) = ring_cinv s"
  by (simp_all add: ring_cinv_def ring_ccore_def ring_cinv_defs cs_young_def cs_at_def)

lemma ready_frame [simp]:
  "ready (hs_running_update f0 s) = ready s"
  "ready (hs_sleeping_update f1 s) = ready s"
  "ready (hs_lock_update f2 s) = ready s"
  "ready (hs_caller_update f3 s) = ready s"
  "ready (hs_loop_update f4 s) = ready s"
  "ready (hs_destroy_update f5 s) = ready s"
  "ready (hs_logged_update f6 s) = ready s"
  "ready (hs_dropped_update f7 s) = ready s"
  by (simp_all add: ready_def)

lemma seq_update_req: "slot_sequence (xs[i := (xs ! i)\<lparr>slot_req := q\<rparr>] ! j) = slot_sequence (xs ! j)"
  by (cases "i = j"; cases "i < length xs") (simp_all add: list_update_beyond)

lemma ring_step_ready:
  assumes "ring_step s l s'" "ready s'" "\<not> ready s" "l \<noteq> L_consume"
  obtains t where "l = L_publish t" "cs_prod s' t = P_done 1"
  using assms by cases (auto simp: ready_def lmk_ring_peek_slot_def Let_def seq_update_req split: if_splits)

text \<open>The only moves of a producer inside the ring that end at a return with success or leave it.\<close>

lemma ring_step_done:
  assumes "ring_step s l s'" "producer_label l = Some t"
  shows "cs_prod s' t \<noteq> P_idle" "cs_prod s t \<noteq> P_idle" "\<forall>r. cs_prod s t \<noteq> P_done r"
    "\<And>u. u \<noteq> t \<Longrightarrow> cs_prod s' u = cs_prod s u" "cs_cons s' = cs_cons s"
  using assms by (cases; auto)+

lemma ring_step_consumer:
  assumes "ring_step s l s'" "l \<in> {L_peek, L_handle, L_consume}"
  shows "cs_prod s' = cs_prod s" "cs_claimed s' = cs_claimed s" "length (cs_slots s') = length (cs_slots s)"
  using assms by (cases; auto simp: lmk_ring_consume_def Let_def)+

lemma ring_step_call_return:
  assumes "ring_step s l s'" "l = L_call t \<or> l = L_return t"
  shows "\<And>u. u \<noteq> t \<Longrightarrow> cs_prod s' u = cs_prod s u" "cs_cons s' = cs_cons s"
    "l = L_call t \<Longrightarrow> cs_prod s' t \<noteq> P_idle \<and> cs_prod s t = P_idle \<and> cs_prod s' t \<noteq> P_done 1"
    "l = L_return t \<Longrightarrow> cs_prod s' t = P_idle" "cs_slots s' = cs_slots s" "cs_tail s' = cs_tail s"
    "cs_mask s' = cs_mask s"
  using assms by (cases; auto)+

lemma wake_simps [simp]:
  "loop_holds (wake pc) = loop_holds pc" "loop_asleep (wake pc) = loop_asleep pc"
  "ring_checked (wake pc) \<longleftrightarrow> ring_checked pc \<and> pc \<noteq> T_waiting"
  "running_checked (wake pc) \<longleftrightarrow> running_checked pc \<and> pc \<noteq> T_waiting"
  "wake pc = T_drain \<longleftrightarrow> pc = T_drain" "wake pc \<noteq> T_waiting"
  by (auto simp: wake_def)

lemma checked_blocked:
  "running_checked pc \<Longrightarrow> \<not> loop_holds pc \<Longrightarrow> pc = T_waiting" "ring_checked pc \<Longrightarrow> \<not> loop_holds pc \<Longrightarrow> pc = T_waiting"
  by (cases pc; simp)+

lemma inv_lock_step:
  assumes inv: "inv_lock s" and step: "handler_step s l s'"
  shows "inv_lock s'"
  using step
proof cases
  case (enter t u)
  with inv ring_step_extension [of s "L_call t" u] show ?thesis by (simp add: inv_lock_def)
next
  case (enqueue t l)
  with inv ring_step_extension [of s l s'] show ?thesis by (simp add: inv_lock_def)
next
  case (leave t rc u)
  with inv ring_step_extension [of s "L_return t" u] show ?thesis by (simp add: inv_lock_def)
next
  case (drain l)
  with inv ring_step_extension [of s l s'] show ?thesis by (simp add: inv_lock_def)
next
  case (signal_unlock t)
  then have "hs_lock s = Some (By_producer t)" using inv by (simp add: inv_lock_def)
  with signal_unlock inv show ?thesis by (auto simp: inv_lock_def)
qed (use inv in \<open>auto simp: inv_lock_def\<close>)

lemma inv_flags_step:
  assumes inv: "inv_flags s" and step: "handler_step s l s'"
  shows "inv_flags s'"
  using step
proof cases
  case (enter t u)
  with inv ring_step_extension [of s "L_call t" u] show ?thesis by (simp add: inv_flags_def)
next
  case (enqueue t l)
  with inv ring_step_extension [of s l s'] show ?thesis by (simp add: inv_flags_def)
next
  case (leave t rc u)
  with inv ring_step_extension [of s "L_return t" u] show ?thesis by (simp add: inv_flags_def)
next
  case (drain l)
  with inv ring_step_extension [of s l s'] show ?thesis by (simp add: inv_flags_def)
qed (use inv in \<open>auto simp: inv_flags_def\<close>)

lemma inv_callers_step:
  assumes inv: "inv_callers s" and step: "handler_step s l s'"
  shows "inv_callers s'"
  using step
proof cases
  case (enter t u)
  with inv ring_step_extension [of s "L_call t" u] ring_step_call_return [of s "L_call t" u t] show ?thesis
    by (auto simp: inv_callers_def)
next
  case (enqueue t l)
  then have "cs_prod s' v \<noteq> P_idle \<longleftrightarrow> cs_prod s v \<noteq> P_idle" for v
    using ring_step_done [of s l s' t] by (cases "v = t") auto
  with inv enqueue ring_step_extension [of s l s'] show ?thesis by (simp add: inv_callers_def)
next
  case (leave t rc u)
  with inv ring_step_extension [of s "L_return t" u] ring_step_call_return [of s "L_return t" u t] show ?thesis
    by (auto simp: inv_callers_def)
next
  case (drain l)
  then have "cs_prod s' = cs_prod s" using ring_step_consumer(1) [of s l s'] by blast
  with drain inv ring_step_extension [of s l s'] show ?thesis by (simp add: inv_callers_def)
qed (use inv in \<open>auto simp: inv_callers_def\<close>)

lemma inv_stop_step:
  assumes inv: "inv_stop s" "inv_lock s" "inv_flags s" and step: "handler_step s l s'"
  shows "inv_stop s'"
  using step
proof cases
  case (enter t u)
  with inv ring_step_extension [of s "L_call t" u] ring_step_call_return(2) [of s "L_call t" u t] show ?thesis
    by (simp add: inv_stop_def)
next
  case (enqueue t l)
  with inv ring_step_extension [of s l s'] ring_step_done(5) [of s l s' t] show ?thesis by (simp add: inv_stop_def)
next
  case (leave t rc u)
  with inv ring_step_extension [of s "L_return t" u] ring_step_call_return(2) [of s "L_return t" u t] show ?thesis
    by (simp add: inv_stop_def)
next
  case (drain l)
  with inv ring_step_extension [of s l s'] show ?thesis by (simp add: inv_stop_def)
qed (use inv in \<open>auto simp: inv_stop_def inv_lock_def inv_flags_def dest: checked_blocked\<close>)


lemma inv_wake_keep:
  assumes "inv_wake s" "hs_loop s' = hs_loop s" "ready s' \<longrightarrow> ready s" "\<And>v. pending s v \<Longrightarrow> pending s' v"
  shows "inv_wake s'"
  using assms unfolding inv_wake_def by metis

text \<open>The steps that call into the ring: a message that becomes ready leaves its producer pending.\<close>

lemma inv_wake_call_return:
  assumes inv: "inv_wake s" and step: "ring_step s l u" and l: "l \<in> {L_call t, L_return t}"
    and pend: "pending s t \<Longrightarrow> pending (set_caller t pc u) t"
  shows "inv_wake (set_caller t pc u)"
proof (rule inv_wake_keep [OF inv])
  note ext = ring_step_extension [OF step]
  have cr: "cs_slots u = cs_slots s" "cs_tail u = cs_tail s" "cs_mask u = cs_mask s" "\<And>v. v \<noteq> t \<Longrightarrow> cs_prod u v = cs_prod s v"
    using step l by (auto elim: ring_step.cases)
  show "hs_loop (set_caller t pc u) = hs_loop s" using ext by simp
  show "ready (set_caller t pc u) \<longrightarrow> ready s" using cr by (simp add: ready_def)
  show "pending (set_caller t pc u) v" if "pending s v" for v
    using that pend cr(4) [of v] ext by (cases "v = t") (auto simp: pending_def)
qed

lemma inv_wake_enqueue:
  assumes inv: "inv_wake s" and caller: "hs_caller s t = A_enqueue" and l: "producer_label l = Some t" and step: "ring_step s l s'"
  shows "inv_wake s'"
proof (cases "ready s' \<and> \<not> ready s")
  case True
  moreover have "l \<noteq> L_consume" using l by auto
  ultimately obtain v where "cs_prod s' v = P_done 1" using ring_step_ready [OF step] by metis
  then have "pending s' v" by (simp add: pending_def)
  then show ?thesis by (auto simp: inv_wake_def)
next
  case False
  note ext = ring_step_extension [OF step] and d = ring_step_done [OF step l]
  have "pending s' v" if "pending s v" for v
    using that caller d ext by (cases "v = t") (auto simp: pending_def)
  then show ?thesis using False ext by (intro inv_wake_keep [OF inv]) auto
qed

text \<open>A caller that owes no signal moves on.\<close>

lemma inv_wake_caller:
  assumes "inv_wake s" "\<not> pending s t" "hs_loop s' = hs_loop s" "ready s' = ready s"
    and "\<And>v. v \<noteq> t \<Longrightarrow> hs_caller s' v = hs_caller s v" "cs_prod s' = cs_prod s"
  shows "inv_wake s'"
proof (rule inv_wake_keep [OF assms(1,3)])
  show "pending s' v" if "pending s v" for v
  proof -
    have "v \<noteq> t" using that assms(2) by blast
    then show ?thesis using that assms(5) [of v] assms(6) by (simp add: pending_def)
  qed
qed (simp add: assms(4))

lemma inv_wake_step:
  assumes inv: "inv_wake s" "inv_lock s" "inv_flags s" "inv_callers s" and step: "handler_step s l s'"
  shows "inv_wake s'"
proof -
  have idle: "\<not> pending s t" if "hs_caller s t \<in> {A_out, A_enter, A_drop, A_unlock}" for t
  proof -
    have "cs_prod s t \<noteq> P_idle \<longleftrightarrow> hs_caller s t = A_enqueue" using inv(4) by (simp add: inv_callers_def)
    then show ?thesis using that by (auto simp: pending_def)
  qed
  show ?thesis using step
  proof cases
    case (enter t u)
    then show ?thesis using idle [of t] inv_wake_call_return [OF inv(1) enter(4), of t] by simp
  next
    case (enqueue t l)
    then show ?thesis using inv_wake_enqueue [OF inv(1)] by simp
  next
    case (leave t rc u)
    then show ?thesis by (auto simp: pending_def intro!: inv_wake_call_return [OF inv(1)])
  next
    case (drain l)
    with ring_step_extension [OF drain(4)] show ?thesis by (simp add: inv_wake_def)
  next
    case (count_dropped t)
    then show ?thesis using idle [of t] by (intro inv_wake_caller [OF inv(1)]) auto
  next
    case (count_logged t)
    then have "pending s' t" by (simp add: pending_def)
    then show ?thesis by (auto simp: inv_wake_def)
  next
    case (check_sleeping t)
    show ?thesis
    proof (cases "hs_sleeping s")
      case True
      then have "pending s' t" using check_sleeping by (simp add: pending_def)
      then show ?thesis by (auto simp: inv_wake_def)
    next
      case False
      then have "\<not> ring_checked (hs_loop s)" using inv(3) by (cases "hs_loop s") (auto simp: inv_flags_def)
      then show ?thesis using check_sleeping by (simp add: inv_wake_def)
    qed
  next
    case (signal_lock t)
    then have "pending s' t" by (simp add: pending_def)
    then show ?thesis by (auto simp: inv_wake_def)
  next
    case (signal t)
    then have "hs_lock s = Some (By_producer t)" using inv(2) by (simp add: inv_lock_def)
    then have "\<not> loop_holds (hs_loop s)" using inv(2) by (simp add: inv_lock_def)
    then show ?thesis using signal checked_blocked(2) by (auto simp: inv_wake_def)
  next
    case (signal_unlock t)
    then show ?thesis using idle [of t] by (intro inv_wake_caller [OF inv(1)]) auto
  next
    case (begin_log t)
    then show ?thesis using idle [of t] by (intro inv_wake_caller [OF inv(1)]) auto
  qed (use inv(1) in \<open>auto simp: inv_wake_def pending_def split: if_splits\<close>)
qed

lemma handler_ring_inv_step:
  assumes "ring_cinv s" "handler_step s l s'"
  shows "ring_cinv s'"
  using assms(2)
proof cases
  case (enter t u)
  then show ?thesis using ring_cinv_step [OF assms(1) enter(4)] by simp
next
  case (enqueue t l)
  then show ?thesis using ring_cinv_step [OF assms(1) enqueue(4)] by simp
next
  case (leave t rc u)
  then show ?thesis using ring_cinv_step [OF assms(1) leave(5)] by simp
next
  case (drain l)
  then show ?thesis using ring_cinv_step [OF assms(1) drain(4)] by simp
qed (use assms(1) in simp_all)

lemma handler_inv_step: "handler_inv s \<Longrightarrow> handler_step s l s' \<Longrightarrow> handler_inv s'"
  unfolding handler_inv_def
  using handler_ring_inv_step inv_lock_step inv_flags_step inv_callers_step inv_wake_step inv_stop_step
  by metis

lemma handler_inv_init: "handler_init s \<Longrightarrow> handler_inv s"
  by (simp add: handler_init_def handler_inv_def ring_cinv_init handler_inv_defs)
    (simp add: ring_cinit_def)

interpretation ah: transition_system handler_init handler_step handler_inv
  by unfold_locales (auto intro: handler_inv_init handler_inv_step)


section \<open>Waking a blocked consumer\<close>

text \<open>The steps left to a call whose message is in the ring: it returns from \<open>lmk_ring_enqueue\<close>, counts,
  tests \<open>sleeping\<close>, locks, signals and unlocks.\<close>

fun finishing :: "handler_label \<Rightarrow> bool" where
  "finishing (H_leave t) = True" | "finishing (H_count t) = True" | "finishing (H_check t) = True"
| "finishing (H_lock t) = True" | "finishing (H_signal t) = True" | "finishing (H_unlock t) = True"
| "finishing _ = False"

text \<open>What may run without the consumer and without anything new: calls past their enqueue finish, and a
  destroy that has begun goes on.\<close>

definition under_way :: "'a handler_cstate_scheme \<Rightarrow> handler_label \<Rightarrow> bool" where
  "under_way s l \<longleftrightarrow> finishing l \<or> l = H_destroyer \<and> hs_destroy s \<noteq> D_idle"

text \<open>Such steps alone get the consumer out of \<open>pthread_cond_wait\<close>.\<close>

definition can_wake :: "'a handler_cstate_scheme \<Rightarrow> bool" where
  "can_wake s \<longleftrightarrow> (\<exists>ls s'. trace handler_step s ls s' \<and> list_all (under_way s) ls \<and> hs_loop s' = T_woken)"

lemma under_way_back:
  assumes "handler_step s l u" "under_way s l" "under_way u l'"
  shows "under_way s l'"
proof (cases "finishing l")
  case True
  with assms(1) have "hs_destroy u = hs_destroy s"
    by (cases rule: handler_step.cases) (auto simp: ring_step_extension)
  then show ?thesis using assms(3) by (simp add: under_way_def)
qed (use assms(2,3) in \<open>auto simp: under_way_def\<close>)

lemma can_wake_step:
  assumes "handler_step s l u" "under_way s l" "can_wake u"
  shows "can_wake s"
proof -
  obtain ls s' where ls: "trace handler_step u ls s'" "list_all (under_way u) ls" "hs_loop s' = T_woken"
    using assms(3) by (auto simp: can_wake_def)
  then have "list_all (under_way s) ls" using under_way_back [OF assms(1,2)] by (auto simp: list_all_iff)
  then have "trace handler_step s (l # ls) s' \<and> list_all (under_way s) (l # ls) \<and> hs_loop s' = T_woken"
    using assms(1,2) ls(1,3) by auto
  then show ?thesis unfolding can_wake_def by blast
qed

lemma can_wake_now: "hs_loop s = T_woken \<Longrightarrow> can_wake s"
  by (auto simp: can_wake_def intro!: exI [of _ "[]"])

lemma can_wake_signal: "hs_loop s = T_waiting \<Longrightarrow> hs_caller s t = A_signal \<Longrightarrow> can_wake s"
  by (rule can_wake_step [OF handler_step.signal [of s t]]) (auto intro: can_wake_now simp: wake_def under_way_def)

lemma can_wake_broadcast: "hs_loop s = T_waiting \<Longrightarrow> hs_destroy s = D_broadcast \<Longrightarrow> can_wake s"
  by (rule can_wake_step [OF handler_step.broadcast]) (auto intro: can_wake_now simp: wake_def under_way_def)

text \<open>Whoever holds the lock while the consumer is blocked either signals or releases it.\<close>

lemma can_wake_lock_free:
  fixes s :: "'a handler_cstate_scheme"
  assumes loop: "hs_loop s = T_waiting" and inv: "inv_lock s"
    and free: "\<And>u :: 'a handler_cstate_scheme. hs_lock u = None \<Longrightarrow> hs_loop u = T_waiting \<Longrightarrow> inv_lock u \<Longrightarrow>
      (\<And>t. hs_caller s t \<in> {A_count, A_check, A_lock, A_signal} \<Longrightarrow> hs_caller u t = hs_caller s t) \<Longrightarrow>
      (hs_destroy s = D_lock \<Longrightarrow> hs_destroy u = D_lock) \<Longrightarrow> can_wake u"
  shows "can_wake s"
proof (cases "hs_lock s")
  case None
  then show ?thesis using loop inv by (rule free) simp_all
next
  case (Some w)
  show ?thesis
  proof (cases w)
    case (By_producer t)
    then have "caller_holds (hs_caller s t)" using inv Some by (auto simp: inv_lock_def)
    then consider "hs_caller s t = A_signal" | "hs_caller s t = A_unlock" by (cases "hs_caller s t") auto
    then show ?thesis
    proof cases
      case 1
      with loop show ?thesis by (rule can_wake_signal)
    next
      case 2
      note st = handler_step.signal_unlock [OF 2]
      show ?thesis
        by (rule can_wake_step [OF st], simp add: under_way_def 2, rule free) (use loop 2 inv_lock_step [OF inv st] in auto)
    qed
  next
    case By_consumer
    then show ?thesis using inv Some loop by (simp add: inv_lock_def)
  next
    case By_destroyer
    then have "destroy_holds (hs_destroy s)" using inv Some by (simp add: inv_lock_def)
    then consider "hs_destroy s = D_broadcast" | "hs_destroy s = D_unlock" by (cases "hs_destroy s") auto
    then show ?thesis
    proof cases
      case 1
      with loop show ?thesis by (rule can_wake_broadcast)
    next
      case 2
      note st = handler_step.destroy_unlock [OF 2]
      show ?thesis
        by (rule can_wake_step [OF st], simp add: under_way_def 2, rule free) (use loop 2 inv_lock_step [OF inv st] in auto)
    qed
  qed
qed

lemma can_wake_locking:
  fixes s :: "'a handler_cstate_scheme"
  assumes "hs_loop s = T_waiting" "inv_lock s" "hs_caller s t = A_lock"
  shows "can_wake s"
proof (rule can_wake_lock_free [OF assms(1,2)])
  fix u :: "'a handler_cstate_scheme"
  assume u: "hs_lock u = None" "hs_loop u = T_waiting"
    and keep: "\<And>v. hs_caller s v \<in> {A_count, A_check, A_lock, A_signal} \<Longrightarrow> hs_caller u v = hs_caller s v"
  have "hs_caller u t = A_lock" using keep [of t] assms(3) by simp
  from handler_step.signal_lock [OF this u(1)] show "can_wake u"
    by (rule can_wake_step) (use u in \<open>auto intro: can_wake_signal [of _ t] simp: under_way_def\<close>)
qed

lemma can_wake_stopping:
  fixes s :: "'a handler_cstate_scheme"
  assumes "hs_loop s = T_waiting" "inv_lock s" "hs_destroy s = D_lock"
  shows "can_wake s"
proof (rule can_wake_lock_free [OF assms(1,2)])
  fix u :: "'a handler_cstate_scheme"
  assume u: "hs_lock u = None" "hs_loop u = T_waiting" and "hs_destroy s = D_lock \<Longrightarrow> hs_destroy u = D_lock"
  then have "hs_destroy u = D_lock" using assms(3) by simp
  from handler_step.destroy_lock [OF this u(1)] show "can_wake u"
    by (rule can_wake_step) (use u \<open>hs_destroy u = D_lock\<close> in \<open>auto intro: can_wake_broadcast simp: under_way_def\<close>)
qed

lemma can_wake_checking:
  assumes "hs_loop s = T_waiting" "inv_lock s" "inv_flags s" "hs_caller s t = A_check"
  shows "can_wake s"
proof -
  have "hs_sleeping s" using assms by (simp add: inv_flags_def)
  with handler_step.check_sleeping [OF assms(4)] have st: "handler_step s (H_check t) (set_caller t A_lock s)"
    by simp
  show ?thesis
    by (rule can_wake_step [OF st]) (use assms inv_lock_step [OF assms(2) st] in \<open>auto intro!: can_wake_locking [of _ t] simp: under_way_def\<close>)
qed

lemma can_wake_counting:
  assumes "hs_loop s = T_waiting" "inv_lock s" "inv_flags s" "hs_caller s t = A_count"
  shows "can_wake s"
proof -
  note st = handler_step.count_logged [OF assms(4)]
  show ?thesis
    by (rule can_wake_step [OF st])
      (use assms inv_lock_step [OF assms(2) st] inv_flags_step [OF assms(3) st] in
        \<open>auto intro!: can_wake_checking [of _ t] simp: under_way_def\<close>)
qed

lemma can_wake_returning:
  assumes "hs_loop s = T_waiting" "inv_lock s" "inv_flags s" "inv_callers s" "cs_prod s t = P_done 1"
  shows "can_wake s"
proof -
  have "cs_prod s t \<noteq> P_idle" using assms(5) by simp
  then have "hs_caller s t = A_enqueue" using assms(4) unfolding inv_callers_def by blast
  from handler_step.leave [OF this assms(5) ring_step.return [OF assms(5)]]
  have st: "handler_step s (H_leave t) (set_caller t A_count (set_pc t P_idle s))" by simp
  show ?thesis
    by (rule can_wake_step [OF st])
      (use assms(1) inv_lock_step [OF assms(2) st] inv_flags_step [OF assms(3) st] in
        \<open>simp_all add: can_wake_counting [of _ t] under_way_def\<close>)
qed

lemma can_wake_pending:
  assumes "hs_loop s = T_waiting" "handler_inv s" "pending s t"
  shows "can_wake s"
proof -
  have inv: "inv_lock s" "inv_flags s" "inv_callers s" using assms(2) by (simp_all add: handler_inv_def)
  from assms(3) consider "cs_prod s t = P_done 1" | "hs_caller s t = A_count" | "hs_caller s t = A_check"
    | "hs_caller s t = A_lock" | "hs_caller s t = A_signal" by (auto simp: pending_def)
  then show ?thesis
    using can_wake_returning [OF assms(1) inv] can_wake_counting [OF assms(1) inv(1,2)]
      can_wake_checking [OF assms(1) inv(1,2)] can_wake_locking [OF assms(1) inv(1)] can_wake_signal [OF assms(1)]
    by cases
qed

section \<open>Shutdown\<close>

text \<open>No call is between its test of \<open>running\<close> and its return from \<open>lmk_ring_enqueue\<close>.\<close>

definition no_call_inside :: "'a handler_cstate_scheme \<Rightarrow> bool" where
  "no_call_inside s \<longleftrightarrow> (\<forall>t. hs_caller s t \<noteq> A_enter \<and> hs_caller s t \<noteq> A_enqueue)"

definition drained_at_end :: "'a handler_cstate_scheme \<Rightarrow> bool" where
  "drained_at_end s \<longleftrightarrow> (hs_loop s = T_check \<or> hs_loop s = T_exit \<longrightarrow> cs_taken s = cs_claims s)"

definition shutdown_inv :: "'a handler_cstate_scheme \<Rightarrow> bool" where
  "shutdown_inv s \<longleftrightarrow> handler_inv s \<and> no_call_inside s \<and> cs_young s \<and> drained_at_end s"

lemma no_call_no_writer:
  assumes "handler_inv s" "no_call_inside s"
  shows "writing (cs_prod s t) = None" "cs_prod s t = P_idle"
proof -
  have "hs_caller s t \<noteq> A_enqueue" using assms(2) by (simp add: no_call_inside_def)
  then show "cs_prod s t = P_idle"
    using assms(1) unfolding handler_inv_def inv_callers_def by blast
  then show "writing (cs_prod s t) = None" by simp
qed

lemma not_ready_drained:
  assumes "handler_inv s" "no_call_inside s" "cs_young s" "\<not> ready s"
  shows "cs_taken s = cs_claims s"
proof -
  have core: "ring_ccore s" using assms(1,3) by (simp add: handler_inv_def ring_cinv_def)
  have "\<not> cs_taken s < cs_claims s"
  proof
    assume "cs_taken s < cs_claims s"
    from core_next_visible [OF core assms(3) this] have "ready s"
      using no_call_no_writer [OF assms(1,2)] by (simp add: ready_def)
    with assms(4) show False ..
  qed
  then show ?thesis using core by (simp add: ring_ccore_def inv_geometry_def)
qed

lemma shutdown_step:
  assumes inv: "shutdown_inv s" and step: "handler_step s l s'" and l: "\<forall>t. l \<noteq> H_begin t"
  shows "shutdown_inv s'" "cs_claimed s' = cs_claimed s"
proof -
  have hinv: "handler_inv s" and quiet: "no_call_inside s" and young: "cs_young s" and dr: "drained_at_end s"
    using inv by (simp_all add: shutdown_inv_def)
  have hinv': "handler_inv s'" by (rule handler_inv_step [OF hinv step])
  have "no_call_inside s' \<and> cs_young s' \<and> drained_at_end s' \<and> cs_claimed s' = cs_claimed s"
    using step
  proof cases
    case (drain l)
    have "l \<in> {L_peek, L_handle, L_consume}" using drain(3) by auto
    from ring_step_consumer(2,3) [OF drain(4) this]
    have "cs_claimed s' = cs_claimed s" "cs_young s'" using young by (simp_all add: cs_young_def)
    then show ?thesis
      using drain(2) quiet ring_step_extension [OF drain(4)] by (simp add: no_call_inside_def drained_at_end_def)
  next
    case drained
    then show ?thesis
      using quiet young not_ready_drained [OF hinv quiet young]
      by (simp add: no_call_inside_def drained_at_end_def cs_young_def)
  next
    case (begin_log t)
    then show ?thesis using l by simp
  next
    case (refuse t)
    then show ?thesis using l by simp
  qed (use quiet young dr in \<open>auto simp: no_call_inside_def drained_at_end_def cs_young_def wake_def split: if_splits\<close>)
  then show "shutdown_inv s'" "cs_claimed s' = cs_claimed s" using hinv' by (simp_all add: shutdown_inv_def)
qed

lemma shutdown_trace:
  assumes "shutdown_inv s" "trace handler_step s ls s'" "\<forall>t. H_begin t \<notin> set ls"
  shows "shutdown_inv s' \<and> cs_claimed s' = cs_claimed s"
  using assms
proof (induction ls arbitrary: s)
  case Nil
  then show ?case by simp
next
  case (Cons l ls)
  then obtain u where u: "handler_step s l u" "trace handler_step u ls s'" by auto
  have "\<forall>t. l \<noteq> H_begin t" using Cons.prems(3) by auto
  from shutdown_step [OF Cons.prems(1) u(1) this] Cons.IH [OF _ u(2)] Cons.prems(3) show ?case by auto
qed

section \<open>Example runs\<close>

text \<open>A handler with a two-slot ring, freshly initialised.\<close>

definition handler0 :: handler_cstate where
  "handler0 = ring_cstate.extend cring0 (handler_cstate.fields True False None (\<lambda>_. A_out) T_drain D_idle 0 0)"

lemma handler0_simps [simp]:
  "cs_head handler0 = 0" "cs_tail handler0 = 0" "cs_mask handler0 = 1" "cs_prod handler0 = (\<lambda>_. P_idle)"
  "cs_cons handler0 = C_peek" "cs_claimed handler0 = []" "cs_taken handler0 = 0" "cs_delivered handler0 = []"
  "cs_slots handler0 = [zero_slot\<lparr>slot_sequence := 0\<rparr>, zero_slot\<lparr>slot_sequence := 1\<rparr>]"
  "hs_running handler0" "\<not> hs_sleeping handler0" "hs_lock handler0 = None" "hs_caller handler0 = (\<lambda>_. A_out)"
  "hs_loop handler0 = T_drain" "hs_destroy handler0 = D_idle" "hs_logged handler0 = 0" "hs_dropped handler0 = 0"
  by (simp_all add: handler0_def ring_cstate.extend_def handler_cstate.fields_def cring0_slots)

lemma handler0_init: "handler_init handler0"
proof -
  have "\<exists>k\<in>{1..<64}. cs_slots handler0 = lmk_ring_init (replicate (2 ^ k) zero_slot) (2 ^ k) \<and> cs_mask handler0 = mask k"
    by (rule bexI [of _ 1]) (simp_all add: lmk_ring_init_def numeral_2_eq_2 mask_eq_exp_minus_1)
  then show ?thesis by (simp add: handler_init_def ring_cinit_def)
qed

text \<open>One complete log call by thread 0, while the consumer is awake.\<close>

definition logged_call :: "handler_cstate \<Rightarrow> handler_cstate" where
  "logged_call s = s\<lparr>cs_slots := (cs_slots s)[ring_index (cs_mask s) (cs_head s) :=
       (slot_for s (cs_head s))\<lparr>slot_req := write_data (sample_record ''m'') (write_meta (sample_record ''m'') ''h''
          (slot_req (slot_for s (cs_head s)))), slot_sequence := cs_head s + 1\<rparr>],
     cs_head := cs_head s + 1, cs_claimed := cs_claimed s @ [entry_of_record (sample_record ''m'') ''h''],
     hs_logged := hs_logged s + 1\<rparr>"

lemma htrace_end: "s = t \<Longrightarrow> trace handler_step s [] t"
  by simp

lemma htrace_Cons: "handler_step s l u \<Longrightarrow> trace handler_step u ls t \<Longrightarrow> trace handler_step s (l # ls) t"
  by auto

text \<open>Thread 0 at \<open>caller\<close>, \<open>pc\<close>, with the ring fields it has written so far; the rest as in \<open>s\<close>.\<close>

definition log_state :: "handler_cstate \<Rightarrow> caller_pc \<Rightarrow> producer_pc \<Rightarrow> lmk_ring_slot list \<Rightarrow> u64 \<Rightarrow>
    log_entry list \<Rightarrow> u64 \<Rightarrow> handler_cstate" where
  "log_state s caller pc slots h0 claimed logged = s\<lparr>cs_slots := slots, cs_head := h0,
     cs_prod := (cs_prod s)(0 := pc), cs_claimed := claimed, hs_caller := (hs_caller s)(0 := caller),
     hs_logged := logged\<rparr>"

lemma log_state_simps [simp]:
  "cs_slots (log_state s c pc sl h0 cl lg) = sl" "cs_head (log_state s c pc sl h0 cl lg) = h0"
  "cs_prod (log_state s c pc sl h0 cl lg) = (cs_prod s)(0 := pc)" "cs_claimed (log_state s c pc sl h0 cl lg) = cl"
  "hs_caller (log_state s c pc sl h0 cl lg) = (hs_caller s)(0 := c)" "hs_logged (log_state s c pc sl h0 cl lg) = lg"
  "cs_mask (log_state s c pc sl h0 cl lg) = cs_mask s" "hs_sleeping (log_state s c pc sl h0 cl lg) = hs_sleeping s"
  "hs_running (log_state s c pc sl h0 cl lg) = hs_running s"
  "(log_state s c pc sl h0 cl lg)\<lparr>cs_prod := (cs_prod s)(0 := pc')\<rparr> = log_state s c pc' sl h0 cl lg"
  "(log_state s c pc sl h0 cl lg)\<lparr>hs_caller := (hs_caller s)(0 := c')\<rparr> = log_state s c' pc sl h0 cl lg"
  "(log_state s c pc sl h0 cl lg)\<lparr>cs_slots := sl'\<rparr> = log_state s c pc sl' h0 cl lg"
  "(log_state s c pc sl h0 cl lg)\<lparr>cs_head := h0'\<rparr> = log_state s c pc sl h0' cl lg"
  "(log_state s c pc sl h0 cl lg)\<lparr>cs_claimed := cl'\<rparr> = log_state s c pc sl h0 cl' lg"
  "(log_state s c pc sl h0 cl lg)\<lparr>hs_logged := lg'\<rparr> = log_state s c pc sl h0 cl lg'"
  by (simp_all add: log_state_def)

lemma logged_call_trace:
  assumes "hs_caller s 0 = A_out" "hs_running s" "\<not> hs_sleeping s" "cs_prod s 0 = P_idle"
    "ring_diff (slot_sequence (slot_for s (cs_head s))) (cs_head s) = 0"
    "ring_index (cs_mask s) (cs_head s) < cs_size s"
  shows "trace handler_step s [H_begin 0, H_enter 0, H_ring (L_load 0), H_ring (L_cas 0), H_ring (L_meta 0),
     H_ring (L_data 0), H_ring (L_publish 0), H_leave 0, H_count 0, H_check 0] (logged_call s)"
proof -
  let ?r = "sample_record ''m''" and ?p = "cs_head s"
  define sl0 where "sl0 = cs_slots s"
  define i where "i = ring_index (cs_mask s) ?p"
  define sl1 where "sl1 = sl0[i := (sl0 ! i)\<lparr>slot_req := write_meta ?r ''h'' (slot_req (sl0 ! i))\<rparr>]"
  define sl2 where "sl2 = sl1[i := (sl1 ! i)\<lparr>slot_req := write_data ?r (slot_req (sl1 ! i))\<rparr>]"
  define sl3 where "sl3 = sl2[i := (sl2 ! i)\<lparr>slot_sequence := ?p + 1\<rparr>]"
  define cl where "cl = cs_claimed s @ [entry_of_record ?r ''h'']"
  let ?st = "\<lambda>c pc sl h0 cl lg. log_state s c pc sl h0 cl lg"
  let ?lg = "hs_logged s" and ?c0 = "cs_claimed s"
  have 0: "s = ?st A_out P_idle sl0 ?p ?c0 ?lg"
    using assms(1,4) by (simp add: log_state_def sl0_def fun_upd_idem)
  have 1: "handler_step (?st A_out P_idle sl0 ?p ?c0 ?lg) (H_begin 0) (?st A_enter P_idle sl0 ?p ?c0 ?lg)"
    using handler_step.begin_log [of "?st A_out P_idle sl0 ?p ?c0 ?lg" 0] assms(2) by simp
  have 2: "handler_step (?st A_enter P_idle sl0 ?p ?c0 ?lg) (H_enter 0) (?st A_enqueue (P_top ?r ''h'' ?p) sl0 ?p ?c0 ?lg)"
    using handler_step.enter [OF _ ring_step.call, of "?st A_enter P_idle sl0 ?p ?c0 ?lg" 0 ?r "''h''"] by simp
  have 3: "handler_step (?st A_enqueue (P_top ?r ''h'' ?p) sl0 ?p ?c0 ?lg) (H_ring (L_load 0))
      (?st A_enqueue (P_cas ?r ''h'' ?p) sl0 ?p ?c0 ?lg)"
    using handler_step.enqueue [OF _ _ ring_step.load_free, of "?st A_enqueue (P_top ?r ''h'' ?p) sl0 ?p ?c0 ?lg" 0 0 ?r "''h''" ?p]
      assms(5) by (simp add: sl0_def)
  have 4: "handler_step (?st A_enqueue (P_cas ?r ''h'' ?p) sl0 ?p ?c0 ?lg) (H_ring (L_cas 0))
      (?st A_enqueue (P_meta ?r ''h'' ?p) sl0 (?p + 1) cl ?lg)"
    using handler_step.enqueue [OF _ _ ring_step.cas_ok, of "?st A_enqueue (P_cas ?r ''h'' ?p) sl0 ?p ?c0 ?lg" 0 0 ?r "''h''" ?p]
    by (simp add: cl_def)
  have 5: "handler_step (?st A_enqueue (P_meta ?r ''h'' ?p) sl0 (?p + 1) cl ?lg) (H_ring (L_meta 0))
      (?st A_enqueue (P_data ?r ''h'' ?p) sl1 (?p + 1) cl ?lg)"
    using handler_step.enqueue [OF _ _ ring_step.meta, of "?st A_enqueue (P_meta ?r ''h'' ?p) sl0 (?p + 1) cl ?lg" 0 0 ?r "''h''" ?p]
    by (simp add: sl1_def i_def)
  have 6: "handler_step (?st A_enqueue (P_data ?r ''h'' ?p) sl1 (?p + 1) cl ?lg) (H_ring (L_data 0))
      (?st A_enqueue (P_publish ?r ''h'' ?p) sl2 (?p + 1) cl ?lg)"
    using handler_step.enqueue [OF _ _ ring_step.data, of "?st A_enqueue (P_data ?r ''h'' ?p) sl1 (?p + 1) cl ?lg" 0 0 ?r "''h''" ?p]
    by (simp add: sl2_def i_def)
  have 7: "handler_step (?st A_enqueue (P_publish ?r ''h'' ?p) sl2 (?p + 1) cl ?lg) (H_ring (L_publish 0))
      (?st A_enqueue (P_done 1) sl3 (?p + 1) cl ?lg)"
    using handler_step.enqueue [OF _ _ ring_step.publish, of "?st A_enqueue (P_publish ?r ''h'' ?p) sl2 (?p + 1) cl ?lg" 0 0 ?r "''h''" ?p]
    by (simp add: sl3_def i_def)
  have 8: "handler_step (?st A_enqueue (P_done 1) sl3 (?p + 1) cl ?lg) (H_leave 0) (?st A_count P_idle sl3 (?p + 1) cl ?lg)"
    using handler_step.leave [OF _ _ ring_step.return, of "?st A_enqueue (P_done 1) sl3 (?p + 1) cl ?lg" 0 1 1] by simp
  have 9: "handler_step (?st A_count P_idle sl3 (?p + 1) cl ?lg) (H_count 0) (?st A_check P_idle sl3 (?p + 1) cl (?lg + 1))"
    using handler_step.count_logged [of "?st A_count P_idle sl3 (?p + 1) cl ?lg" 0] by simp
  have 10: "handler_step (?st A_check P_idle sl3 (?p + 1) cl (?lg + 1)) (H_check 0) (?st A_out P_idle sl3 (?p + 1) cl (?lg + 1))"
    using handler_step.check_sleeping [of "?st A_check P_idle sl3 (?p + 1) cl (?lg + 1)" 0] assms(3) by simp
  have end_: "?st A_out P_idle sl3 (?p + 1) cl (?lg + 1) = logged_call s"
    using assms(1,4,6)
    by (simp add: log_state_def logged_call_def fun_upd_idem sl3_def sl2_def sl1_def sl0_def i_def cl_def)
  show ?thesis
    by (subst 0) (rule htrace_Cons [OF 1] htrace_Cons [OF 2] htrace_Cons [OF 3] htrace_Cons [OF 4]
        htrace_Cons [OF 5] htrace_Cons [OF 6] htrace_Cons [OF 7] htrace_Cons [OF 8]
        htrace_Cons [OF 9] htrace_Cons [OF 10] htrace_end [OF end_])+
qed


text \<open>The consumer's own steps from an empty ring to \<open>pthread_cond_wait\<close>, and a destroyer that has just stored \<open>running = 0\<close>.\<close>

lemma hreach: "reachable handler_init handler_step s \<Longrightarrow> handler_step s l t \<Longrightarrow> reachable handler_init handler_step t"
  by (rule reach_step)

lemma handler0_reachable: "reachable handler_init handler_step handler0"
  by (rule reach_init) (rule handler0_init)

lemma handler0_not_ready [simp]: "\<not> ready handler0"
  by (simp add: ready_def lmk_ring_peek_slot_def ring_diff_def ring_index_def Let_def)

definition loop_state :: "handler_cstate \<Rightarrow> loop_pc \<Rightarrow> lock_holder option \<Rightarrow> bool \<Rightarrow> destroy_pc \<Rightarrow> bool \<Rightarrow> handler_cstate" where
  "loop_state s pc lk sleeping d running = s\<lparr>hs_running := running, hs_sleeping := sleeping, hs_lock := lk,
     hs_loop := pc, hs_destroy := d\<rparr>"

lemma loop_state_simps [simp]:
  "hs_running (loop_state s pc lk sl d r) = r" "hs_sleeping (loop_state s pc lk sl d r) = sl"
  "hs_lock (loop_state s pc lk sl d r) = lk" "hs_loop (loop_state s pc lk sl d r) = pc"
  "hs_destroy (loop_state s pc lk sl d r) = d" "ready (loop_state s pc lk sl d r) = ready s"
  "cs_cons (loop_state s pc lk sl d r) = cs_cons s" "cs_claimed (loop_state s pc lk sl d r) = cs_claimed s"
  "cs_delivered (loop_state s pc lk sl d r) = cs_delivered s" "hs_caller (loop_state s pc lk sl d r) = hs_caller s"
  "hs_logged (loop_state s pc lk sl d r) = hs_logged s" "cs_prod (loop_state s pc lk sl d r) = cs_prod s"
  "cs_slots (loop_state s pc lk sl d r) = cs_slots s" "cs_mask (loop_state s pc lk sl d r) = cs_mask s"
  "cs_taken (loop_state s pc lk sl d r) = cs_taken s"
  "cs_head (loop_state s pc lk sl d r) = cs_head s" "cs_tail (loop_state s pc lk sl d r) = cs_tail s"
  "(loop_state s pc lk sl d r)\<lparr>hs_running := r'\<rparr> = loop_state s pc lk sl d r'"
  "(loop_state s pc lk sl d r)\<lparr>hs_sleeping := sl'\<rparr> = loop_state s pc lk sl' d r"
  "(loop_state s pc lk sl d r)\<lparr>hs_lock := lk'\<rparr> = loop_state s pc lk' sl d r"
  "(loop_state s pc lk sl d r)\<lparr>hs_loop := pc'\<rparr> = loop_state s pc' lk sl d r"
  "(loop_state s pc lk sl d r)\<lparr>hs_destroy := d'\<rparr> = loop_state s pc lk sl d' r"
  by (simp_all add: loop_state_def)

lemma handler0_loop_state: "handler0 = loop_state handler0 T_drain None False D_idle True"
  by (simp add: loop_state_def handler0_def ring_cstate.extend_def handler_cstate.fields_def)

definition handler_waiting :: handler_cstate where
  "handler_waiting = loop_state handler0 T_waiting None True D_lock False"

lemma handler_checking_reachable:
  "reachable handler_init handler_step (loop_state handler0 T_check None False D_idle True)"
  using hreach [OF handler0_reachable handler_step.drained, folded handler0_loop_state]
    arg_cong [OF handler0_loop_state, of "hs_loop_update (\<lambda>_. T_check)"] by simp

lemma handler_waiting_reachable: "reachable handler_init handler_step handler_waiting"
proof -
  let ?st = "loop_state handler0" and ?c = "Some By_consumer"
  note hreach [OF handler_checking_reachable handler_step.check_running]
  then have "reachable handler_init handler_step (?st T_lock None False D_idle True)" by simp
  note hreach [OF this handler_step.sleep_lock]
  then have "reachable handler_init handler_step (?st T_set ?c False D_idle True)" by simp
  note hreach [OF this handler_step.set_sleeping]
  then have "reachable handler_init handler_step (?st T_test ?c True D_idle True)" by simp
  note hreach [OF this handler_step.test_ring]
  then have "reachable handler_init handler_step (?st T_test_run ?c True D_idle True)" by simp
  note hreach [OF this handler_step.test_running]
  then have "reachable handler_init handler_step (?st T_enter_wait ?c True D_idle True)" by simp
  note hreach [OF this handler_step.cond_wait]
  then have "reachable handler_init handler_step (?st T_waiting None True D_idle True)" by simp
  note hreach [OF this handler_step.stop_running]
  then show ?thesis by (simp add: handler_waiting_def)
qed

lemma logged_call_simps [simp]:
  "hs_running (logged_call s) = hs_running s" "hs_sleeping (logged_call s) = hs_sleeping s"
  "hs_lock (logged_call s) = hs_lock s" "hs_caller (logged_call s) = hs_caller s"
  "hs_loop (logged_call s) = hs_loop s" "hs_destroy (logged_call s) = hs_destroy s"
  "cs_cons (logged_call s) = cs_cons s" "cs_delivered (logged_call s) = cs_delivered s"
  "cs_claimed (logged_call s) = cs_claimed s @ [entry_of_record (sample_record ''m'') ''h'']"
  "hs_logged (logged_call s) = hs_logged s + 1"
  by (simp_all add: logged_call_def)

lemma logged_call_handler0:
  "trace handler_step (loop_state handler0 pc None False D_idle True) [H_begin 0, H_enter 0, H_ring (L_load 0), H_ring (L_cas 0), H_ring (L_meta 0),
     H_ring (L_data 0), H_ring (L_publish 0), H_leave 0, H_count 0, H_check 0]
     (logged_call (loop_state handler0 pc None False D_idle True))"
  by (rule logged_call_trace) (simp_all add: ring_diff_def ring_index_def)

lemma logged_call_loop_state:
  "logged_call (loop_state s pc lk sl d r) = loop_state (logged_call s) pc lk sl d r"
  by (simp add: logged_call_def loop_state_def)

abbreviation handler_logged :: "loop_pc \<Rightarrow> handler_cstate" where
  "handler_logged pc \<equiv> loop_state (logged_call handler0) pc None False D_idle True"

lemma handler_logged_reachable:
  "reachable handler_init handler_step (handler_logged T_drain)"
  "reachable handler_init handler_step (handler_logged T_check)"
proof -
  show "reachable handler_init handler_step (handler_logged T_drain)"
    using reachable_trace [OF handler0_reachable, of _ "logged_call handler0"] logged_call_handler0 [of T_drain]
    by (metis handler0_loop_state logged_call_loop_state)
  show "reachable handler_init handler_step (handler_logged T_check)"
    using reachable_trace [OF handler_checking_reachable logged_call_handler0] by (simp only: logged_call_loop_state)
qed

text \<open>From the logged message the consumer delivers, then finds the ring empty and \<open>running\<close> 0, and ends.\<close>

lemma logged_fields:
  "cs_slots (logged_call handler0) = [zero_slot\<lparr>slot_req := write_data (sample_record ''m'') (write_meta (sample_record ''m'') ''h''
      zero_request), slot_sequence := 1\<rparr>, zero_slot\<lparr>slot_sequence := 1\<rparr>]"
  "cs_tail (logged_call handler0) = 0" "cs_mask (logged_call handler0) = 1" "cs_taken (logged_call handler0) = 0"
  by (simp_all add: logged_call_def ring_index_def zero_slot_def)

definition handler_drained :: "loop_pc \<Rightarrow> handler_cstate" where
  "handler_drained pc = (loop_state (logged_call handler0) pc None False D_lock False)
     \<lparr>cs_slots := fst (lmk_ring_consume (cs_slots (logged_call handler0)) 0 1), cs_tail := 1, cs_taken := 1,
      cs_delivered := [entry_of_request (slot_req (cs_slots (logged_call handler0) ! 0))]\<rparr>"

lemma handler_drained_trace:
  "trace handler_step (handler_logged T_drain) [H_destroyer, H_ring L_peek, H_ring L_handle, H_ring L_consume,
     H_consumer, H_consumer] (handler_drained T_exit)"
proof -
  let ?s = "loop_state (logged_call handler0) T_drain None False D_lock False"
  let ?d = "[entry_of_request (slot_req (cs_slots (logged_call handler0) ! 0))]"
  have 1: "handler_step (handler_logged T_drain) H_destroyer ?s"
    using handler_step.stop_running [of "handler_logged T_drain"] by simp
  have peek: "lmk_ring_peek_slot (cs_slots ?s) (cs_tail ?s) (cs_mask ?s) = Some 0"
    by (simp add: lmk_ring_peek_slot_def ring_diff_def ring_index_def logged_fields Let_def)
  have 2: "handler_step ?s (H_ring L_peek) (?s\<lparr>cs_cons := C_handle\<rparr>)"
    by (rule handler_step.drain [OF _ _ ring_step.peek_ready [OF _ peek]]) (simp_all add: ready_def peek [simplified])
  have 3: "handler_step (?s\<lparr>cs_cons := C_handle\<rparr>) (H_ring L_handle) (?s\<lparr>cs_cons := C_consume, cs_delivered := ?d\<rparr>)"
    using handler_step.drain [OF _ _ ring_step.handle [of "?s\<lparr>cs_cons := C_handle\<rparr>"]]
    by (simp add: logged_fields ring_index_def)
  let ?u = "?s\<lparr>cs_cons := C_consume, cs_delivered := ?d\<rparr>"
  have eq: "handler_drained T_drain = ?u\<lparr>cs_cons := C_peek,
      cs_slots := fst (lmk_ring_consume (cs_slots ?s) 0 1), cs_tail := 1, cs_taken := Suc (cs_taken ?u)\<rparr>"
    by (rule handler_cstate.equality) (simp_all add: handler_drained_def logged_fields)
  have 4: "handler_step ?u (H_ring L_consume) (handler_drained T_drain)"
    unfolding eq
    by (rule handler_step.drain [OF _ _ ring_step.consume]) (simp_all add: logged_fields lmk_ring_consume_def Let_def)
  have nr: "\<not> ready (handler_drained T_drain)" "cs_cons (handler_drained T_drain) = C_peek"
    by (simp_all add: ready_def handler_drained_def lmk_ring_peek_slot_def lmk_ring_consume_def ring_diff_def ring_index_def
        logged_fields Let_def)
  have eq5: "hs_loop_update (\<lambda>_. q) (handler_drained p) = handler_drained q" "hs_loop (handler_drained p) = p"
    "\<not> hs_running (handler_drained p)" for p q
    by (simp_all add: handler_drained_def loop_state_def)
  have 5: "handler_step (handler_drained T_drain) H_consumer (handler_drained T_check)"
    using handler_step.drained [OF _ nr(2,1)] by (simp add: eq5)
  have 6: "handler_step (handler_drained T_check) H_consumer (handler_drained T_exit)"
    using handler_step.check_running [of "handler_drained T_check"] by (simp add: eq5)
  show ?thesis using 1 2 3 4 5 6 by simp blast
qed

section \<open>Properties\<close>

text \<open>
  C9. No lost wakeup: whenever the consumer thread is blocked in \<open>pthread_cond_wait\<close> although a
  message is ready or the handler is being destroyed, what is already under way signals it: there
  is a run that wakes it in which calls past their enqueue only finish (return, count, test
  \<open>sleeping\<close>, lock, signal, unlock) and a destroy takes steps only if it had begun. No new call, no
  further enqueue, no new destroy, no spurious wakeup and no step of the consumer is needed.
\<close>

theorem handler_no_lost_wakeup:
  assumes "reachable handler_init handler_step s" "hs_loop s = T_waiting" "ready s \<or> \<not> hs_running s"
  shows "\<exists>ls s'. trace handler_step s ls s' \<and> list_all (\<lambda>l. finishing l \<or> l = H_destroyer \<and> hs_destroy s \<noteq> D_idle) ls \<and>
    hs_loop s' = T_woken"
proof -
  have inv: "handler_inv s" by (rule ah.reachable_inv [OF assms(1)])
  have "can_wake s"
  proof (cases "ready s")
    case True
    then obtain t where "pending s t" using inv assms(2) by (auto simp: handler_inv_def inv_wake_def)
    then show ?thesis using can_wake_pending [OF assms(2) inv] by blast
  next
    case False
    then have "hs_destroy s \<in> {D_lock, D_broadcast}"
      using inv assms(2,3) by (simp add: handler_inv_def inv_stop_def)
    then show ?thesis
      using can_wake_stopping [OF assms(2)] can_wake_broadcast [OF assms(2)] inv by (auto simp: handler_inv_def)
  qed
  then show ?thesis unfolding can_wake_def under_way_def [abs_def] .
qed



theorem handler_no_lost_wakeup_witness:
  "reachable handler_init handler_step handler_waiting \<and> hs_loop handler_waiting = T_waiting \<and>
   \<not> hs_running handler_waiting \<and>
   (\<exists>ls s'. trace handler_step handler_waiting ls s' \<and>
     list_all (\<lambda>l. finishing l \<or> l = H_destroyer \<and> hs_destroy handler_waiting \<noteq> D_idle) ls \<and> hs_loop s' = T_woken)"
proof -
  have h: "hs_loop handler_waiting = T_waiting" "ready handler_waiting \<or> \<not> hs_running handler_waiting"
    "\<not> hs_running handler_waiting"
    by (simp_all add: handler_waiting_def)
  show ?thesis using handler_no_lost_wakeup [OF handler_waiting_reachable h(1,2)] h(1,3) handler_waiting_reachable
    by blast
qed

text \<open>
  C10. Shutdown: from a state in which no call is inside the ring and the consumer has not
  already taken its last look at it, every run in which no new call begins and the consumer
  thread ends has delivered every claimed message. (That a run of this kind is needed, and
  what happens without it, is C11.)
\<close>

theorem handler_shutdown_drains:
  assumes "reachable handler_init handler_step s" "no_call_inside s" "cs_young s"
    and "hs_loop s \<noteq> T_check" "hs_loop s \<noteq> T_exit"
    and "trace handler_step s ls s'" "\<forall>t. H_begin t \<notin> set ls" "hs_loop s' = T_exit"
  shows "cs_delivered s' = cs_claimed s \<and> cs_claimed s' = cs_claimed s"
proof -
  have "shutdown_inv s"
    using assms(2-5) ah.reachable_inv [OF assms(1)] by (simp add: shutdown_inv_def drained_at_end_def)
  from shutdown_trace [OF this assms(6,7)] have s': "shutdown_inv s'" "cs_claimed s' = cs_claimed s" by auto
  then have "ring_ccore s'" "cs_cons s' = C_peek" "cs_taken s' = cs_claims s'"
    using assms(8) by (simp_all add: shutdown_inv_def handler_inv_def ring_cinv_def inv_stop_def drained_at_end_def)
  then show ?thesis using s'(2) by (simp add: ring_ccore_def inv_consumer_def)
qed


theorem handler_shutdown_drains_witness:
  "reachable handler_init handler_step (handler_logged T_drain) \<and> length (cs_claimed (handler_logged T_drain)) = 1 \<and>
   hs_loop (handler_drained T_exit) = T_exit \<and> cs_delivered (handler_drained T_exit) = cs_claimed (handler_logged T_drain)"
proof -
  have h: "no_call_inside (handler_logged T_drain)" "cs_young (handler_logged T_drain)"
    by (simp_all add: no_call_inside_def cs_young_def logged_fields)
  have e: "hs_loop (handler_drained T_exit) = T_exit" by (simp add: handler_drained_def)
  have "cs_delivered (handler_drained T_exit) = cs_claimed (handler_logged T_drain)"
    using handler_shutdown_drains [OF handler_logged_reachable(1) h _ _ handler_drained_trace _ e] by simp
  then show ?thesis using handler_logged_reachable(1) e by simp
qed

text \<open>
  C11. The shutdown drain has a gap. There is a reachable state, before \<open>destroy\<close> is called and
  with every caller back from its log call, in which the one message logged has been accepted
  and counted; and a run of \<open>destroy\<close> from there that joins the consumer thread without the
  message having been delivered. The consumer had found the ring empty before the call, and
  after \<open>running\<close> became 0 it leaves its loop without looking again.
\<close>

theorem handler_shutdown_loses_message:
  "\<exists>(s :: handler_cstate) ls s'. reachable handler_init handler_step s \<and> hs_destroy s = D_idle \<and> (\<forall>t. hs_caller s t = A_out) \<and>
     hs_logged s = 1 \<and> length (cs_claimed s) = 1 \<and> trace handler_step s ls s' \<and>
     set ls \<subseteq> {H_consumer, H_destroyer} \<and> hs_destroy s' = D_done \<and> cs_delivered s' = []"
proof -
  let ?st = "loop_state (logged_call handler0)"
  let ?ls = "[H_destroyer, H_destroyer, H_destroyer, H_destroyer, H_consumer, H_destroyer]"
  note * = handler_step.stop_running [of "?st T_check None False D_idle True"]
    handler_step.destroy_lock [of "?st T_check None False D_lock False"]
    handler_step.broadcast [of "?st T_check (Some By_destroyer) False D_broadcast False"]
    handler_step.destroy_unlock [of "?st T_check (Some By_destroyer) False D_unlock False"]
    handler_step.check_running [of "?st T_check None False D_join False"]
    handler_step.join [of "?st T_exit None False D_join False"]
  have "trace handler_step (?st T_check None False D_idle True) ?ls (?st T_exit None False D_done False)"
    using * by (simp add: wake_def) blast
  then show ?thesis
    by (intro exI [of _ "?st T_check None False D_idle True"] exI [of _ ?ls]
        exI [of _ "?st T_exit None False D_done False"] conjI handler_logged_reachable) simp_all
qed


end
