(* ===== verification/Linked_List.thy ===== *)
theory Linked_List
  imports Prelude "HOL-Library.Monad_Syntax"
begin

text \<open>
  The intrusive doubly linked list of \<open>logmoko_list.h\<close> and \<open>logmoko_list.c\<close>, on an explicit
  store of nodes: an address maps to the node there, or to nothing. Reading or writing through
  an address that holds no node is the result \<open>None\<close>, so that a theorem that an operation
  returns \<open>Some\<close> also says that it dereferences valid nodes only. Every assignment of the C
  code is one store, in the order of the source, which is what makes the aliasing of a
  one-element list come out right.

  The lemmas show that the operations implement sequences (\<open>dlist\<close> relates a list head to the
  sequence of its entries), stated as the interface \<open>sequence_store\<close>; the other theories use
  sequences of addresses for the program's lists on the strength of it. The last part treats the
  loop \<open>LMK_FOR_EACH_ENTRY\<close> with \<open>LMK_SAVE_CURSOR\<close> and \<open>LMK_RESTORE_CURSOR\<close> around a body that
  unlinks the entry it is at, by which the program tears its lists down.
\<close>

section \<open>Nodes and stores\<close>

type_synonym addr = nat

abbreviation NULL :: addr where
  "NULL \<equiv> 0"

record lmk_list =
  node_next :: addr
  node_prev :: addr

type_synonym store = "addr \<rightharpoonup> lmk_list"

definition load_next :: "store \<Rightarrow> addr \<Rightarrow> addr option" where
  "load_next h a = map_option node_next (h a)"

definition load_prev :: "store \<Rightarrow> addr \<Rightarrow> addr option" where
  "load_prev h a = map_option node_prev (h a)"

definition store_next :: "store \<Rightarrow> addr \<Rightarrow> addr \<Rightarrow> store option" where
  "store_next h a v = map_option (\<lambda>n. h(a \<mapsto> n\<lparr>node_next := v\<rparr>)) (h a)"

definition store_prev :: "store \<Rightarrow> addr \<Rightarrow> addr \<Rightarrow> store option" where
  "store_prev h a v = map_option (\<lambda>n. h(a \<mapsto> n\<lparr>node_prev := v\<rparr>)) (h a)"

section \<open>Operations\<close>

definition lmk_init_list :: "store \<Rightarrow> addr \<Rightarrow> store option" where
  "lmk_init_list h l =
     (if l \<noteq> NULL then do { h \<leftarrow> store_prev h l l; store_next h l l } else Some h)"

definition lmk_is_list_empty :: "store \<Rightarrow> addr \<Rightarrow> bool option" where
  "lmk_is_list_empty h l =
     (if l \<noteq> NULL then do { n \<leftarrow> load_next h l; Some (n = l) } else Some False)"

definition lmk_insert_list :: "store \<Rightarrow> addr \<Rightarrow> addr \<Rightarrow> store option" where
  "lmk_insert_list h l e =
     (if l \<noteq> NULL \<and> e \<noteq> NULL then do {
        p \<leftarrow> load_prev h l;
        h \<leftarrow> store_prev h e p;
        h \<leftarrow> store_next h e l;
        p \<leftarrow> load_prev h l;
        h \<leftarrow> store_next h p e;
        store_prev h l e
      } else Some h)"

definition lmk_remove_list :: "store \<Rightarrow> addr \<Rightarrow> store option" where
  "lmk_remove_list h e =
     (if e \<noteq> NULL then do {
        n \<leftarrow> load_next h e;
        if n \<noteq> e then do {
          p \<leftarrow> load_prev h e;
          n \<leftarrow> load_next h e;
          h \<leftarrow> store_next h p n;
          n \<leftarrow> load_next h e;
          p \<leftarrow> load_prev h e;
          store_prev h n p
        } else Some h
      } else Some h)"

text \<open>The counting loop of \<open>lmk_get_list_size\<close>; \<open>size_t\<close> wraps.\<close>

partial_function (option) list_size_loop :: "store \<Rightarrow> addr \<Rightarrow> addr \<Rightarrow> u64 \<Rightarrow> u64 option" where
  "list_size_loop h l cursor n =
     (if cursor \<noteq> l then do { c \<leftarrow> load_next h cursor; list_size_loop h l c (n + 1) } else Some n)"

definition lmk_get_list_size :: "store \<Rightarrow> addr \<Rightarrow> u64 option" where
  "lmk_get_list_size h l =
     (if l \<noteq> NULL then do { c \<leftarrow> load_next h l; list_size_loop h l c 0 } else Some 0)"

text \<open>
  \<open>LMK_FOR_EACH_ENTRY\<close> with a body between \<open>LMK_SAVE_CURSOR\<close> and \<open>LMK_RESTORE_CURSOR\<close>: the
  predecessor is saved before the body runs, and the loop goes on from its successor after it.
  \<open>hp\<close> selects the store of nodes from the state the body works on.
\<close>

partial_function (option) for_each_saved ::
  "('s \<Rightarrow> store) \<Rightarrow> (addr \<Rightarrow> 's \<Rightarrow> 's option) \<Rightarrow> addr \<Rightarrow> addr \<Rightarrow> 's \<Rightarrow> 's option" where
  "for_each_saved hp body l cursor s =
     (if cursor \<noteq> l then do {
        saved \<leftarrow> load_prev (hp s) cursor;
        s \<leftarrow> body cursor s;
        c \<leftarrow> load_next (hp s) saved;
        for_each_saved hp body l c s
      } else Some s)"

section \<open>Sequences\<close>

text \<open>Each node of the path points to its successor, and back.\<close>

fun linked :: "store \<Rightarrow> addr list \<Rightarrow> bool" where
  "linked h (a # b # r) \<longleftrightarrow> load_next h a = Some b \<and> load_prev h b = Some a \<and> linked h (b # r)"
| "linked h _ \<longleftrightarrow> True"

definition dlist :: "store \<Rightarrow> addr \<Rightarrow> addr list \<Rightarrow> bool" where
  "dlist h l xs \<longleftrightarrow> distinct (l # xs) \<and> NULL \<notin> set (l # xs) \<and> linked h (l # xs @ [l])"

lemmas access_simps = load_next_def load_prev_def store_next_def store_prev_def

lemma store_simps [simp]:
  "store_next h a v = Some h' \<Longrightarrow> load_next h' b = (if b = a then Some v else load_next h b)"
  "store_next h a v = Some h' \<Longrightarrow> load_prev h' b = load_prev h b"
  "store_prev h a v = Some h' \<Longrightarrow> load_prev h' b = (if b = a then Some v else load_prev h b)"
  "store_prev h a v = Some h' \<Longrightarrow> load_next h' b = load_next h b"
  by (auto simp: access_simps split: if_splits)

lemma store_defined:
  "h a \<noteq> None \<Longrightarrow> \<exists>h'. store_next h a v = Some h' \<and> (\<forall>b. b \<noteq> a \<longrightarrow> h' b = h b)"
  "h a \<noteq> None \<Longrightarrow> \<exists>h'. store_prev h a v = Some h' \<and> (\<forall>b. b \<noteq> a \<longrightarrow> h' b = h b)"
  by (auto simp: access_simps)

lemma store_dom:
  "store_next h a v = Some h' \<Longrightarrow> (h' b = None) = (h b = None)"
  "store_prev h a v = Some h' \<Longrightarrow> (h' b = None) = (h b = None)"
  by (auto simp: access_simps split: if_splits)

lemma load_defined: "load_next h a = Some v \<Longrightarrow> h a \<noteq> None" "load_prev h a = Some v \<Longrightarrow> h a \<noteq> None"
  by (auto simp: access_simps)

lemma linked_append:
  "linked h (xs @ a # ys) \<longleftrightarrow> linked h (xs @ [a]) \<and> linked h (a # ys)"
  by (induction xs rule: induct_list012) auto

lemma linked_prefix: "linked h (xs @ ys) \<Longrightarrow> linked h xs"
  by (induction xs rule: induct_list012) auto

lemma linked_frame:
  assumes "\<And>a. a \<in> set (butlast xs) \<Longrightarrow> load_next h' a = load_next h a"
    and "\<And>a. a \<in> set (tl xs) \<Longrightarrow> load_prev h' a = load_prev h a"
  shows "linked h' xs = linked h xs"
  using assms by (induction xs rule: induct_list012) auto


lemma dlist_ends:
  assumes "dlist h l xs"
  shows "load_prev h l = Some (last (l # xs))" "load_next h (last (l # xs)) = Some l"
    "load_next h l = Some (hd (xs @ [l]))"
proof -
  have "linked h (butlast (l # xs) @ last (l # xs) # [l])"
    using assms append_butlast_last_id [of "l # xs"] unfolding dlist_def
    by (metis append.assoc append_Cons append_Nil list.distinct(1))
  then show "load_prev h l = Some (last (l # xs))" "load_next h (last (l # xs)) = Some l"
    using linked_append [of h "butlast (l # xs)" "last (l # xs)" "[l]"] by (simp_all del: last.simps butlast.simps)
  show "load_next h l = Some (hd (xs @ [l]))"
    using assms by (cases xs) (auto simp: dlist_def)
qed

lemma dlist_init:
  assumes "l \<noteq> NULL" "h l \<noteq> None"
  shows "\<exists>h'. lmk_init_list h l = Some h' \<and> dlist h' l [] \<and> (\<forall>a. a \<noteq> l \<longrightarrow> h' a = h a)"
  using assms by (auto simp: lmk_init_list_def dlist_def access_simps)

lemma dlist_empty: "dlist h l xs \<Longrightarrow> lmk_is_list_empty h l = Some (xs = [])"
  using dlist_ends(3) [of h l xs] by (cases xs) (auto simp: lmk_is_list_empty_def dlist_def)

lemma dlist_insert:
  assumes "dlist h l xs" "e \<notin> set (l # xs)" "e \<noteq> NULL" "h e \<noteq> None"
  shows "\<exists>h'. lmk_insert_list h l e = Some h' \<and> dlist h' l (xs @ [e]) \<and>
    (\<forall>a. a \<notin> set (e # l # xs) \<longrightarrow> h' a = h a)"
proof -
  define p us where "p = last (l # xs)" and "us = butlast (l # xs)"
  have us: "l # xs = us @ [p]" by (simp add: p_def us_def)
  note ends = dlist_ends [OF assms(1), folded p_def]
  have "p \<in> set (l # xs)" unfolding us by simp
  then have pe: "p \<noteq> e" "l \<noteq> e" "p \<in> set (l # xs)" using assms(2) by auto
  obtain h1 where h1: "store_prev h e p = Some h1" "\<And>b. b \<noteq> e \<Longrightarrow> h1 b = h b"
    using store_defined(2) [of h e p] assms(4) by blast
  obtain h2 where h2: "store_next h1 e l = Some h2" "\<And>b. b \<noteq> e \<Longrightarrow> h2 b = h1 b"
    using store_defined(1) [of h1 e l] store_dom(2) [OF h1(1)] assms(4) by metis
  obtain h3 where h3: "store_next h2 p e = Some h3" "\<And>b. b \<noteq> p \<Longrightarrow> h3 b = h2 b"
    using store_defined(1) [of h2 p e] h1(2) h2(2) pe(1) load_defined(1) [OF ends(2)] by metis
  obtain h4 where h4: "store_prev h3 l e = Some h4" "\<And>b. b \<noteq> l \<Longrightarrow> h4 b = h3 b"
    using store_defined(2) [of h3 l e] store_dom(1) [OF h3(1)] h1(2) h2(2) pe(2) load_defined(2) [OF ends(1)] by metis
  have run: "lmk_insert_list h l e = Some h4"
    using assms(1,3) ends(1) pe h1 h2 h3 h4 by (simp add: lmk_insert_list_def dlist_def)
  have nxt: "load_next h4 b = (if b = p then Some e else if b = e then Some l else load_next h b)"
    and prv: "load_prev h4 b = (if b = l then Some e else if b = e then Some p else load_prev h b)" for b
    using pe h1 h2 h3 h4 by auto
  have d: "distinct (us @ [p])" "NULL \<notin> set (l # xs)" "linked h (us @ [p])" "e \<notin> set (us @ [p])"
    using assms(1,2) linked_prefix [of h "l # xs" "[l]"] unfolding us [symmetric] by (simp_all add: dlist_def)
  have "p \<notin> set us" using d(1) by simp
  moreover have "l \<notin> set (tl (us @ [p]))" using assms(1) unfolding us [symmetric] by (simp add: dlist_def)
  ultimately have out: "l \<notin> set (tl (us @ [p]))" "p \<notin> set us" by blast+
  have "e \<notin> set (tl (us @ [p]))" using d(4) list.set_sel(2) [of "us @ [p]" e] by blast
  then have "linked h4 (us @ [p])"
    using d out by (subst linked_frame [of _ _ h]) (auto simp: nxt prv)
  then have "linked h4 (us @ p # [e, l])"
    using pe linked_append [of h4 us p "[e, l]"] by (simp add: nxt prv)
  then have "linked h4 (l # (xs @ [e]) @ [l])"
    using us by (metis append.assoc append_Cons append_Nil)
  then have "dlist h4 l (xs @ [e])"
    using assms(1-3) by (auto simp: dlist_def)
  moreover have "h4 a = h a" if "a \<notin> set (e # l # xs)" for a
    using that h1 h2 h3 h4 pe(3) by (metis list.set_intros)
  ultimately show ?thesis using run by blast
qed


lemma dlist_remove:
  assumes "dlist h l (xs @ e # ys)"
  shows "\<exists>h'. lmk_remove_list h e = Some h' \<and> dlist h' l (xs @ ys) \<and>
    (\<forall>a. a \<notin> set (l # xs @ ys) \<longrightarrow> h' a = h a)"
proof -
  define p us where "p = last (l # xs)" and "us = butlast (l # xs)"
  define n vs where "n = hd (ys @ [l])" and "vs = tl (ys @ [l])"
  have us: "l # xs = us @ [p]" by (simp add: p_def us_def)
  have vs: "ys @ [l] = n # vs" by (simp add: n_def vs_def)
  have dis: "distinct (l # xs @ e # ys)" "NULL \<notin> set (l # xs @ e # ys)"
    using assms by (simp_all add: dlist_def)
  have "linked h ((us @ [p]) @ e # (n # vs))"
    using assms unfolding dlist_def us [symmetric] vs [symmetric] by simp
  then have seg: "linked h (us @ [p])" "load_next h p = Some e" "load_prev h e = Some p"
    "load_next h e = Some n" "load_prev h n = Some e" "linked h (n # vs)"
    using linked_append [of h us p "e # n # vs"] by (simp_all)
  have pn: "p \<in> set (l # xs)" "n \<in> set (l # ys)" unfolding us using vs by (auto simp: n_def hd_append)
  have ne: "p \<noteq> e" "n \<noteq> e" using pn dis by auto
  obtain h1 where h1: "store_next h p n = Some h1" "\<And>b. b \<noteq> p \<Longrightarrow> h1 b = h b"
    using store_defined(1) [of h p n] load_defined(1) [OF seg(2)] by blast
  obtain h2 where h2: "store_prev h1 n p = Some h2" "\<And>b. b \<noteq> n \<Longrightarrow> h2 b = h1 b"
    using store_defined(2) [of h1 n p] store_dom(1) [OF h1(1)] load_defined(2) [OF seg(5)] by metis
  have run: "lmk_remove_list h e = Some h2"
    using dis seg ne h1 h2 by (simp add: lmk_remove_list_def)
  have nxt: "load_next h2 b = (if b = p then Some n else load_next h b)"
    and prv: "load_prev h2 b = (if b = n then Some p else load_prev h b)" for b
    using h1 h2 by auto
  have out: "p \<notin> set us" "n \<notin> set (tl (us @ [p]))" "p \<notin> set (butlast (n # vs))" "n \<notin> set vs"
  proof -
    show "p \<notin> set us" using dis us by (metis distinct.simps(2) distinct_append not_distinct_conv_prefix append.assoc append_Cons)
    show "n \<notin> set (tl (us @ [p]))" unfolding us [symmetric] using pn dis by auto
    show "p \<notin> set (butlast (n # vs))" unfolding vs [symmetric] using pn dis by auto
    show "n \<notin> set vs" using dis vs by (cases ys) auto
  qed
  have "linked h2 (us @ [p])" "linked h2 (n # vs)"
    using seg out by (subst linked_frame [of _ _ h]; auto simp: nxt prv)+
  then have "linked h2 (us @ p # n # vs)"
    using linked_append [of h2 us p "n # vs"] by (simp add: nxt prv)
  then have "linked h2 ((l # xs) @ ys @ [l])" unfolding us vs by simp
  then have "dlist h2 l (xs @ ys)" using dis by (simp add: dlist_def)
  moreover have "h2 a = h a" if "a \<notin> set (l # xs @ ys)" for a
    using that h1(2) h2(2) pn by (metis UnCI list.set_intros(1,2) set_ConsD set_append)
  ultimately show ?thesis using run by blast
qed

text \<open>Traversals.\<close>

lemma list_size_loop_linked:
  "linked h (cs @ [l]) \<Longrightarrow> l \<notin> set cs \<Longrightarrow>
    list_size_loop h l (hd (cs @ [l])) n = Some (n + of_nat (length cs))"
proof (induction cs arbitrary: n)
  case Nil
  then show ?case by (simp add: list_size_loop.simps)
next
  case (Cons c cs)
  then have "load_next h c = Some (hd (cs @ [l]))" "linked h (cs @ [l])" by (cases cs; simp)+
  with Cons show ?case by (subst list_size_loop.simps) (simp add: add.assoc)
qed

lemma dlist_size: "dlist h l xs \<Longrightarrow> lmk_get_list_size h l = Some (of_nat (length xs))"
  using dlist_ends(3) [of h l xs] list_size_loop_linked [of h xs l 0]
  by (cases xs) (auto simp: lmk_get_list_size_def dlist_def)


section \<open>The interface of a sequence\<close>

datatype list_op = Insert addr | Remove addr

fun run_list_op :: "('h \<Rightarrow> addr \<Rightarrow> addr \<Rightarrow> 'h option) \<Rightarrow> ('h \<Rightarrow> addr \<Rightarrow> 'h option) \<Rightarrow> addr \<Rightarrow> list_op \<Rightarrow> 'h \<Rightarrow> 'h option" where
  "run_list_op ins rem l (Insert e) h = ins h l e"
| "run_list_op ins rem l (Remove e) h = rem h e"

fun run_list_ops :: "('h \<Rightarrow> addr \<Rightarrow> addr \<Rightarrow> 'h option) \<Rightarrow> ('h \<Rightarrow> addr \<Rightarrow> 'h option) \<Rightarrow> addr \<Rightarrow> list_op list \<Rightarrow> 'h \<Rightarrow> 'h option" where
  "run_list_ops ins rem l [] h = Some h"
| "run_list_ops ins rem l (op # ops) h = do { h \<leftarrow> run_list_op ins rem l op h; run_list_ops ins rem l ops h }"

text \<open>What the operations mean for a sequence, and which of them a client may call.\<close>

fun spec_list_op :: "list_op \<Rightarrow> addr list \<Rightarrow> addr list" where
  "spec_list_op (Insert e) xs = xs @ [e]"
| "spec_list_op (Remove e) xs = remove1 e xs"

fun op_allowed :: "addr set \<Rightarrow> list_op \<Rightarrow> addr list \<Rightarrow> bool" where
  "op_allowed nodes (Insert e) xs \<longleftrightarrow> e \<in> nodes \<and> e \<notin> set xs"
| "op_allowed nodes (Remove e) xs \<longleftrightarrow> e \<in> set xs"

fun ops_allowed :: "addr set \<Rightarrow> list_op list \<Rightarrow> addr list \<Rightarrow> bool" where
  "ops_allowed nodes [] xs \<longleftrightarrow> True"
| "ops_allowed nodes (op # ops) xs \<longleftrightarrow> op_allowed nodes op xs \<and> ops_allowed nodes ops (spec_list_op op xs)"

locale sequence_store =
  fixes seq :: "'h \<Rightarrow> addr \<Rightarrow> addr list \<Rightarrow> bool"
    and avail :: "'h \<Rightarrow> addr \<Rightarrow> bool"
    and ins :: "'h \<Rightarrow> addr \<Rightarrow> addr \<Rightarrow> 'h option"
    and rem :: "'h \<Rightarrow> addr \<Rightarrow> 'h option"
  assumes insert_law: "seq h l xs \<Longrightarrow> avail h e \<Longrightarrow> e \<notin> set (l # xs) \<Longrightarrow>
      \<exists>h'. ins h l e = Some h' \<and> seq h' l (xs @ [e]) \<and> (\<forall>a. avail h' a = avail h a) \<and>
        (\<forall>l' ys. seq h l' ys \<and> set (l' # ys) \<inter> set (e # l # xs) = {} \<longrightarrow> seq h' l' ys)"
    and remove_law: "seq h l (xs @ e # ys) \<Longrightarrow>
      \<exists>h'. rem h e = Some h' \<and> seq h' l (xs @ ys) \<and> (\<forall>a. avail h' a = avail h a) \<and>
        (\<forall>l' zs. seq h l' zs \<and> set (l' # zs) \<inter> set (l # xs @ e # ys) = {} \<longrightarrow> seq h' l' zs)"
    and seq_distinct: "seq h l xs \<Longrightarrow> distinct xs"
begin

text \<open>Any allowed series of insertions and removals on one list has the effect it has on a
  sequence, and leaves every other list of the store as it is.\<close>

lemma run_list_ops_spec:
  assumes "seq h l xs" "ops_allowed nodes ops xs" "\<And>a. a \<in> nodes \<Longrightarrow> avail h a \<and> a \<noteq> l"
    and "seq h l' ys" "set (l' # ys) \<inter> (set (l # xs) \<union> nodes) = {}"
  shows "\<exists>h'. run_list_ops ins rem l ops h = Some h' \<and> seq h' l (fold spec_list_op ops xs) \<and> seq h' l' ys"
  using assms
proof (induction ops arbitrary: h xs)
  case Nil
  then show ?case by simp
next
  case (Cons op ops)
  have "\<exists>h1. run_list_op ins rem l op h = Some h1 \<and> seq h1 l (spec_list_op op xs) \<and> (\<forall>a. avail h1 a = avail h a) \<and>
      seq h1 l' ys \<and> set (spec_list_op op xs) \<subseteq> set xs \<union> nodes"
  proof (cases op)
    case (Insert e)
    then have e: "avail h e" "e \<notin> set (l # xs)" "e \<in> nodes" using Cons.prems(2,3) by auto
    have "set (l' # ys) \<inter> set (e # l # xs) = {}" using Cons.prems(5) e(3) by auto
    with insert_law [OF Cons.prems(1) e(1,2)] Cons.prems(4) Insert e(3) show ?thesis by fastforce
  next
    case (Remove e)
    then obtain us vs where xs: "xs = us @ e # vs" "e \<notin> set us" using Cons.prems(2) by (auto dest: split_list_first)
    have "set (l' # ys) \<inter> set (l # us @ e # vs) = {}" using Cons.prems(5) xs by auto
    with remove_law [OF Cons.prems(1) [unfolded xs]] Cons.prems(4) Remove xs show ?thesis
      by (fastforce simp: remove1_append)
  qed
  then obtain h1 where h1: "run_list_op ins rem l op h = Some h1" "seq h1 l (spec_list_op op xs)"
    "\<forall>a. avail h1 a = avail h a" "seq h1 l' ys" "set (spec_list_op op xs) \<subseteq> set xs \<union> nodes" by blast
  have "ops_allowed nodes ops (spec_list_op op xs)" using Cons.prems(2) by simp
  moreover have "set (l' # ys) \<inter> (set (l # spec_list_op op xs) \<union> nodes) = {}" using Cons.prems(5) h1(5) by auto
  ultimately show ?case using Cons.IH [OF h1(2) _ _ h1(4)] Cons.prems(3) h1(1,3) by auto
qed

end

lemma dlist_frame:
  assumes "dlist h l xs" "\<And>a. a \<in> set (l # xs) \<Longrightarrow> h' a = h a"
  shows "dlist h' l xs"
proof -
  have "linked h' (l # xs @ [l]) = linked h (l # xs @ [l])"
    using assms(2) by (intro linked_frame) (auto simp: access_simps butlast_append split: if_splits)
  then show ?thesis using assms(1) by (simp add: dlist_def)
qed

lemma dlist_frame_disjoint:
  assumes "dlist h l xs" "\<And>a. a \<notin> S \<Longrightarrow> h' a = h a" "set (l # xs) \<inter> S = {}"
  shows "dlist h' l xs"
  using assms(1) by (rule dlist_frame) (use assms(2,3) in blast)

definition available :: "store \<Rightarrow> addr \<Rightarrow> bool" where
  "available h a \<longleftrightarrow> a \<noteq> NULL \<and> h a \<noteq> None"

lemma insert_list_dom: "lmk_insert_list h l e = Some h' \<Longrightarrow> available h' a = available h a"
  by (auto simp del: not_None_eq simp add: available_def lmk_insert_list_def store_dom split: if_splits Option.bind_splits)

lemma remove_list_dom: "lmk_remove_list h e = Some h' \<Longrightarrow> available h' a = available h a"
  by (auto simp del: not_None_eq simp add: available_def lmk_remove_list_def store_dom split: if_splits Option.bind_splits)

interpretation ll: sequence_store dlist available lmk_insert_list lmk_remove_list
proof
  fix h l xs e
  assume a: "dlist h l xs" "available h e" "e \<notin> set (l # xs)"
  then obtain h' where h': "lmk_insert_list h l e = Some h'" "dlist h' l (xs @ [e])"
    "\<And>a. a \<notin> set (e # l # xs) \<Longrightarrow> h' a = h a"
    using dlist_insert [OF a(1,3)] by (auto simp: available_def)
  then show "\<exists>h'. lmk_insert_list h l e = Some h' \<and> dlist h' l (xs @ [e]) \<and> (\<forall>a. available h' a = available h a) \<and>
      (\<forall>l' ys. dlist h l' ys \<and> set (l' # ys) \<inter> set (e # l # xs) = {} \<longrightarrow> dlist h' l' ys)"
    using insert_list_dom [OF h'(1)] dlist_frame_disjoint [of h _ _ "set (e # l # xs)" h'] by blast
next
  fix h l xs e ys
  assume a: "dlist h l (xs @ e # ys)"
  then obtain h' where h': "lmk_remove_list h e = Some h'" "dlist h' l (xs @ ys)"
    "\<And>a. a \<notin> set (l # xs @ ys) \<Longrightarrow> h' a = h a"
    using dlist_remove [OF a] by blast
  have sub: "set (l # xs @ ys) \<subseteq> set (l # xs @ e # ys)" by auto
  show "\<exists>h'. lmk_remove_list h e = Some h' \<and> dlist h' l (xs @ ys) \<and> (\<forall>a. available h' a = available h a) \<and>
      (\<forall>l' zs. dlist h l' zs \<and> set (l' # zs) \<inter> set (l # xs @ e # ys) = {} \<longrightarrow> dlist h' l' zs)"
    using remove_list_dom [OF h'(1)] dlist_frame_disjoint [of h _ _ "set (l # xs @ ys)" h'] sub h' by blast
qed (simp add: dlist_def)

section \<open>Tearing a list down\<close>

text \<open>If the body unlinks the entry it is given (and may do anything else), the loop with the
  saved cursor runs it once on every entry, in order, and ends.\<close>

lemma for_each_saved_unlinks:
  assumes body: "\<And>e es s. dlist (hp s) l (e # es) \<Longrightarrow> I s \<Longrightarrow>
      \<exists>s'. body e s = Some s' \<and> dlist (hp s') l es \<and> I s' \<and> s' = f e s"
    and "dlist (hp s) l xs" "I s"
  shows "for_each_saved hp body l (hd (xs @ [l])) s = Some (fold f xs s) \<and>
    dlist (hp (fold f xs s)) l [] \<and> I (fold f xs s)"
  using assms(2,3)
proof (induction xs arbitrary: s)
  case Nil
  then show ?case by (simp add: for_each_saved.simps)
next
  case (Cons e es)
  from body [OF Cons.prems] have s': "body e s = Some (f e s)" "dlist (hp (f e s)) l es" "I (f e s)" by auto
  have "load_prev (hp s) e = Some l" "e \<noteq> l" using Cons.prems(1) by (auto simp: dlist_def)
  moreover have "load_next (hp (f e s)) l = Some (hd (es @ [l]))" by (rule dlist_ends(3) [OF s'(2)])
  ultimately show ?case
    using Cons.IH [OF s'(2,3)] s'(1) by (subst for_each_saved.simps) simp
qed


section \<open>Properties\<close>

text \<open>
  C12. The list operations of \<open>logmoko_list.c\<close> implement sequences: from a well-formed list, any
  series of insertions of nodes that are not in the list and removals of nodes that are
  dereferences valid nodes only and ends in a well-formed list that holds what the same series
  gives on a sequence (insertion at the end, removal of the entry), \<open>lmk_get_list_size\<close> and
  \<open>lmk_is_list_empty\<close> report its size and emptiness, and a list that shares no node with it is
  left as it is.
\<close>

theorem linked_list_refines_sequence:
  assumes "dlist h l xs" "ops_allowed nodes ops xs" "\<forall>a\<in>nodes. available h a \<and> a \<noteq> l"
    and "dlist h l' ys" "set (l' # ys) \<inter> (set (l # xs) \<union> nodes) = {}"
  shows "\<exists>h'. run_list_ops lmk_insert_list lmk_remove_list l ops h = Some h' \<and>
    dlist h' l (fold spec_list_op ops xs) \<and> dlist h' l' ys \<and>
    lmk_get_list_size h' l = Some (of_nat (length (fold spec_list_op ops xs))) \<and>
    lmk_is_list_empty h' l = Some (fold spec_list_op ops xs = [])"
proof -
  from ll.run_list_ops_spec [OF assms(1,2) _ assms(4,5)] assms(3)
  obtain h' where "run_list_ops lmk_insert_list lmk_remove_list l ops h = Some h'"
    "dlist h' l (fold spec_list_op ops xs)" "dlist h' l' ys" by auto
  then show ?thesis using dlist_size dlist_empty by simp
qed

text \<open>Two list heads at 1 and 2, entries at 3, 4 and 5.\<close>

definition sample_store :: store where
  "sample_store = (\<lambda>a. if a \<in> {1, 2} then Some \<lparr>node_next = a, node_prev = a\<rparr>
     else if a \<in> {3, 4, 5} then Some \<lparr>node_next = 0, node_prev = 0\<rparr> else None)"

theorem linked_list_refines_sequence_witness:
  "dlist sample_store 1 [] \<and> dlist sample_store 2 [] \<and>
   (\<exists>h'. run_list_ops lmk_insert_list lmk_remove_list 1 [Insert 3, Insert 4, Insert 5, Remove 4, Remove 3] sample_store = Some h' \<and>
      dlist h' 1 [5] \<and> dlist h' 2 [] \<and> lmk_get_list_size h' 1 = Some 1)"
proof -
  have d: "dlist sample_store 1 []" "dlist sample_store 2 []"
    by (simp_all add: dlist_def sample_store_def access_simps)
  have "ops_allowed {3, 4, 5} [Insert 3, Insert 4, Insert 5, Remove 4, Remove 3] []" by simp
  moreover have "\<forall>a\<in>{3, 4, 5}. available sample_store a \<and> a \<noteq> 1" by (simp add: available_def sample_store_def)
  moreover have "set [2] \<inter> (set [1] \<union> {3, 4, 5 :: addr}) = {}" by simp
  ultimately show ?thesis
    using linked_list_refines_sequence [OF d(1) _ _ d(2), of "{3, 4, 5}" "[Insert 3, Insert 4, Insert 5, Remove 4, Remove 3]"] d
    by (simp del: run_list_ops.simps) blast
qed

text \<open>
  C13. Tearing a list down while walking it: the loop with a saved cursor around a body that
  unlinks the entry it is at terminates, dereferences valid nodes only and leaves the list empty.
\<close>

theorem saved_cursor_clears_list:
  assumes "dlist h l xs"
  shows "\<exists>h'. for_each_saved id (\<lambda>e h. lmk_remove_list h e) l (hd (xs @ [l])) h = Some h' \<and> dlist h' l []"
proof -
  have "\<exists>s'. lmk_remove_list s e = Some s' \<and> dlist s' l es \<and> True \<and> s' = the (lmk_remove_list s e)"
    if "dlist s l (e # es)" for e es s
    using dlist_remove [of s l "[]" e es] that by auto
  with for_each_saved_unlinks [where hp = id and body = "\<lambda>e h. lmk_remove_list h e" and I = "\<lambda>_. True"
      and f = "\<lambda>e h. the (lmk_remove_list h e)" and l = l and s = h and xs = xs] assms
  show ?thesis by auto
qed

theorem saved_cursor_clears_list_witness:
  "\<exists>h h'. dlist h 1 [3, 4] \<and> for_each_saved id (\<lambda>e h. lmk_remove_list h e) 1 3 h = Some h' \<and> dlist h' 1 []"
proof -
  have d: "dlist sample_store 1 []" by (simp add: dlist_def sample_store_def access_simps)
  have "\<exists>h. dlist h 1 [3, 4]"
    by (rule exI [of _ "sample_store(1 \<mapsto> \<lparr>node_next = 3, node_prev = 4\<rparr>, 3 \<mapsto> \<lparr>node_next = 4, node_prev = 1\<rparr>,
        4 \<mapsto> \<lparr>node_next = 1, node_prev = 3\<rparr>)"]) (simp add: dlist_def access_simps)
  then obtain h where "dlist h 1 [3, 4]" by blast
  with saved_cursor_clears_list [OF this] show ?thesis by auto
qed

end
