(* ===== verification/C_Library.thy ===== *)
theory C_Library
  imports Prelude
begin

text \<open>
  The functions of the C library that the program's own code calls on strings: character
  classes and case-insensitive comparison in the \<open>"C"\<close> locale, searching and prefix tests,
  \<open>strncpy\<close> into a zeroed array, \<open>atoi\<close>, the conversions of \<open>snprintf\<close> that the formatters use,
  and \<open>snprintf\<close>'s treatment of its buffer. A C string is a list of characters without \<open>NUL\<close>.
\<close>

section \<open>Characters and comparison\<close>

definition isspace :: "char \<Rightarrow> bool" where
  "isspace c \<longleftrightarrow> c \<in> {CHR '' '', CHR 0x09, CHR 0x0A, CHR 0x0B, CHR 0x0C, CHR 0x0D}"

definition tolower :: "char \<Rightarrow> char" where
  "tolower c = (case map_of (zip ''ABCDEFGHIJKLMNOPQRSTUVWXYZ'' ''abcdefghijklmnopqrstuvwxyz'') c of
     Some d \<Rightarrow> d | None \<Rightarrow> c)"

text \<open>\<open>!strcasecmp(a, b)\<close>.\<close>

definition strcaseeq :: "string \<Rightarrow> string \<Rightarrow> bool" where
  "strcaseeq a b \<longleftrightarrow> map tolower a = map tolower b"

text \<open>\<open>!strncmp(s, prefix, strlen(prefix))\<close>.\<close>

definition starts_with :: "string \<Rightarrow> string \<Rightarrow> bool" where
  "starts_with prefix s \<longleftrightarrow> take (length prefix) s = prefix"

text \<open>\<open>strchr\<close>: the text before the first occurrence and the text after it.\<close>

fun split_at_char :: "char \<Rightarrow> string \<Rightarrow> (string \<times> string) option" where
  "split_at_char c [] = None"
| "split_at_char c (x # xs) =
     (if x = c then Some ([], xs) else map_option (\<lambda>(a, b). (x # a, b)) (split_at_char c xs))"

text \<open>\<open>strncpy(dst, src, n - 1)\<close> into an array of \<open>n\<close> bytes that is zero to begin with.\<close>

definition strncpy_into :: "nat \<Rightarrow> string \<Rightarrow> string" where
  "strncpy_into n src = take (n - 1) src"

text \<open>The tokens \<open>strtok_r(s, ",", _)\<close> returns: the maximal non-empty runs without the separator.\<close>

fun strtok_all :: "char \<Rightarrow> string \<Rightarrow> string \<Rightarrow> string list" where
  "strtok_all sep acc [] = (if acc = [] then [] else [acc])"
| "strtok_all sep acc (x # xs) =
     (if x = sep then (if acc = [] then [] else [acc]) @ strtok_all sep [] xs
      else strtok_all sep (acc @ [x]) xs)"

lemma split_at_char_Some: "split_at_char c s = Some (a, b) \<Longrightarrow> s = a @ c # b \<and> c \<notin> set a"
  by (induction s arbitrary: a b) (auto split: if_splits)

lemma split_at_char_None: "split_at_char c s = None \<longleftrightarrow> c \<notin> set s"
  by (induction s) auto

lemma split_at_char_append: "c \<notin> set a \<Longrightarrow> split_at_char c (a @ c # b) = Some (a, b)"
  by (induction a) auto

lemma length_strncpy_into: "0 < n \<Longrightarrow> length (strncpy_into n s) < n"
  by (auto simp: strncpy_into_def)

lemma strtok_all_sep: "t \<in> set (strtok_all sep acc s) \<Longrightarrow> sep \<notin> set acc \<Longrightarrow> t \<noteq> [] \<and> sep \<notin> set t"
  by (induction sep acc s rule: strtok_all.induct) (auto split: if_splits)

section \<open>Decimal numbers\<close>

definition digit_char :: "nat \<Rightarrow> char" where
  "digit_char d = ''0123456789'' ! d"

fun dec_nat :: "nat \<Rightarrow> string" where
  "dec_nat n = (if n < 10 then [digit_char n] else dec_nat (n div 10) @ [digit_char (n mod 10)])"

declare dec_nat.simps [simp del]

text \<open>The conversion \<open>%d\<close>.\<close>

definition dec_int :: "int \<Rightarrow> string" where
  "dec_int i = (if i < 0 then CHR ''-'' # dec_nat (nat (- i)) else dec_nat (nat i))"

definition is_digit :: "char \<Rightarrow> bool" where
  "is_digit c \<longleftrightarrow> 48 \<le> (of_char c :: nat) \<and> (of_char c :: nat) \<le> 57"

definition digit_val :: "char \<Rightarrow> nat" where
  "digit_val c = of_char c - 48"

definition digits_val :: "string \<Rightarrow> nat" where
  "digits_val s = foldl (\<lambda>n c. 10 * n + digit_val c) 0 (takeWhile is_digit s)"

text \<open>The number at the start of a string: leading white space, an optional sign, digits; anything
  else ends the number.\<close>

definition dec_value :: "string \<Rightarrow> int" where
  "dec_value s = (let s = dropWhile isspace s
     in case s of
          [] \<Rightarrow> 0
        | c # r \<Rightarrow> (if c = CHR ''-'' then - int (digits_val r)
                   else if c = CHR ''+'' then int (digits_val r)
                   else int (digits_val s)))"

text \<open>The conversion of an integer to \<open>int\<close>, in two's complement.\<close>

definition c_int :: "int \<Rightarrow> int" where
  "c_int i = sint (of_int i :: 32 word)"

text \<open>\<open>strtol(s, NULL, 10)\<close>, which stops at the limits of a 64-bit \<open>long\<close>. \<open>atol\<close> and \<open>atoi\<close> are as the
  usual C libraries implement them, \<open>strtol\<close> and \<open>(int)strtol\<close>; the C standard itself leaves values
  beyond \<open>long\<close> and \<open>int\<close> undefined.\<close>

definition strtol :: "string \<Rightarrow> int" where
  "strtol s = max (- (2 ^ 63)) (min (2 ^ 63 - 1) (dec_value s))"

definition atol :: "string \<Rightarrow> int" where
  "atol s = strtol s"

definition atoi :: "string \<Rightarrow> int" where
  "atoi s = c_int (strtol s)"

definition int_range :: "int \<Rightarrow> bool" where
  "int_range i \<longleftrightarrow> - (2 ^ 31) \<le> i \<and> i < 2 ^ 31"

definition long_range :: "int \<Rightarrow> bool" where
  "long_range i \<longleftrightarrow> - (2 ^ 63) \<le> i \<and> i < 2 ^ 63"

lemma c_int_range: "int_range (c_int i)"
  using sint_greater_eq [of "of_int i :: 32 word"] sint_lt [of "of_int i :: 32 word"]
  by (simp add: c_int_def int_range_def)

lemma c_int_id:
  assumes "int_range i"
  shows "c_int i = i"
proof -
  have "c_int i = signed_take_bit (LENGTH(32) - Suc 0) i" by (simp add: c_int_def signed_of_int)
  also have "\<dots> = i" using assms by (simp add: int_range_def signed_take_bit_int_eq_self)
  finally show ?thesis .
qed

lemma atoi_range: "int_range (atoi s)" "long_range (atol s)"
  by (simp_all add: atoi_def c_int_range long_range_def atol_def strtol_def)

lemma digit_char_props [simp]:
  assumes "d < 10"
  shows "is_digit (digit_char d)" "digit_val (digit_char d) = d" "\<not> isspace (digit_char d)"
    "digit_char d \<noteq> CHR ''-''" "digit_char d \<noteq> CHR ''+''" "digit_char d \<noteq> NUL"
proof -
  have "d \<in> {0, 1, 2, 3, 4, 5, 6, 7, 8, 9}" using assms by auto
  then show "is_digit (digit_char d)" "digit_val (digit_char d) = d" "\<not> isspace (digit_char d)"
    "digit_char d \<noteq> CHR ''-''" "digit_char d \<noteq> CHR ''+''" "digit_char d \<noteq> NUL"
    by (auto simp: digit_char_def is_digit_def digit_val_def isspace_def)
qed

lemma dec_nat_digits: "list_all is_digit (dec_nat n)"
  by (induction n rule: dec_nat.induct) (subst dec_nat.simps, simp)

lemma dec_nat_nonempty [simp]: "dec_nat n \<noteq> []"
  by (subst dec_nat.simps) simp

lemma digits_val_dec_nat:
  assumes "rest = [] \<or> \<not> is_digit (hd rest)"
  shows "digits_val (dec_nat n @ rest) = n"
proof -
  have tw: "takeWhile is_digit (dec_nat n @ rest) = dec_nat n"
  proof -
    have "takeWhile is_digit (dec_nat n @ rest) = dec_nat n @ takeWhile is_digit rest"
      using dec_nat_digits [of n] by (intro takeWhile_append2) (auto simp: list_all_iff)
    also have "takeWhile is_digit rest = []" using assms by (cases rest) auto
    finally show ?thesis by simp
  qed
  have "foldl (\<lambda>n c. 10 * n + digit_val c) 0 (dec_nat n) = n"
  proof (induction n rule: dec_nat.induct)
    case (1 n)
    then show ?case by (subst dec_nat.simps) (simp add: mult.commute)
  qed
  then show ?thesis by (simp add: digits_val_def tw)
qed

lemma dec_nat_hd: "\<exists>d r. dec_nat n = digit_char d # r \<and> d < 10"
proof (induction n rule: dec_nat.induct)
  case (1 n)
  show ?case
  proof (cases "n < 10")
    case True
    then show ?thesis by (subst dec_nat.simps) auto
  next
    case False
    then show ?thesis using 1 by (subst dec_nat.simps) auto
  qed
qed

lemma dec_value_digit: "d < 10 \<Longrightarrow> dec_value (digit_char d # r) = int (digits_val (digit_char d # r))"
  by (simp add: dec_value_def)

lemma dec_value_dec_int:
  assumes "rest = [] \<or> \<not> is_digit (hd rest)"
  shows "dec_value (dec_int i @ rest) = i"
proof (cases "i < 0")
  case True
  then show ?thesis
    using digits_val_dec_nat [OF assms, of "nat (- i)"] by (simp add: dec_value_def dec_int_def isspace_def)
next
  case False
  obtain d r where dr: "dec_nat (nat i) = digit_char d # r" "d < 10" using dec_nat_hd by blast
  then have "dec_int i @ rest = digit_char d # r @ rest" using False by (simp add: dec_int_def)
  moreover have "digits_val (digit_char d # r @ rest) = nat i"
    using digits_val_dec_nat [OF assms, of "nat i"] dr(1) by simp
  ultimately show ?thesis using dec_value_digit [OF dr(2), of "r @ rest"] False by simp
qed

lemma atoi_dec_int: "int_range i \<Longrightarrow> atoi (dec_int i) = i"
  using dec_value_dec_int [of "[]" i] by (simp add: atoi_def strtol_def int_range_def min_def max_def c_int_id [unfolded int_range_def])

lemma atol_dec_int: "long_range i \<Longrightarrow> atol (dec_int i) = i"
  using dec_value_dec_int [of "[]" i] by (simp add: atol_def strtol_def long_range_def min_def max_def)

lemma NUL_dec_int [simp]: "NUL \<notin> set (dec_int i)"
proof -
  have "\<not> is_digit NUL" by (simp add: is_digit_def)
  then have "NUL \<notin> set (dec_nat n)" for n using dec_nat_digits [of n] by (auto simp: list_all_iff)
  then show ?thesis by (simp add: dec_int_def)
qed

section \<open>snprintf\<close>

text \<open>The conversion \<open>%-5s\<close>.\<close>

definition pad_right :: "nat \<Rightarrow> string \<Rightarrow> string" where
  "pad_right n s = s @ replicate (n - length s) (CHR '' '')"

text \<open>The bytes \<open>snprintf(out, out_size, ...)\<close> stores for the formatted \<open>text\<close>, and its result:
  the length the whole text needs.\<close>

definition snprintf :: "nat \<Rightarrow> string \<Rightarrow> char list \<times> int" where
  "snprintf out_size text =
     ((if out_size = 0 then [] else take (out_size - 1) text @ [NUL]), int (length text))"

lemma snprintf_bounded: "length (fst (snprintf n text)) \<le> n"
  by (auto simp: snprintf_def)

end
