(* ===== verification/Format.thy ===== *)
theory Format
  imports Ring C_Library "HOL-Library.Monad_Syntax"
begin

text \<open>
  Log levels and formatting: the level and handler-type names (\<open>logmoko.c\<close>,
  \<open>logmoko_handler.c\<close>), the three built-in line formats, the JSON escaping into a fixed
  array, and \<open>lmk_format_log_line\<close> with its per-thread timestamp cache and the clamping of
  \<open>snprintf\<close>'s result. A format function maps the size of the buffer and the nine arguments of
  \<open>lmk_format_fn\<close> to the bytes it stores and its result. What \<open>localtime_r\<close> and \<open>strftime\<close>
  make of a time is a parameter (it depends on the time zone of the host).

  The interface \<open>line_formatter\<close> says what \<open>lmk_format_log_line\<close> needs from a format function;
  it is interpreted on the three built-in ones.
\<close>

section \<open>Levels and types\<close>

definition LMK_LOG_LEVEL_TRACE :: int where "LMK_LOG_LEVEL_TRACE = 0"
definition LMK_LOG_LEVEL_DEBUG :: int where "LMK_LOG_LEVEL_DEBUG = 1"
definition LMK_LOG_LEVEL_INFO :: int where "LMK_LOG_LEVEL_INFO = 2"
definition LMK_LOG_LEVEL_WARN :: int where "LMK_LOG_LEVEL_WARN = 3"
definition LMK_LOG_LEVEL_ERROR :: int where "LMK_LOG_LEVEL_ERROR = 4"
definition LMK_LOG_LEVEL_OFF :: int where "LMK_LOG_LEVEL_OFF = 5"
definition LMK_LOG_LEVEL_UNKNOWN :: int where "LMK_LOG_LEVEL_UNKNOWN = 6"

lemmas level_defs = LMK_LOG_LEVEL_TRACE_def LMK_LOG_LEVEL_DEBUG_def LMK_LOG_LEVEL_INFO_def
  LMK_LOG_LEVEL_WARN_def LMK_LOG_LEVEL_ERROR_def LMK_LOG_LEVEL_OFF_def LMK_LOG_LEVEL_UNKNOWN_def

definition LMK_IS_VALID_LOG_LEVEL :: "int \<Rightarrow> bool" where
  "LMK_IS_VALID_LOG_LEVEL level \<longleftrightarrow> level \<ge> LMK_LOG_LEVEL_TRACE \<and> level \<le> LMK_LOG_LEVEL_OFF"

definition g_log_level_str :: "string list" where
  "g_log_level_str = [''TRACE'', ''DEBUG'', ''INFO'', ''WARN'', ''ERROR'', ''OFF'', ''UNKNOWN'']"

definition lmk_get_log_level_str :: "int \<Rightarrow> string" where
  "lmk_get_log_level_str log_level =
     (if log_level \<ge> LMK_LOG_LEVEL_TRACE \<and> log_level \<le> LMK_LOG_LEVEL_OFF
      then g_log_level_str ! nat log_level
      else g_log_level_str ! nat LMK_LOG_LEVEL_UNKNOWN)"

datatype handler_type = CONSOLE | FILE | SOCKET | SYSLOG

fun handler_type_code :: "handler_type \<Rightarrow> int" where
  "handler_type_code CONSOLE = 0"
| "handler_type_code FILE = 1"
| "handler_type_code SOCKET = 2"
| "handler_type_code SYSLOG = 3"

definition g_log_hnd_type_str :: "string list" where
  "g_log_hnd_type_str = [''CONSOLE'', ''FILE'', ''SOCKET'', ''SYSLOG'']"

definition lmk_get_log_handler_type_str :: "int \<Rightarrow> string" where
  "lmk_get_log_handler_type_str type =
     (if type \<ge> handler_type_code CONSOLE \<and> type \<le> handler_type_code SYSLOG
      then g_log_hnd_type_str ! nat type else ''UNKNOWN'')"

section \<open>Format functions\<close>

text \<open>\<open>out_size, log_level, level_str, timestamp, file_name, line_no, handler_name, message\<close>.\<close>

type_synonym lmk_format_fn =
  "nat \<Rightarrow> int \<Rightarrow> string \<Rightarrow> string \<Rightarrow> string \<Rightarrow> int \<Rightarrow> string \<Rightarrow> string \<Rightarrow> char list \<times> int"

definition lmk_default_format :: lmk_format_fn where
  "lmk_default_format out_size log_level level_str timestamp file_name line_no handler_name message =
     snprintf out_size (''['' @ pad_right 5 level_str @ '' '' @ timestamp @ '' ('' @ file_name @ '':'' @
       dec_int line_no @ '') '' @ handler_name @ ''] : '' @ message @ [CHR 0x0A])"

definition lmk_simple_format :: lmk_format_fn where
  "lmk_simple_format out_size log_level level_str timestamp file_name line_no handler_name message =
     snprintf out_size (timestamp @ '' ['' @ pad_right 5 level_str @ ''] '' @ message @ [CHR 0x0A])"

text \<open>The loop of \<open>lmk_json_escape\<close>; \<open>dst\<close> holds the bytes stored so far, \<open>i = length dst\<close>.\<close>

fun json_escape_loop :: "nat \<Rightarrow> char list \<Rightarrow> string \<Rightarrow> char list" where
  "json_escape_loop dst_size dst [] = dst @ [NUL]"
| "json_escape_loop dst_size dst (c # src) =
     (if length dst + 2 < dst_size then
        if c = CHR 0x22 \<or> c = CHR 0x5C then json_escape_loop dst_size (dst @ [CHR 0x5C, c]) src
        else if c = CHR 0x0A then json_escape_loop dst_size (dst @ [CHR 0x5C, CHR ''n'']) src
        else json_escape_loop dst_size (dst @ [c]) src
      else dst @ [NUL])"

definition lmk_json_escape :: "nat \<Rightarrow> string \<Rightarrow> char list" where
  "lmk_json_escape dst_size src = json_escape_loop dst_size [] src"

text \<open>A member of a JSON object with a string value, and the whole line of \<open>lmk_json_format\<close>.\<close>

definition json_key :: "string \<Rightarrow> string" where
  "json_key name = [CHR 0x22] @ name @ [CHR 0x22, CHR '':'']"

definition json_member :: "string \<Rightarrow> string \<Rightarrow> string" where
  "json_member name v = json_key name @ [CHR 0x22] @ v @ [CHR 0x22]"

definition json_line :: "string \<Rightarrow> string \<Rightarrow> string \<Rightarrow> int \<Rightarrow> string \<Rightarrow> string \<Rightarrow> string" where
  "json_line timestamp level_str file_name line_no handler_name escaped =
     ''{'' @ json_member ''timestamp'' timestamp @ '','' @ json_member ''level'' level_str @ '','' @
     json_member ''file'' file_name @ '','' @ json_key ''line'' @ dec_int line_no @ '','' @
     json_member ''handler'' handler_name @ '','' @ json_member ''message'' escaped @ ''}'' @ [CHR 0x0A]"

definition JSON_ESCAPED_SIZE :: nat where
  "JSON_ESCAPED_SIZE = 1024"

definition lmk_json_format :: lmk_format_fn where
  "lmk_json_format out_size log_level level_str timestamp file_name line_no handler_name message =
     (let escaped = cstr (lmk_json_escape JSON_ESCAPED_SIZE message)
      in snprintf out_size (json_line timestamp level_str file_name line_no handler_name escaped))"

text \<open>\<open>None\<close> is the \<open>NULL\<close> function pointer, which stands for the default format.\<close>

definition lmk_get_format_fn :: "string option \<Rightarrow> lmk_format_fn option" where
  "lmk_get_format_fn name =
     (case name of
        None \<Rightarrow> None
      | Some name \<Rightarrow>
          if strcaseeq name ''default'' then None
          else if strcaseeq name ''simple'' then Some lmk_simple_format
          else if strcaseeq name ''json'' then Some lmk_json_format
          else None)"

section \<open>Formatting a request\<close>

definition LMK_TSTAMP_BUFF_SIZE :: int where
  "LMK_TSTAMP_BUFF_SIZE = 32"

text \<open>\<open>lmk_get_timestamp\<close>, given the current time and the host's rendering of it. \<open>None\<close> is a
  \<open>NULL\<close> buffer; the result is the return code and the text stored.\<close>

definition lmk_get_timestamp :: "(int \<Rightarrow> string) \<Rightarrow> int \<Rightarrow> string option \<Rightarrow> int \<Rightarrow> int \<times> string option" where
  "lmk_get_timestamp render now ts_buff ts_buff_len =
     (case ts_buff of
        None \<Rightarrow> (LMK_E_NG, None)
      | Some b \<Rightarrow>
          if ts_buff_len < LMK_TSTAMP_BUFF_SIZE then (LMK_E_NG, Some b)
          else (LMK_E_OK, Some (render now)))"

text \<open>The two thread-local variables of \<open>lmk_format_log_line\<close>.\<close>

record ts_state =
  ts_last_sec :: int
  ts_cache :: string

definition ts_start :: ts_state where
  "ts_start = \<lparr>ts_last_sec = 0, ts_cache = []\<rparr>"

definition refresh_timestamp :: "(int \<Rightarrow> string) \<Rightarrow> int \<Rightarrow> ts_state \<Rightarrow> ts_state" where
  "refresh_timestamp render now ts =
     (if now \<noteq> ts_last_sec ts then \<lparr>ts_last_sec = now, ts_cache = render now\<rparr> else ts)"

definition lmk_format_log_line ::
  "(int \<Rightarrow> string) \<Rightarrow> int \<Rightarrow> lmk_format_fn option \<Rightarrow> nat \<Rightarrow> lmk_log_request \<Rightarrow> ts_state
    \<Rightarrow> char list \<times> int \<times> ts_state" where
  "lmk_format_log_line render now format_fn out_size req ts =
     (let level_str = lmk_get_log_level_str (req_log_level req);
          ts = refresh_timestamp render now ts;
          fn = (case format_fn of Some f \<Rightarrow> f | None \<Rightarrow> lmk_default_format);
          (out, n) = fn out_size (req_log_level req) level_str (ts_cache ts)
            (req_file_name req) (req_line_no req) (req_handler_name req) (cstr (req_data req))
      in (out, (if n > 0 then (if n < c_int (int out_size) then n else c_int (int out_size) - 1) else 0), ts))"

section \<open>The interface of a format function\<close>

definition c_string :: "string \<Rightarrow> bool" where
  "c_string s \<longleftrightarrow> NUL \<notin> set s"

lemma c_string_simps [simp]:
  "c_string []" "c_string (c # s) \<longleftrightarrow> c \<noteq> NUL \<and> c_string s" "c_string (a @ b) \<longleftrightarrow> c_string a \<and> c_string b"
  "c_string (dec_int i)" "c_string (cstr b)" "c_string (pad_right k s) \<longleftrightarrow> c_string s"
  by (auto simp: c_string_def pad_right_def)

lemma level_str_cases:
  "lmk_get_log_level_str l \<in> {''TRACE'', ''DEBUG'', ''INFO'', ''WARN'', ''ERROR'', ''OFF'', ''UNKNOWN''}"
proof (cases "l \<ge> 0 \<and> l \<le> 5")
  case True
  then have "l \<in> {0, 1, 2, 3, 4, 5}" by auto
  then show ?thesis by (auto simp: lmk_get_log_level_str_def g_log_level_str_def level_defs numeral_nat)
next
  case False
  then show ?thesis by (auto simp: lmk_get_log_level_str_def g_log_level_str_def level_defs)
qed

lemma level_str_c_string [simp]: "c_string (lmk_get_log_level_str l)"
  using level_str_cases [of l] by auto

text \<open>The three built-in functions run \<open>snprintf\<close> on a text that does not depend on the buffer;
  that is all \<open>lmk_format_log_line\<close> needs.\<close>

locale line_formatter =
  fixes fn :: lmk_format_fn
    and line_text :: "string \<Rightarrow> string \<Rightarrow> string \<Rightarrow> int \<Rightarrow> string \<Rightarrow> string \<Rightarrow> string"
  assumes fn_text: "fn n lvl ls t f i h m = snprintf n (line_text ls t f i h m)"
    and text_c_string: "c_string ls \<Longrightarrow> c_string t \<Longrightarrow> c_string f \<Longrightarrow> c_string h \<Longrightarrow> c_string m \<Longrightarrow>
      c_string (line_text ls t f i h m)"
    and text_ends: "\<exists>p. line_text ls t f i h m = p @ [CHR 0x0A]"
begin

definition req_line :: "string \<Rightarrow> lmk_log_request \<Rightarrow> string" where
  "req_line t req = line_text (lmk_get_log_level_str (req_log_level req)) t (req_file_name req)
     (req_line_no req) (req_handler_name req) (cstr (req_data req))"

lemma format_line_eq:
  assumes "0 < n" "n < 2 ^ 31"
  shows "lmk_format_log_line render now (Some fn) n req ts =
    (let ts' = refresh_timestamp render now ts; line = req_line (ts_cache ts') req
     in (take (n - 1) line @ [NUL], int (min (length line) (n - 1)), ts'))"
proof -
  have pos: "0 < length (req_line (ts_cache (refresh_timestamp render now ts)) req)"
    using text_ends unfolding req_line_def by (metis length_greater_0_conv snoc_eq_iff_butlast)
  have "c_int (int n) = int n" using assms(2) by (intro c_int_id) (simp add: int_range_def)
  then show ?thesis
    using assms pos by (auto simp: lmk_format_log_line_def fn_text snprintf_def req_line_def [symmetric] Let_def min_def)
qed

text \<open>The result is the length of the C string left in the buffer, which holds the line, cut to fit.\<close>

lemma format_line_cstr:
  assumes "0 < n" "n < 2 ^ 31" "lmk_format_log_line render now (Some fn) n req ts = (out, len, ts')"
    and "c_string (ts_cache ts')" "c_string (req_file_name req)" "c_string (req_handler_name req)"
  shows "cstr out = take (n - 1) (req_line (ts_cache ts') req) \<and> len = int (length (cstr out)) \<and> length out \<le> n"
proof -
  have out: "out = take (n - 1) (req_line (ts_cache ts') req) @ [NUL]"
    "len = int (min (length (req_line (ts_cache ts') req)) (n - 1))" "length out \<le> n"
    using assms(3) format_line_eq [OF assms(1,2), of render now req ts] assms(1) by (auto simp: Let_def)
  have "c_string (req_line (ts_cache ts') req)"
    unfolding req_line_def by (rule text_c_string) (use assms(4-6) in \<open>simp_all add: level_str_c_string\<close>)
  then have "c_string (take (n - 1) (req_line (ts_cache ts') req))"
    by (auto simp: c_string_def dest: in_set_takeD)
  then show ?thesis using out by (simp add: c_string_def)
qed

end

definition default_text :: "string \<Rightarrow> string \<Rightarrow> string \<Rightarrow> int \<Rightarrow> string \<Rightarrow> string \<Rightarrow> string" where
  "default_text ls t f i h m = ''['' @ pad_right 5 ls @ '' '' @ t @ '' ('' @ f @ '':'' @
       dec_int i @ '') '' @ h @ ''] : '' @ m @ [CHR 0x0A]"

definition simple_text :: "string \<Rightarrow> string \<Rightarrow> string \<Rightarrow> int \<Rightarrow> string \<Rightarrow> string \<Rightarrow> string" where
  "simple_text ls t f i h m = t @ '' ['' @ pad_right 5 ls @ ''] '' @ m @ [CHR 0x0A]"

definition json_text :: "string \<Rightarrow> string \<Rightarrow> string \<Rightarrow> int \<Rightarrow> string \<Rightarrow> string \<Rightarrow> string" where
  "json_text ls t f i h m = json_line t ls f i h (cstr (lmk_json_escape JSON_ESCAPED_SIZE m))"

interpretation default_fmt: line_formatter lmk_default_format default_text
  by unfold_locales (simp_all add: lmk_default_format_def default_text_def)

interpretation simple_fmt: line_formatter lmk_simple_format simple_text
  by unfold_locales (simp_all add: lmk_simple_format_def simple_text_def)

interpretation json_fmt: line_formatter lmk_json_format json_text
  by unfold_locales (simp_all add: lmk_json_format_def json_text_def json_line_def json_member_def json_key_def)


section \<open>Reading a JSON line back\<close>

text \<open>The characters a JSON string may contain unescaped, and the one-character escapes.\<close>

definition json_plain :: "char \<Rightarrow> bool" where
  "json_plain c \<longleftrightarrow> c \<noteq> CHR 0x22 \<and> c \<noteq> CHR 0x5C \<and> (of_char c :: nat) \<ge> 32"

definition json_unescape_char :: "char \<Rightarrow> char option" where
  "json_unescape_char c =
     (if c \<in> {CHR 0x22, CHR 0x5C, CHR 0x2F} then Some c
      else if c = CHR ''n'' then Some (CHR 0x0A)
      else if c = CHR ''t'' then Some (CHR 0x09)
      else if c = CHR ''r'' then Some (CHR 0x0D)
      else if c = CHR ''b'' then Some (CHR 0x08)
      else if c = CHR ''f'' then Some (CHR 0x0C) else None)"

text \<open>The rest of a JSON string after its opening quote: the value, and what follows the closing quote.\<close>

fun json_scan :: "string \<Rightarrow> (string \<times> string) option" where
  "json_scan [] = None"
| "json_scan [c] = (if c = CHR 0x22 then Some ([], []) else None)"
| "json_scan (c # d # s) =
     (if c = CHR 0x22 then Some ([], d # s)
      else if c = CHR 0x5C then
        (case json_unescape_char d of
           None \<Rightarrow> None
         | Some e \<Rightarrow> map_option (\<lambda>(v, r). (e # v, r)) (json_scan s))
      else if json_plain c then map_option (\<lambda>(v, r). (c # v, r)) (json_scan (d # s))
      else None)"

definition read_lit :: "string \<Rightarrow> string \<Rightarrow> string option" where
  "read_lit p s = (if starts_with p s then Some (drop (length p) s) else None)"

definition read_member :: "string \<Rightarrow> string \<Rightarrow> (string \<times> string) option" where
  "read_member name s =
     (case read_lit (json_key name @ [CHR 0x22]) s of None \<Rightarrow> None | Some s \<Rightarrow> json_scan s)"

record json_record =
  jr_timestamp :: string
  jr_level :: string
  jr_file :: string
  jr_line :: int
  jr_handler :: string
  jr_message :: string

definition read_json_line :: "string \<Rightarrow> json_record option" where
  "read_json_line s = do {
     s \<leftarrow> read_lit ''{'' s; (t, s) \<leftarrow> read_member ''timestamp'' s;
     s \<leftarrow> read_lit '','' s; (l, s) \<leftarrow> read_member ''level'' s;
     s \<leftarrow> read_lit '','' s; (f, s) \<leftarrow> read_member ''file'' s;
     s \<leftarrow> read_lit '','' s; s \<leftarrow> read_lit (json_key ''line'') s;
     (n, s) \<leftarrow> split_at_char (CHR '','') s;
     (h, s) \<leftarrow> read_member ''handler'' s;
     s \<leftarrow> read_lit '','' s; (m, s) \<leftarrow> read_member ''message'' s;
     if s = ''}'' @ [CHR 0x0A]
     then Some \<lparr>jr_timestamp = t, jr_level = l, jr_file = f, jr_line = dec_value n, jr_handler = h, jr_message = m\<rparr>
     else None }"

text \<open>What the escaping stores for one character, and for a whole string.\<close>

definition escape_char :: "char \<Rightarrow> string" where
  "escape_char c = (if c = CHR 0x22 \<or> c = CHR 0x5C then [CHR 0x5C, c]
     else if c = CHR 0x0A then [CHR 0x5C, CHR ''n''] else [c])"

definition escape :: "string \<Rightarrow> string" where
  "escape s = concat (map escape_char s)"

definition json_safe :: "char \<Rightarrow> bool" where
  "json_safe c \<longleftrightarrow> (of_char c :: nat) \<ge> 32 \<or> c = CHR 0x0A"

lemma json_escape_loop_spec:
  assumes "length dst < dst_size"
  shows "\<exists>k\<le>length src. json_escape_loop dst_size dst src = dst @ escape (take k src) @ [NUL] \<and>
    length (dst @ escape (take k src)) < dst_size \<and> (length dst + 2 * length src < dst_size \<longrightarrow> k = length src)"
  using assms
proof (induction dst_size dst src rule: json_escape_loop.induct)
  case (1 dst_size dst)
  then show ?case by (simp add: escape_def)
next
  case (2 dst_size dst c src)
  show ?case
  proof (cases "length dst + 2 < dst_size")
    case False
    then show ?thesis using 2(4) by (intro exI [of _ 0]) (auto simp: escape_def)
  next
    case True
    let ?d = "dst @ escape_char c"
    have len: "length ?d < dst_size" "length ?d \<le> length dst + 2" using True by (auto simp: escape_char_def)
    have step: "json_escape_loop dst_size dst (c # src) = json_escape_loop dst_size ?d src"
      using True by (auto simp: escape_char_def)
    have "\<exists>k\<le>length src. json_escape_loop dst_size ?d src = ?d @ escape (take k src) @ [NUL] \<and>
        length (?d @ escape (take k src)) < dst_size \<and> (length ?d + 2 * length src < dst_size \<longrightarrow> k = length src)"
      using 2(1-3) True len(1) by (auto simp: escape_char_def)
    then obtain k where k: "k \<le> length src" "json_escape_loop dst_size ?d src = ?d @ escape (take k src) @ [NUL]"
      "length (?d @ escape (take k src)) < dst_size" "length ?d + 2 * length src < dst_size \<longrightarrow> k = length src" by blast
    have "escape (take (Suc k) (c # src)) = escape_char c @ escape (take k src)" by (simp add: escape_def)
    then show ?thesis
      using k len(2) unfolding step by (intro exI [of _ "Suc k"]) (simp del: json_escape_loop.simps)
  qed
qed

lemma json_scan_plain:
  "list_all json_plain v \<Longrightarrow> json_scan (v @ CHR 0x22 # rest) = Some (v, rest)"
proof (induction v)
  case Nil
  then show ?case by (cases rest) auto
next
  case (Cons c v)
  then obtain d s where ds: "v @ CHR 0x22 # rest = d # s" by (cases v) auto
  with Cons show ?case by (simp add: json_plain_def)
qed

lemma json_scan_escape:
  "list_all json_safe m \<Longrightarrow> json_scan (escape m @ CHR 0x22 # rest) = Some (m, rest)"
proof (induction m)
  case Nil
  then show ?case by (cases rest) (auto simp: escape_def)
next
  case (Cons c m)
  obtain d s where ds: "escape m @ CHR 0x22 # rest = d # s" by (cases "escape m") auto
  have IH: "json_scan (d # s) = Some (m, rest)" using Cons ds by simp
  have esc: "escape (c # m) @ CHR 0x22 # rest = escape_char c @ d # s" using ds by (simp add: escape_def)
  show ?case
  proof (cases "c = CHR 0x22 \<or> c = CHR 0x5C \<or> c = CHR 0x0A")
    case True
    then show ?thesis using IH unfolding esc by (auto simp: escape_char_def json_unescape_char_def)
  next
    case False
    then have "json_plain c" using Cons.prems by (auto simp: json_plain_def json_safe_def)
    then show ?thesis using IH False unfolding esc by (simp add: escape_char_def)
  qed
qed

lemma read_lit_append [simp]: "read_lit p (p @ s) = Some s"
  by (simp add: read_lit_def starts_with_def)

lemma read_member_append:
  "json_scan (v @ CHR 0x22 # rest) = r \<Longrightarrow> read_member name (json_member name v @ rest) = r"
  using read_lit_append [of "json_key name @ [CHR 0x22]" "v @ CHR 0x22 # rest"]
  by (simp add: read_member_def json_member_def)


section \<open>Properties\<close>

text \<open>
  C14. The fixed array of the JSON formatter: \<open>lmk_json_escape\<close> never stores beyond \<open>dst_size\<close>
  bytes, terminator included, and what it stores is the escaped form of a prefix of the message
  (it never stops in the middle of an escape), of the whole message if the message is shorter
  than half the array.
\<close>

theorem json_escape_bounded:
  assumes "0 < dst_size"
  shows "\<exists>k\<le>length src. lmk_json_escape dst_size src = escape (take k src) @ [NUL] \<and>
    length (lmk_json_escape dst_size src) \<le> dst_size \<and> (2 * length src < dst_size \<longrightarrow> k = length src)"
  using json_escape_loop_spec [of "[]" dst_size src] assms by (auto simp: lmk_json_escape_def Suc_le_eq)

theorem json_escape_bounded_witness:
  "(\<exists>k\<le>3. lmk_json_escape 7 [CHR ''a'', CHR 0x22, CHR ''b''] = escape (take k [CHR ''a'', CHR 0x22, CHR ''b'']) @ [NUL]) \<and>
   lmk_json_escape 7 [CHR ''a'', CHR 0x22, CHR ''b''] = [CHR ''a'', CHR 0x5C, CHR 0x22, CHR ''b'', NUL]"
  using json_escape_bounded [of 7 "[CHR ''a'', CHR 0x22, CHR ''b'']"] by (auto simp: lmk_json_escape_def)

lemma json_text_escape:
  assumes "list_all json_safe m"
  shows "\<exists>k\<le>length m. cstr (lmk_json_escape JSON_ESCAPED_SIZE m) = escape (take k m) \<and>
    (length m < 512 \<longrightarrow> k = length m)"
proof -
  obtain k where k: "k \<le> length m" "lmk_json_escape JSON_ESCAPED_SIZE m = escape (take k m) @ [NUL]"
    "2 * length m < JSON_ESCAPED_SIZE \<longrightarrow> k = length m"
    using json_escape_loop_spec [of "[]" JSON_ESCAPED_SIZE m] by (auto simp: lmk_json_escape_def JSON_ESCAPED_SIZE_def)
  have "NUL \<notin> set (escape (take k m))"
    using assms by (auto simp: escape_def escape_char_def json_safe_def list_all_iff dest!: in_set_takeD split: if_splits)
  then have "cstr (lmk_json_escape JSON_ESCAPED_SIZE m) = escape (take k m)" using k(2) by simp
  then show ?thesis using k by (auto simp: JSON_ESCAPED_SIZE_def)
qed

lemma dec_int_no_comma: "CHR '','' \<notin> set (dec_int i)"
proof -
  have "\<not> is_digit (CHR '','')" by (simp add: is_digit_def)
  then have "CHR '','' \<notin> set (dec_nat n)" for n using dec_nat_digits [of n] by (auto simp: list_all_iff)
  then show ?thesis by (simp add: dec_int_def)
qed

text \<open>
  C15. JSON round trip: a line of the JSON format, with a message of printable characters,
  quotes, backslashes and newlines, and with names that need no escaping, is a JSON object that
  reads back to exactly the arguments of the formatter; the message is cut only when it has 512
  characters or more.
\<close>

theorem json_format_roundtrip:
  assumes "list_all json_plain t" "list_all json_plain ls" "list_all json_plain f" "list_all json_plain h"
    and "list_all json_safe m"
  shows "\<exists>k\<le>length m. read_json_line (json_text ls t f i h m) = Some \<lparr>jr_timestamp = t, jr_level = ls,
      jr_file = f, jr_line = i, jr_handler = h, jr_message = take k m\<rparr> \<and> (length m < 512 \<longrightarrow> k = length m)"
proof -
  obtain k where k: "k \<le> length m" "cstr (lmk_json_escape JSON_ESCAPED_SIZE m) = escape (take k m)"
    "length m < 512 \<longrightarrow> k = length m"
    using json_text_escape [OF assms(5)] by blast
  have mem: "read_member name (json_member name v @ s) = Some (v, s)" if "list_all json_plain v" for name v s
    by (rule read_member_append) (rule json_scan_plain [OF that])
  have msg: "read_member name (json_member name (escape (take k m)) @ s) = Some (take k m, s)" for name s
    by (rule read_member_append, rule json_scan_escape) (use assms(5) in \<open>auto simp: list_all_iff dest: in_set_takeD\<close>)
  have num: "split_at_char (CHR '','') (dec_int i @ '','' @ s) = Some (dec_int i, s)" for s
    using split_at_char_append [OF dec_int_no_comma] by simp
  have "read_json_line (json_text ls t f i h m) = Some \<lparr>jr_timestamp = t, jr_level = ls,
      jr_file = f, jr_line = dec_value (dec_int i), jr_handler = h, jr_message = take k m\<rparr>"
    unfolding read_json_line_def json_text_def json_line_def k(2)
    by (simp only: read_lit_append mem [OF assms(1)] mem [OF assms(2)] mem [OF assms(3)] mem [OF assms(4)] msg num
        Option.bind.bind_lunit prod.case if_True refl)
  then show ?thesis using k(1,3) dec_value_dec_int [of "[]" i] by auto
qed

theorem json_format_roundtrip_witness:
  "\<exists>k\<le>4. read_json_line (json_text ''INFO'' ''2024'' ''a.c'' 42 ''file'' [CHR ''x'', CHR 0x22, CHR 0x0A, CHR ''y'']) =
     Some \<lparr>jr_timestamp = ''2024'', jr_level = ''INFO'', jr_file = ''a.c'', jr_line = 42, jr_handler = ''file'',
       jr_message = take k [CHR ''x'', CHR 0x22, CHR 0x0A, CHR ''y'']\<rparr> \<and> k = 4"
proof -
  have "list_all json_plain ''2024''" "list_all json_plain ''INFO''" "list_all json_plain ''a.c''"
    "list_all json_plain ''file''" "list_all json_safe [CHR ''x'', CHR 0x22, CHR 0x0A, CHR ''y'']"
    by (simp_all add: json_plain_def json_safe_def)
  from json_format_roundtrip [OF this, of 42] show ?thesis by auto
qed


text \<open>The timestamp cache of a thread: unused, or the rendering of the second it was filled in.\<close>

definition ts_ok :: "(int \<Rightarrow> string) \<Rightarrow> ts_state \<Rightarrow> bool" where
  "ts_ok render ts \<longleftrightarrow> ts_last_sec ts = 0 \<or> ts_cache ts = render (ts_last_sec ts)"

lemma refresh_timestamp_ok:
  assumes "ts_ok render ts" "now \<noteq> 0"
  shows "ts_ok render (refresh_timestamp render now ts)" "ts_cache (refresh_timestamp render now ts) = render now"
  using assms by (auto simp: ts_ok_def refresh_timestamp_def)

lemma format_line_None:
  "lmk_format_log_line render now None n req ts = lmk_format_log_line render now (Some lmk_default_format) n req ts"
  by (simp add: lmk_format_log_line_def)

definition builtin_text :: "lmk_format_fn option \<Rightarrow> string \<Rightarrow> string \<Rightarrow> string \<Rightarrow> int \<Rightarrow> string \<Rightarrow> string \<Rightarrow> string" where
  "builtin_text fmt = (case fmt of None \<Rightarrow> default_text
     | Some fn \<Rightarrow> if fn = lmk_simple_format then simple_text else if fn = lmk_json_format then json_text else default_text)"

lemma get_format_fn_cases: "lmk_get_format_fn name = None \<or> lmk_get_format_fn name = Some lmk_simple_format \<or>
    lmk_get_format_fn name = Some lmk_json_format"
  by (simp add: lmk_get_format_fn_def split: option.split)

lemma simple_not_json: "lmk_json_format \<noteq> lmk_simple_format"
proof
  assume "lmk_json_format = lmk_simple_format"
  then have "lmk_json_format 1 0 [] [] [] 0 [] [] = lmk_simple_format 1 0 [] [] [] 0 [] []" by simp
  then have "length (json_text [] [] [] 0 [] []) = length (simple_text [] [] [] 0 [] [])"
    unfolding json_fmt.fn_text simple_fmt.fn_text by (simp add: snprintf_def)
  then show False
    by (simp add: json_text_def json_line_def json_member_def json_key_def simple_text_def pad_right_def)
qed

lemma format_line_facts:
  assumes "0 < n" "n < 2 ^ 31" "lmk_format_log_line render now (lmk_get_format_fn name) n req ts = (out, len, ts')"
    and "ts_ok render ts" "now \<noteq> 0" "c_string (render now)" "c_string (req_file_name req)" "c_string (req_handler_name req)"
  shows "cstr out = take (n - 1) (builtin_text (lmk_get_format_fn name) (lmk_get_log_level_str (req_log_level req))
        (render now) (req_file_name req) (req_line_no req) (req_handler_name req) (cstr (req_data req))) \<and>
    len = int (length (cstr out)) \<and> len < int n \<and> length out \<le> n \<and> ts_ok render ts'"
proof -
  have ts': "ts' = refresh_timestamp render now ts"
    using assms(3) by (auto simp: lmk_format_log_line_def Let_def split: prod.splits)
  note cache = refresh_timestamp_ok [OF assms(4,5), folded ts']
  have tc: "c_string (ts_cache ts')" using assms(6) cache(2) by simp
  consider "lmk_get_format_fn name = None" | "lmk_get_format_fn name = Some lmk_simple_format"
    | "lmk_get_format_fn name = Some lmk_json_format"
    using get_format_fn_cases [of name] by (elim disjE)
  then have "cstr out = take (n - 1) (builtin_text (lmk_get_format_fn name) (lmk_get_log_level_str (req_log_level req))
        (ts_cache ts') (req_file_name req) (req_line_no req) (req_handler_name req) (cstr (req_data req))) \<and>
      len = int (length (cstr out)) \<and> length out \<le> n"
  proof cases
    case 1
    with assms(3) have run: "lmk_format_log_line render now (Some lmk_default_format) n req ts = (out, len, ts')"
      by (simp add: format_line_None)
    show ?thesis
      using default_fmt.format_line_cstr [OF assms(1,2) run tc assms(7,8)]
      by (simp only: 1 default_fmt.req_line_def builtin_text_def option.case)
  next
    case 2
    with assms(3) have run: "lmk_format_log_line render now (Some lmk_simple_format) n req ts = (out, len, ts')" by simp
    show ?thesis
      using simple_fmt.format_line_cstr [OF assms(1,2) run tc assms(7,8)]
      by (simp only: 2 simple_fmt.req_line_def builtin_text_def option.case if_True refl)
  next
    case 3
    with assms(3) have run: "lmk_format_log_line render now (Some lmk_json_format) n req ts = (out, len, ts')" by simp
    show ?thesis
      using json_fmt.format_line_cstr [OF assms(1,2) run tc assms(7,8)]
      by (simp only: 3 json_fmt.req_line_def builtin_text_def option.case simple_not_json if_False if_True refl)
  qed
  then show ?thesis using cache assms(1) by auto
qed

text \<open>
  C16. \<open>lmk_format_log_line\<close> with any format a configuration can name: into a buffer of \<open>n\<close> bytes
  it stores a C string that is the line of that format for the request, cut to \<open>n - 1\<close>
  characters; the result is the length of that string, so that a caller that advances by it
  stays inside the buffer; and the timestamp in it is the one of the current second, the cache
  notwithstanding. The buffer is not empty and shorter than \<open>2^31\<close> bytes (its size is converted to
  \<open>int\<close>), the current time is not 0 (the value that marks the unused cache), and names and timestamp
  are C strings.
\<close>

theorem format_log_line_result:
  assumes "0 < n" "n < 2 ^ 31" "lmk_format_log_line render now (lmk_get_format_fn name) n req ts = (out, len, ts')"
    and "ts_ok render ts" "now \<noteq> 0" "c_string (render now)" "c_string (req_file_name req)" "c_string (req_handler_name req)"
  shows "cstr out = take (n - 1) (builtin_text (lmk_get_format_fn name) (lmk_get_log_level_str (req_log_level req))
        (render now) (req_file_name req) (req_line_no req) (req_handler_name req) (cstr (req_data req))) \<and>
    len = int (length (cstr out)) \<and> len < int n \<and> length out \<le> n \<and> ts_ok render ts'"
  by (rule format_line_facts [OF assms])

theorem format_log_line_result_witness:
  "case lmk_format_log_line (\<lambda>_. ''12:00'') 5 (lmk_get_format_fn (Some ''Simple'')) 20 zero_request ts_start of
     (out, len, ts') \<Rightarrow> cstr out = take 19 (simple_text ''TRACE'' ''12:00'' [] 0 [] []) \<and> len = 15"
proof -
  obtain out len ts' where run: "lmk_format_log_line (\<lambda>_. ''12:00'') 5 (lmk_get_format_fn (Some ''Simple'')) 20 zero_request ts_start
      = (out, len, ts')" by (metis prod_cases3)
  have fn: "lmk_get_format_fn (Some ''Simple'') = Some lmk_simple_format"
    by (simp add: lmk_get_format_fn_def strcaseeq_def tolower_def)
  have req: "cstr (req_data zero_request) = []" "req_file_name zero_request = []" "req_handler_name zero_request = []"
    "req_line_no zero_request = 0" "lmk_get_log_level_str (req_log_level zero_request) = ''TRACE''"
    by (simp_all add: zero_request_def cstr_def LMK_LOG_MSG_MAX_SIZE_def lmk_get_log_level_str_def level_defs g_log_level_str_def)
  have "cstr out = take 19 (simple_text ''TRACE'' ''12:00'' [] 0 [] [])" "len = int (length (cstr out))"
    using format_log_line_result [OF _ _ run] fn req by (simp_all add: ts_ok_def ts_start_def builtin_text_def)
  then show ?thesis unfolding run by (simp add: simple_text_def pad_right_def)
qed

lemma json_scan_control:
  "list_all json_safe m \<Longrightarrow> \<not> json_safe c \<Longrightarrow> c \<noteq> CHR 0x22 \<Longrightarrow> c \<noteq> CHR 0x5C \<Longrightarrow> rest \<noteq> [] \<Longrightarrow>
    json_scan (escape m @ c # rest) = None"
proof (induction m)
  case Nil
  then show ?case by (cases rest) (auto simp: escape_def json_plain_def json_safe_def)
next
  case (Cons x m)
  obtain d s where ds: "escape m @ c # rest = d # s" by (cases "escape m") auto
  have IH: "json_scan (d # s) = None" using Cons ds by simp
  have esc: "escape (x # m) @ c # rest = escape_char x @ d # s" using ds by (simp add: escape_def)
  show ?case
    using IH unfolding esc by (auto simp: escape_char_def json_unescape_char_def)
qed

lemma json_escape_loop_append:
  "length dst + length (escape a) + 2 < dst_size \<Longrightarrow>
    json_escape_loop dst_size dst (a @ src) = json_escape_loop dst_size (dst @ escape a) src"
proof (induction a arbitrary: dst)
  case (Cons x a)
  have "escape (x # a) = escape_char x @ escape a" by (simp add: escape_def)
  moreover have "json_escape_loop dst_size dst (x # a @ src) = json_escape_loop dst_size (dst @ escape_char x) (a @ src)"
    using Cons.prems by (auto simp: escape_char_def)
  ultimately show ?case using Cons.IH [of "dst @ escape_char x"] Cons.prems by simp
qed (simp add: escape_def)

text \<open>A character that is copied as it is, where the array has room for it.\<close>

lemma json_escape_keeps:
  assumes "length (escape a) + 2 < JSON_ESCAPED_SIZE" "escape_char c = [c]"
  shows "\<exists>k. lmk_json_escape JSON_ESCAPED_SIZE (a @ c # b) = escape a @ c # escape (take k b) @ [NUL]"
proof -
  have "lmk_json_escape JSON_ESCAPED_SIZE (a @ c # b) = json_escape_loop JSON_ESCAPED_SIZE (escape a) (c # b)"
    using json_escape_loop_append [of "[]" a JSON_ESCAPED_SIZE "c # b"] assms(1) by (simp add: lmk_json_escape_def)
  also have "\<dots> = json_escape_loop JSON_ESCAPED_SIZE (escape a @ [c]) b" using assms by (auto simp: escape_char_def split: if_splits)
  finally show ?thesis using json_escape_loop_spec [of "escape a @ [c]" JSON_ESCAPED_SIZE b] assms(1) by auto
qed

text \<open>
  C17. What the escaping leaves out: a message with a control character other than the newline
  (a tab, a carriage return, an escape sequence) is written as a line that is not JSON, because
  JSON strings may not contain control characters. The message may have any length; the control
  character has to come before the cut of the escape buffer, that is, what precedes it takes at
  most 1021 bytes when escaped. (The line is taken before \<open>snprintf\<close> cuts it to the output buffer,
  and the other fields are printable.)
\<close>

theorem json_format_control_char:
  assumes "list_all json_plain t" "list_all json_plain ls" "list_all json_plain f" "list_all json_plain h"
    and "list_all json_safe a" "\<not> json_safe c" "c \<noteq> NUL" "length (escape a) \<le> 1021" "c_string b"
  shows "read_json_line (json_text ls t f i h (a @ c # b)) = None"
proof -
  have c: "c \<noteq> CHR 0x22" "c \<noteq> CHR 0x5C" "c \<noteq> CHR 0x0A" using assms(6) by (auto simp: json_safe_def)
  then obtain k where k: "lmk_json_escape JSON_ESCAPED_SIZE (a @ c # b) = escape a @ c # escape (take k b) @ [NUL]"
    using json_escape_keeps [of a c b] assms(8) by (auto simp: JSON_ESCAPED_SIZE_def escape_char_def)
  have "NUL \<notin> set (escape a @ c # escape (take k b))"
    using assms(5,7,9) by (auto simp: escape_def escape_char_def json_safe_def list_all_iff c_string_def dest!: in_set_takeD split: if_splits)
  then have esc: "cstr (lmk_json_escape JSON_ESCAPED_SIZE (a @ c # b)) = escape a @ c # escape (take k b)"
    using cstr_stop [of "escape a @ c # escape (take k b)" "[]"] by (simp add: k)
  have mem: "read_member name (json_member name v @ s) = Some (v, s)" if "list_all json_plain v" for name v s
    by (rule read_member_append) (rule json_scan_plain [OF that])
  have msg: "read_member name (json_member name (escape a @ c # escape (take k b)) @ s) = None" for name s
    by (rule read_member_append) (use json_scan_control [OF assms(5,6) c(1,2), of "escape (take k b) @ CHR 0x22 # s"] in simp)
  have num: "split_at_char (CHR '','') (dec_int i @ '','' @ s) = Some (dec_int i, s)" for s
    using split_at_char_append [OF dec_int_no_comma] by simp
  show ?thesis
    unfolding read_json_line_def json_text_def json_line_def esc
    by (simp only: read_lit_append mem [OF assms(1)] mem [OF assms(2)] mem [OF assms(3)] mem [OF assms(4)] msg num
        Option.bind.bind_lunit Option.bind.bind_lzero prod.case)
qed

theorem json_format_control_char_witness:
  "read_json_line (json_text ''INFO'' ''2024'' ''a.c'' 42 ''file'' (''x'' @ CHR 0x09 # ''y'')) = None"
proof -
  have "list_all json_plain ''2024''" "list_all json_plain ''INFO''" "list_all json_plain ''a.c''"
    "list_all json_plain ''file''" "list_all json_safe ''x''" "\<not> json_safe (CHR 0x09)"
    by (simp_all add: json_plain_def json_safe_def)
  from json_format_control_char [OF this, of "''y''" 42] show ?thesis by (simp add: escape_def escape_char_def)
qed

end
