(* ===== verification/Handler.thy ===== *)
theory Handler
  imports Format
begin

text \<open>
  What all log handlers share (\<open>struct lmk_log_handler\<close> and \<open>logmoko_handler.c\<close>): the base
  record, its initialisation, levels and format, and the part that console, file, socket and
  syslog handlers repeat: the ring with its cursors, \<open>running\<close>, \<open>sleeping\<close> and \<open>dropped\<close>, how
  \<open>init\<close> sets them up, what \<open>log_impl\<close> does with a record, how \<open>destroy\<close> takes them down, and the
  inner loop of the consumer thread. The structs that extend the base record are the
  constructors of \<open>handler_ext\<close>. The results of \<open>malloc\<close> and \<open>pthread_create\<close> are arguments.

  This theory is the sequential view, one call at a time; the interleaving of callers, consumer
  and destroyer is in \<open>Async_Handler\<close>.
\<close>

section \<open>Data\<close>

record lmk_config =
  cfg_log_buffer_size :: u32
  cfg_ring_buffer_size :: u32

text \<open>\<open>struct lmk_file_log_handler\<close>: an open \<open>FILE\<close> is the path it was opened at.\<close>

record file_part =
  fp_filename :: "string option"
  fp_log_fp :: "string option"
  fp_max_file_size :: int
  fp_max_backup_files :: int
  fp_current_file_size :: int

text \<open>\<open>struct lmk_socket_log_handler\<close>: a server is its IPv4 address and port.\<close>

type_synonym sockaddr = "u32 \<times> 16 word"

record socket_part =
  sk_log_servers :: "sockaddr list"
  sk_sockd :: int
  sk_psk_enabled :: bool
  sk_psk_key :: "char list"
  sk_cipher_ctx :: bool

record syslog_part =
  sy_ident :: string
  sy_facility :: int

datatype handler_ext = Console_ext | File_ext file_part | Socket_ext socket_part | Syslog_ext syslog_part

text \<open>\<open>lh_name\<close> is \<open>None\<close> when the allocation of the name failed; \<open>lh_ring\<close> is \<open>None\<close> for a \<open>NULL\<close>
  \<open>ring_buffer\<close>.\<close>

record lmk_log_handler =
  lh_log_level :: int
  lh_type :: handler_type
  lh_name :: "string option"
  lh_nr_log_calls :: u64
  lh_nr_logger_ref :: u32
  lh_initialized :: bool
  lh_format_fn :: "lmk_format_fn option"
  lh_ring :: "lmk_ring option"
  lh_running :: bool
  lh_sleeping :: bool
  lh_dropped :: u64
  lh_ext :: handler_ext

section \<open>Base operations\<close>

definition lmk_init_base_log_handler :: "handler_type \<Rightarrow> string \<Rightarrow> bool \<Rightarrow> handler_ext \<Rightarrow> lmk_log_handler" where
  "lmk_init_base_log_handler type name name_ok ext =
     \<lparr>lh_log_level = LMK_LOG_LEVEL_TRACE, lh_type = type, lh_name = (if name_ok then Some name else None),
      lh_nr_log_calls = 0, lh_nr_logger_ref = 0, lh_initialized = False, lh_format_fn = None,
      lh_ring = None, lh_running = False, lh_sleeping = False, lh_dropped = 0, lh_ext = ext\<rparr>"

definition lmk_set_handler_log_level :: "int \<Rightarrow> lmk_log_handler \<Rightarrow> lmk_log_handler" where
  "lmk_set_handler_log_level log_level h =
     (if log_level \<ge> LMK_LOG_LEVEL_TRACE \<and> log_level \<le> LMK_LOG_LEVEL_OFF
      then h\<lparr>lh_log_level := log_level\<rparr> else h)"

text \<open>\<open>None\<close> is a \<open>NULL\<close> handler.\<close>

definition lmk_get_handler_log_level :: "lmk_log_handler option \<Rightarrow> int" where
  "lmk_get_handler_log_level h =
     (case h of Some h \<Rightarrow> if lh_initialized h then lh_log_level h else LMK_LOG_LEVEL_UNKNOWN
      | None \<Rightarrow> LMK_LOG_LEVEL_UNKNOWN)"

definition lmk_set_log_format :: "lmk_format_fn option \<Rightarrow> lmk_log_handler \<Rightarrow> lmk_log_handler" where
  "lmk_set_log_format fn h = h\<lparr>lh_format_fn := fn\<rparr>"

section \<open>The asynchronous part\<close>

text \<open>The common part of the four \<open>init\<close> functions: round the configured size up, allocate and
  number the ring, reset the counters, create the consumer thread; undo it if the thread cannot
  be created.\<close>

definition ring_size_of :: "lmk_config \<Rightarrow> nat" where
  "ring_size_of cfg = unat (lmk_next_pow2 (ucast (cfg_ring_buffer_size cfg)))"

definition async_init :: "lmk_config \<Rightarrow> bool \<Rightarrow> bool \<Rightarrow> lmk_log_handler \<Rightarrow> lmk_log_handler" where
  "async_init cfg malloc_ok thread_ok h =
     (if \<not> malloc_ok then h\<lparr>lh_ring := None\<rparr>
      else
        let h = h\<lparr>lh_ring := Some (ring_new (ring_size_of cfg)), lh_running := True, lh_sleeping := False,
                  lh_dropped := 0\<rparr>
        in if \<not> thread_ok then h\<lparr>lh_ring := None, lh_running := False\<rparr> else h)"

text \<open>The name a request carries; a \<open>NULL\<close> name prints as \<open>(null)\<close>.\<close>

definition handler_name :: "lmk_log_handler \<Rightarrow> string" where
  "handler_name h = (case lh_name h of Some n \<Rightarrow> n | None \<Rightarrow> ''(null)'')"

text \<open>The common \<open>log_impl\<close>. \<open>None\<close> is undefined behaviour: enqueueing into a \<open>NULL\<close> ring.\<close>

definition async_log_impl :: "lmk_log_record \<Rightarrow> lmk_log_handler \<Rightarrow> lmk_log_handler option" where
  "async_log_impl rec h =
     (if \<not> lh_running h then Some h
      else case lh_ring h of
             None \<Rightarrow> None
           | Some r \<Rightarrow>
               (case ring_enq (rec, handler_name h) r of
                  None \<Rightarrow> None
                | Some (rc, r') \<Rightarrow>
                    if rc = 0 then Some (h\<lparr>lh_ring := Some r', lh_dropped := lh_dropped h + 1\<rparr>)
                    else Some (h\<lparr>lh_ring := Some r', lh_nr_log_calls := lh_nr_log_calls h + 1\<rparr>)))"

text \<open>The common part of \<open>destroy\<close>: stop, join the consumer, report what was dropped, free the ring.
  The result is the handler and the line written to \<open>stderr\<close>, if any.\<close>

definition async_destroy :: "string \<Rightarrow> lmk_log_handler \<Rightarrow> lmk_log_handler \<times> string" where
  "async_destroy what h =
     (h\<lparr>lh_running := False, lh_ring := None\<rparr>,
      (if lh_dropped h = 0 then []
       else ''logmoko: '' @ what @ '' dropped '' @ dec_nat (unat (lh_dropped h)) @ '' log(s), logged '' @
         dec_nat (unat (lh_nr_log_calls h)) @ [CHR 0x0A]))"

text \<open>The consumer's inner loop, with the request in the slot it peeked at.\<close>

definition ring_peek_req :: "lmk_ring \<Rightarrow> lmk_log_request option" where
  "ring_peek_req r = map_option (\<lambda>i. slot_req (rb_slots r ! i))
     (lmk_ring_peek_slot (rb_slots r) (rb_tail r) (rb_mask r))"

definition consumer_drain :: "(lmk_log_request \<Rightarrow> 's \<Rightarrow> 's) \<Rightarrow> lmk_ring \<Rightarrow> 's \<Rightarrow> (lmk_ring \<times> 's) option" where
  "consumer_drain handle r s = drain_loop ring_peek_req ring_deq handle r s"

section \<open>Lemmas\<close>

lemma ring_size_of_pow2: "\<exists>k. 1 \<le> k \<and> k < 64 \<and> ring_size_of cfg = 2 ^ k \<and> unat (cfg_ring_buffer_size cfg) \<le> 2 ^ k"
proof -
  have u: "unat (ucast (cfg_ring_buffer_size cfg) :: u64) = unat (cfg_ring_buffer_size cfg)"
    by (simp add: unsigned_ucast_eq take_bit_nat_eq_self_iff less_trans [OF unsigned_less])
  have "unat (cfg_ring_buffer_size cfg) < 2 ^ LENGTH(32)" by (rule unsigned_less)
  then have le: "unat (ucast (cfg_ring_buffer_size cfg) :: u64) \<le> 2 ^ 63" unfolding u by simp
  show ?thesis using next_pow2_bounds [OF le] u by (auto simp: ring_size_of_def)
qed

definition handler_ok :: "lmk_log_handler \<Rightarrow> bool" where
  "handler_ok h \<longleftrightarrow> (lh_running h \<longrightarrow> (\<exists>r. lh_ring h = Some r \<and> ring_invar r))"

lemma async_init_ok: "handler_ok h \<Longrightarrow> \<not> lh_running h \<Longrightarrow> handler_ok (async_init cfg m t h)"
  using ring_size_of_pow2 [of cfg] ring_new_invar by (auto simp: async_init_def handler_ok_def Let_def)


text \<open>What a log call does to a running handler: it appends to the ring, or counts a drop when the
  ring is full.\<close>

lemma async_log_impl_running:
  assumes "handler_ok h" "lh_running h" "lh_ring h = Some r"
  shows "\<exists>h' r'. async_log_impl rec h = Some h' \<and> lh_ring h' = Some r' \<and> ring_invar r' \<and> handler_ok h' \<and>
    length (rb_slots r') = length (rb_slots r) \<and>
    (if length (ring_contents r) < length (rb_slots r)
     then ring_contents r' = ring_contents r @ [entry_of_record rec (handler_name h)] \<and>
       h' = h\<lparr>lh_ring := Some r', lh_nr_log_calls := lh_nr_log_calls h + 1\<rparr>
     else r' = r \<and> h' = h\<lparr>lh_ring := Some r, lh_dropped := lh_dropped h + 1\<rparr>)"
proof (cases "length (ring_contents r) < length (rb_slots r)")
  case True
  have inv: "ring_invar r" using assms by (auto simp: handler_ok_def)
  obtain r' where r': "ring_enq (rec, handler_name h) r = Some (1, r')" "ring_invar r'"
    "length (rb_slots r') = length (rb_slots r)" "ring_contents r' = ring_contents r @ [entry_of_record rec (handler_name h)]"
    using rb.enq_room [OF inv True, of "(rec, handler_name h)"] by auto
  then show ?thesis
    using assms(2,3) True by (auto simp: async_log_impl_def handler_ok_def)
next
  case False
  have inv: "ring_invar r" using assms by (auto simp: handler_ok_def)
  have "ring_enq (rec, handler_name h) r = Some (0, r)"
    using rb.enq_full [OF inv] rb.bounded [OF inv] False by simp
  then show ?thesis
    using assms inv False by (auto simp: async_log_impl_def handler_ok_def)
qed

lemma async_log_impl_total:
  assumes "handler_ok h"
  shows "\<exists>h'. async_log_impl rec h = Some h' \<and> handler_ok h'"
proof (cases "lh_running h")
  case True
  then obtain r where "lh_ring h = Some r" using assms by (auto simp: handler_ok_def)
  with async_log_impl_running [OF assms True this, of rec] show ?thesis by blast
qed (use assms in \<open>simp add: async_log_impl_def\<close>)

lemma async_destroy_ok: "handler_ok (fst (async_destroy what h))"
  by (simp add: async_destroy_def handler_ok_def)

text \<open>The consumer sees of a request only its entry.\<close>

definition request_of_entry :: "log_entry \<Rightarrow> lmk_log_request" where
  "request_of_entry e = \<lparr>req_log_level = entry_level e, req_data = entry_message e @ [NUL],
     req_line_no = entry_line e, req_file_name = entry_file e, req_handler_name = entry_handler e\<rparr>"

definition reads_entry :: "(lmk_log_request \<Rightarrow> 's \<Rightarrow> 's) \<Rightarrow> bool" where
  "reads_entry handle \<longleftrightarrow> (\<forall>q q'. entry_of_request q = entry_of_request q' \<longrightarrow> handle q = handle q')"

lemma entry_of_request_of_entry: "entry_of_request (request_of_entry (entry_of_request q)) = entry_of_request q"
  by (simp add: request_of_entry_def entry_of_request_def)

lemma format_line_reads_entry:
  "entry_of_request q = entry_of_request q' \<Longrightarrow>
    lmk_format_log_line render now fn n q ts = lmk_format_log_line render now fn n q' ts"
  by (simp add: entry_of_request_def lmk_format_log_line_def)

text \<open>The inner loop of a consumer: it ends, leaves the ring empty, and has run its body on every
  message that was in the ring, oldest first.\<close>

lemma consumer_drain_spec:
  assumes "ring_invar r" "reads_entry handle"
  shows "\<exists>r'. consumer_drain handle r s = Some (r', fold (\<lambda>e. handle (request_of_entry e)) (ring_contents r) s) \<and>
    ring_invar r' \<and> length (rb_slots r') = length (rb_slots r) \<and> ring_contents r' = []"
  using assms(1)
proof (induction "ring_contents r" arbitrary: r s)
  case Nil
  then have "ring_peek r = None" using rb.peek_hd [of r] by (metis list.simps(4))
  then show ?case using Nil by (simp add: consumer_drain_def drain_loop.simps ring_peek_def ring_peek_req_def)
next
  case (Cons e es)
  have d: "ring_invar (ring_deq r)" "length (rb_slots (ring_deq r)) = length (rb_slots r)" "es = ring_contents (ring_deq r)"
    using rb.deq_tl [OF Cons.prems] Cons.hyps(2) by (metis list.discI list.sel(3))+
  have "ring_peek r = Some e" using rb.peek_hd [OF Cons.prems] Cons.hyps(2) by (metis list.simps(5))
  then obtain q where q: "ring_peek_req r = Some q" "entry_of_request q = e"
    by (auto simp: ring_peek_def ring_peek_req_def)
  then have "handle q = handle (request_of_entry e)"
    using assms(2) entry_of_request_of_entry [of q] unfolding reads_entry_def by metis
  with Cons.hyps(1) [OF d(3,1), of "handle q s"] show ?case
    using q(1) d(2,3) by (auto simp: consumer_drain_def drain_loop.simps [of ring_peek_req _ _ r] simp flip: Cons.hyps(2))
qed


section \<open>Properties\<close>

text \<open>
  C18. A log call on a running handler, whichever its type, returns without undefined behaviour
  and does exactly one of two things: if the ring has room, it appends the record, with the
  message cut to the slot, and counts one logged message; if the ring is full, it leaves the
  ring as it is and counts one dropped message. The handler stays well-formed.
\<close>

theorem log_call_effect:
  assumes "handler_ok h" "lh_running h"
  shows "\<exists>r r' h'. lh_ring h = Some r \<and> async_log_impl rec h = Some h' \<and> lh_ring h' = Some r' \<and> handler_ok h' \<and>
    (if length (ring_contents r) < length (rb_slots r)
     then ring_contents r' = ring_contents r @ [entry_of_record rec (handler_name h)] \<and>
       lh_nr_log_calls h' = lh_nr_log_calls h + 1 \<and> lh_dropped h' = lh_dropped h
     else ring_contents r' = ring_contents r \<and>
       lh_nr_log_calls h' = lh_nr_log_calls h \<and> lh_dropped h' = lh_dropped h + 1)"
proof -
  obtain r where r: "lh_ring h = Some r" using assms by (auto simp: handler_ok_def)
  from async_log_impl_running [OF assms r, of rec] obtain h' r' where
    "async_log_impl rec h = Some h'" "lh_ring h' = Some r'" "handler_ok h'"
    "if length (ring_contents r) < length (rb_slots r)
     then ring_contents r' = ring_contents r @ [entry_of_record rec (handler_name h)] \<and>
       h' = h\<lparr>lh_ring := Some r', lh_nr_log_calls := lh_nr_log_calls h + 1\<rparr>
     else r' = r \<and> h' = h\<lparr>lh_ring := Some r, lh_dropped := lh_dropped h + 1\<rparr>" by blast
  then show ?thesis using r by (intro exI [of _ r] exI [of _ r'] exI [of _ h']) (simp split: if_splits)
qed

definition sample_handler :: lmk_log_handler where
  "sample_handler = async_init \<lparr>cfg_log_buffer_size = 0, cfg_ring_buffer_size = 2\<rparr> True True
     (lmk_init_base_log_handler CONSOLE ''console'' True Console_ext)"

lemma sample_handler_ok: "handler_ok sample_handler" "lh_running sample_handler"
  unfolding sample_handler_def
  by (rule async_init_ok) (simp_all add: lmk_init_base_log_handler_def handler_ok_def async_init_def)

theorem log_call_effect_witness:
  "handler_ok sample_handler \<and> lh_running sample_handler \<and>
   (\<exists>r r' h'. lh_ring sample_handler = Some r \<and> async_log_impl (sample_record ''m'') sample_handler = Some h' \<and>
      lh_ring h' = Some r' \<and> handler_ok h')"
  using log_call_effect [OF sample_handler_ok, of "sample_record ''m''"] sample_handler_ok by blast

text \<open>A ring that holds one message.\<close>

definition sample_ring :: lmk_ring where
  "sample_ring = snd (the (ring_enq (sample_record ''m'', ''h'') (ring_new (2 ^ 1))))"

lemma sample_ring_facts:
  "ring_invar sample_ring" "ring_contents sample_ring = [entry_of_record (sample_record ''m'') ''h'']"
proof -
  have inv: "ring_invar (ring_new (2 ^ 1))" "ring_contents (ring_new (2 ^ 1)) = []" "length (rb_slots (ring_new (2 ^ 1))) = 2 ^ 1"
    using ring_new_invar [of 1] by auto
  then obtain r where "ring_enq (sample_record ''m'', ''h'') (ring_new (2 ^ 1)) = Some (1, r)" "ring_invar r"
    "ring_contents r = [entry_of_record (sample_record ''m'') ''h'']"
    using rb.enq_room [OF inv(1), of "(sample_record ''m'', ''h'')"] by auto
  then show "ring_invar sample_ring" "ring_contents sample_ring = [entry_of_record (sample_record ''m'') ''h'']"
    by (simp_all only: sample_ring_def option.sel snd_conv)
qed

end
