(* ===== verification/Console_Handler.thy ===== *)
theory Console_Handler
  imports Handler
begin

text \<open>
  The console handler (\<open>logmoko_console_log_handler.c\<close>): colours per level, and the consumer's
  work on one request, which writes a coloured line to \<open>stdout\<close>. \<open>clock\<close> gives the result of
  each call of \<open>time\<close>, in order; \<open>render\<close> is the host's rendering of a time.
\<close>

definition ANSI_RESET :: string where "ANSI_RESET = CHR 0x1B # ''[0m''"
definition ANSI_GRAY :: string where "ANSI_GRAY = CHR 0x1B # ''[2;37m''"
definition ANSI_CYAN :: string where "ANSI_CYAN = CHR 0x1B # ''[0;36m''"
definition ANSI_WHITE :: string where "ANSI_WHITE = CHR 0x1B # ''[0;37m''"
definition ANSI_YELLOW :: string where "ANSI_YELLOW = CHR 0x1B # ''[0;33m''"
definition ANSI_RED :: string where "ANSI_RED = CHR 0x1B # ''[0;31m''"

definition lmk_console_level_color :: "int \<Rightarrow> string" where
  "lmk_console_level_color level =
     (if level = LMK_LOG_LEVEL_TRACE then ANSI_GRAY
      else if level = LMK_LOG_LEVEL_DEBUG then ANSI_CYAN
      else if level = LMK_LOG_LEVEL_INFO then ANSI_WHITE
      else if level = LMK_LOG_LEVEL_WARN then ANSI_YELLOW
      else if level = LMK_LOG_LEVEL_ERROR then ANSI_RED
      else ANSI_RESET)"

definition CONSOLE_OUT_SIZE :: nat where
  "CONSOLE_OUT_SIZE = LMK_LOG_MSG_MAX_SIZE + 512"

text \<open>The consumer's state: what it wrote to \<open>stdout\<close>, its timestamp cache, the calls of \<open>time\<close> so far.\<close>

record console_state =
  cn_stdout :: string
  cn_ts :: ts_state
  cn_tick :: nat

definition console_handle ::
  "(int \<Rightarrow> string) \<Rightarrow> (nat \<Rightarrow> int) \<Rightarrow> lmk_format_fn option \<Rightarrow> lmk_log_request \<Rightarrow> console_state \<Rightarrow> console_state" where
  "console_handle render clock fn req s =
     (let (out, n, ts) = lmk_format_log_line render (clock (cn_tick s)) fn CONSOLE_OUT_SIZE req (cn_ts s)
      in \<lparr>cn_stdout = cn_stdout s @ lmk_console_level_color (req_log_level req) @ cstr out @ ANSI_RESET,
          cn_ts = ts, cn_tick = Suc (cn_tick s)\<rparr>)"

text \<open>One pass of the outer loop up to the test of \<open>running\<close>.\<close>

definition lmk_console_log_handler_thread_pass ::
  "(int \<Rightarrow> string) \<Rightarrow> (nat \<Rightarrow> int) \<Rightarrow> lmk_format_fn option \<Rightarrow> lmk_ring \<Rightarrow> console_state \<Rightarrow> (lmk_ring \<times> console_state) option" where
  "lmk_console_log_handler_thread_pass render clock fn r s = consumer_drain (console_handle render clock fn) r s"

definition lmk_console_log_handler_init :: "lmk_config \<Rightarrow> bool \<Rightarrow> bool \<Rightarrow> lmk_log_handler \<Rightarrow> lmk_log_handler" where
  "lmk_console_log_handler_init cfg malloc_ok thread_ok h = async_init cfg malloc_ok thread_ok h"

definition lmk_console_log_handler_destroy :: "lmk_log_handler \<Rightarrow> lmk_log_handler \<times> string" where
  "lmk_console_log_handler_destroy h = async_destroy ''console handler'' h"

definition lmk_console_log_handler_log_impl :: "lmk_log_record \<Rightarrow> lmk_log_handler \<Rightarrow> lmk_log_handler option" where
  "lmk_console_log_handler_log_impl rec h = async_log_impl rec h"

section \<open>Lemmas\<close>

text \<open>The line of an entry in the format of the handler, cut to the size of the consumer's buffer.\<close>

definition entry_text :: "lmk_format_fn option \<Rightarrow> nat \<Rightarrow> string \<Rightarrow> log_entry \<Rightarrow> string" where
  "entry_text fn n time e = take (n - 1) (builtin_text fn (lmk_get_log_level_str (entry_level e)) time
     (entry_file e) (entry_line e) (entry_handler e) (entry_message e))"

text \<open>The entries a program can log: file and handler names are C strings.\<close>

definition entry_ok :: "log_entry \<Rightarrow> bool" where
  "entry_ok e \<longleftrightarrow> c_string (entry_message e) \<and> c_string (entry_file e) \<and> c_string (entry_handler e)"

text \<open>\<open>lmk_format_log_line\<close> on an entry, as every consumer uses it.\<close>

lemma format_entry:
  assumes "entry_ok e" "0 < n" "n < 2 ^ 31" "ts_ok render ts" "now \<noteq> 0" "c_string (render now)"
  shows "\<exists>out ts'. lmk_format_log_line render now (lmk_get_format_fn name) n (request_of_entry e) ts =
      (out, int (length (cstr out)), ts') \<and>
    cstr out = entry_text (lmk_get_format_fn name) n (render now) e \<and> ts_ok render ts' \<and> length out \<le> n"
proof -
  obtain out len ts' where run: "lmk_format_log_line render now (lmk_get_format_fn name) n (request_of_entry e) ts = (out, len, ts')"
    by (metis prod_cases3)
  have "c_string (req_file_name (request_of_entry e))" "c_string (req_handler_name (request_of_entry e))"
    "cstr (req_data (request_of_entry e)) = entry_message e"
    using assms(1) by (simp_all add: request_of_entry_def entry_ok_def c_string_def)
  with format_line_facts [OF assms(2,3) run assms(4-6)] run show ?thesis
    by (simp add: entry_text_def request_of_entry_def)
qed

lemma console_reads_entry: "reads_entry (console_handle render clock fn)"
  unfolding reads_entry_def
proof (intro allI impI ext)
  fix q q' s
  assume e: "entry_of_request q = entry_of_request q'"
  then have "req_log_level q = req_log_level q'" by (simp add: entry_of_request_def)
  with format_line_reads_entry [OF e] show "console_handle render clock fn q s = console_handle render clock fn q' s"
    by (simp add: console_handle_def)
qed

text \<open>What the console shows for a batch of entries whose lines are formatted at the times \<open>clock\<close> gives.\<close>

fun console_text :: "(int \<Rightarrow> string) \<Rightarrow> (nat \<Rightarrow> int) \<Rightarrow> lmk_format_fn option \<Rightarrow> nat \<Rightarrow> log_entry list \<Rightarrow> string" where
  "console_text render clock fn k [] = []"
| "console_text render clock fn k (e # es) =
     lmk_console_level_color (entry_level e) @ entry_text fn CONSOLE_OUT_SIZE (render (clock k)) e @ ANSI_RESET @
     console_text render clock fn (Suc k) es"

lemma console_fold:
  assumes "\<forall>e\<in>set es. entry_ok e" "ts_ok render (cn_ts s)" "\<forall>k. clock k \<noteq> 0" "\<forall>t. c_string (render t)"
  shows "cn_stdout (fold (\<lambda>e. console_handle render clock (lmk_get_format_fn name) (request_of_entry e)) es s) =
    cn_stdout s @ console_text render clock (lmk_get_format_fn name) (cn_tick s) es"
  using assms(1,2)
proof (induction es arbitrary: s)
  case Nil
  then show ?case by simp
next
  case (Cons e es)
  have pos: "0 < CONSOLE_OUT_SIZE" "CONSOLE_OUT_SIZE < 2 ^ 31" by (simp_all add: CONSOLE_OUT_SIZE_def LMK_LOG_MSG_MAX_SIZE_def)
  obtain out ts' where run: "lmk_format_log_line render (clock (cn_tick s)) (lmk_get_format_fn name) CONSOLE_OUT_SIZE
      (request_of_entry e) (cn_ts s) = (out, int (length (cstr out)), ts')"
    "cstr out = entry_text (lmk_get_format_fn name) CONSOLE_OUT_SIZE (render (clock (cn_tick s))) e" "ts_ok render ts'"
    using format_entry [OF _ pos(1,2) Cons.prems(2), of e "clock (cn_tick s)" name] Cons.prems(1) assms(3,4) by auto
  define s1 where "s1 = console_handle render clock (lmk_get_format_fn name) (request_of_entry e) s"
  have s1: "cn_stdout s1 = cn_stdout s @ lmk_console_level_color (entry_level e) @
      entry_text (lmk_get_format_fn name) CONSOLE_OUT_SIZE (render (clock (cn_tick s))) e @ ANSI_RESET"
    "cn_ts s1 = ts'" "cn_tick s1 = Suc (cn_tick s)"
    using run(1) by (simp_all add: s1_def console_handle_def run(2) [symmetric] request_of_entry_def)
  have "\<forall>e\<in>set es. entry_ok e" "ts_ok render (cn_ts s1)" using Cons.prems(1) run(3) s1(2) by auto
  from Cons.IH [OF this] show ?case using s1 by (simp add: s1_def [symmetric])
qed

section \<open>Properties\<close>

text \<open>
  C19. The console shows what was logged: one pass of the consumer thread over a ring ends, empties
  the ring, and appends to \<open>stdout\<close>, oldest message first, the colour of the level, the line in the
  handler's format at the current time, and the reset sequence.
\<close>

theorem console_pass_output:
  assumes "ring_invar r" "\<forall>e\<in>set (ring_contents r). entry_ok e" "ts_ok render (cn_ts s)"
    and "\<forall>k. clock k \<noteq> 0" "\<forall>t. c_string (render t)"
  shows "\<exists>r' s'. lmk_console_log_handler_thread_pass render clock (lmk_get_format_fn name) r s = Some (r', s') \<and>
    ring_invar r' \<and> ring_contents r' = [] \<and>
    cn_stdout s' = cn_stdout s @ console_text render clock (lmk_get_format_fn name) (cn_tick s) (ring_contents r)"
  using consumer_drain_spec [OF assms(1) console_reads_entry [of render clock "lmk_get_format_fn name"], of s]
    console_fold [OF assms(2-5), of name]
  by (auto simp: lmk_console_log_handler_thread_pass_def)


lemma sample_ring_entries_ok: "\<forall>e\<in>set (ring_contents sample_ring). entry_ok e"
  by (simp add: sample_ring_facts entry_ok_def entry_of_record_def sample_record_def LMK_LOG_MSG_MAX_SIZE_def)

theorem console_pass_output_witness:
  "\<exists>r' s'. lmk_console_log_handler_thread_pass (\<lambda>_. ''12:00'') (\<lambda>_. 5) (lmk_get_format_fn (Some ''simple'')) sample_ring
      \<lparr>cn_stdout = [], cn_ts = ts_start, cn_tick = 0\<rparr> = Some (r', s') \<and> ring_contents r' = [] \<and>
    cn_stdout s' = ANSI_WHITE @ ''12:00 [INFO ] m'' @ [CHR 0x0A] @ ANSI_RESET"
proof -
  have e: "entry_of_record (sample_record ''m'') ''h'' = \<lparr>entry_level = 2, entry_message = ''m'', entry_line = 7,
      entry_file = ''app.c'', entry_handler = ''h''\<rparr>"
    by (simp add: entry_of_record_def sample_record_def LMK_LOG_MSG_MAX_SIZE_def)
  have fn: "lmk_get_format_fn (Some ''simple'') = Some lmk_simple_format"
    by (simp add: lmk_get_format_fn_def strcaseeq_def tolower_def)
  have "console_text (\<lambda>_. ''12:00'') (\<lambda>_. 5) (Some lmk_simple_format) 0 (ring_contents sample_ring) =
      ANSI_WHITE @ ''12:00 [INFO ] m'' @ [CHR 0x0A] @ ANSI_RESET"
    by (simp add: sample_ring_facts e entry_text_def builtin_text_def simple_text_def pad_right_def CONSOLE_OUT_SIZE_def
        LMK_LOG_MSG_MAX_SIZE_def lmk_get_log_level_str_def g_log_level_str_def level_defs lmk_console_level_color_def)
  then show ?thesis
    using console_pass_output [OF sample_ring_facts(1) sample_ring_entries_ok,
        of "\<lambda>_. ''12:00''" "\<lparr>cn_stdout = [], cn_ts = ts_start, cn_tick = 0\<rparr>" "\<lambda>_. 5" "Some ''simple''"]
    by (auto simp: ts_ok_def ts_start_def fn)
qed

end
