(* ===== verification/File_Handler.thy ===== *)
theory File_Handler
  imports Console_Handler
begin

text \<open>
  The file handler (\<open>logmoko_file_log_handler.c\<close>): rotation, the 64 KiB staging buffer of the
  consumer, \<open>init\<close>, \<open>destroy\<close> and the setters. The file system is a map from paths to contents;
  an open file is the path it was opened at (the handler closes its file before it renames it).
  Whether a path can be opened is a parameter. \<open>stdio\<close> buffering is not modelled, and writes succeed:
  a write is in the file at once and in full (the code does not look at the result of \<open>fwrite\<close>).
  Operations that would pass a \<open>NULL\<close> file name to the C library have the result \<open>None\<close>.
\<close>

section \<open>Files\<close>

type_synonym files = "string \<rightharpoonup> string"

definition file_rename :: "string \<Rightarrow> string \<Rightarrow> files \<Rightarrow> files" where
  "file_rename old new fs =
     (case fs old of None \<Rightarrow> fs | Some c \<Rightarrow> if old = new then fs else fs(old := None, new \<mapsto> c))"

definition fopen_wt :: "(string \<Rightarrow> bool) \<Rightarrow> string \<Rightarrow> files \<Rightarrow> string option \<times> files" where
  "fopen_wt can_open path fs = (if can_open path then (Some path, fs(path \<mapsto> [])) else (None, fs))"

definition fopen_at :: "(string \<Rightarrow> bool) \<Rightarrow> string \<Rightarrow> files \<Rightarrow> string option \<times> files" where
  "fopen_at can_open path fs =
     (if can_open path then (Some path, if fs path = None then fs(path \<mapsto> []) else fs) else (None, fs))"

definition fwrite :: "string option \<Rightarrow> string \<Rightarrow> files \<Rightarrow> files" where
  "fwrite fp text fs =
     (case fp of None \<Rightarrow> fs
      | Some path \<Rightarrow> (case fs path of None \<Rightarrow> fs | Some c \<Rightarrow> fs(path \<mapsto> c @ text)))"

section \<open>Operations\<close>

definition LMK_DEFAULT_MAX_FILE_SIZE :: int where
  "LMK_DEFAULT_MAX_FILE_SIZE = 20 * 1024 * 1024"

definition LMK_DEFAULT_MAX_BACKUP_FILES :: int where
  "LMK_DEFAULT_MAX_BACKUP_FILES = 10"

definition LMK_WRITE_BUF_SIZE :: nat where
  "LMK_WRITE_BUF_SIZE = 64 * 1024"

definition LMK_MAX_LINE_SIZE :: nat where
  "LMK_MAX_LINE_SIZE = LMK_LOG_MSG_MAX_SIZE + 512"

text \<open>\<open>snprintf(path, 512, "%s.%d", filename, i)\<close>.\<close>

definition backup_path :: "string \<Rightarrow> int \<Rightarrow> string" where
  "backup_path filename i = cstr (fst (snprintf 512 (filename @ ''.'' @ dec_int i)))"

text \<open>The loop from \<open>max_backup_files - 1\<close> down to 1.\<close>

fun rotate_shift :: "string \<Rightarrow> nat \<Rightarrow> files \<Rightarrow> files" where
  "rotate_shift filename 0 fs = fs"
| "rotate_shift filename (Suc i) fs =
     rotate_shift filename i
       (file_rename (backup_path filename (int (Suc i))) (backup_path filename (int (Suc i) + 1)) fs)"

definition lmk_rotate_log_file :: "(string \<Rightarrow> bool) \<Rightarrow> file_part \<Rightarrow> files \<Rightarrow> (file_part \<times> files) option" where
  "lmk_rotate_log_file can_open p fs = do {
     f \<leftarrow> fp_filename p;
     let fs = rotate_shift f (nat (fp_max_backup_files p - 1)) fs;
     let fs = (if fp_max_backup_files p > 0 then file_rename f (backup_path f 1) fs else fs);
     let (fp, fs) = fopen_wt can_open f fs;
     Some (p\<lparr>fp_log_fp := fp, fp_current_file_size := 0\<rparr>, fs) }"

text \<open>The consumer's state: the files, the handler's own fields, the staged bytes \<open>wbuf[0..wpos)\<close>,
  the timestamp cache and the number of calls of \<open>time\<close>.\<close>

record file_state =
  fl_fs :: files
  fl_part :: file_part
  fl_wbuf :: string
  fl_ts :: ts_state
  fl_tick :: nat

text \<open>Write the staged bytes out and rotate if the file has reached its limit.\<close>

definition write_staged :: "(string \<Rightarrow> bool) \<Rightarrow> file_state \<Rightarrow> file_state option" where
  "write_staged can_open s = do {
     let fs = fwrite (fp_log_fp (fl_part s)) (fl_wbuf s) (fl_fs s);
     let p = (fl_part s)\<lparr>fp_current_file_size := fp_current_file_size (fl_part s) + int (length (fl_wbuf s))\<rparr>;
     (p, fs) \<leftarrow> (if fp_max_file_size p > 0 \<and> fp_current_file_size p \<ge> fp_max_file_size p
                then lmk_rotate_log_file can_open p fs else Some (p, fs));
     Some (s\<lparr>fl_fs := fs, fl_part := p, fl_wbuf := []\<rparr>) }"

definition file_handle ::
  "(string \<Rightarrow> bool) \<Rightarrow> (int \<Rightarrow> string) \<Rightarrow> (nat \<Rightarrow> int) \<Rightarrow> lmk_format_fn option \<Rightarrow> lmk_log_request \<Rightarrow> file_state
    \<Rightarrow> file_state option" where
  "file_handle can_open render clock fn req s =
     (if fp_log_fp (fl_part s) = None then Some s
      else do {
        s \<leftarrow> (if length (fl_wbuf s) + LMK_MAX_LINE_SIZE > LMK_WRITE_BUF_SIZE then write_staged can_open s else Some s);
        let (out, n, ts) = lmk_format_log_line render (clock (fl_tick s)) fn
          (LMK_WRITE_BUF_SIZE - length (fl_wbuf s)) req (fl_ts s);
        Some (s\<lparr>fl_wbuf := (if n > 0 then fl_wbuf s @ take (nat n) out else fl_wbuf s),
             fl_ts := ts, fl_tick := Suc (fl_tick s)\<rparr>) })"

definition idle_flush :: "(string \<Rightarrow> bool) \<Rightarrow> file_state \<Rightarrow> file_state option" where
  "idle_flush can_open s =
     (if fl_wbuf s \<noteq> [] \<and> fp_log_fp (fl_part s) \<noteq> None then write_staged can_open s else Some s)"

text \<open>One pass of the outer loop up to the test of \<open>running\<close>. The inner loop carries the state, or \<open>None\<close>
  once an iteration has been undefined.\<close>

definition lmk_file_log_handler_thread_pass ::
  "(string \<Rightarrow> bool) \<Rightarrow> (int \<Rightarrow> string) \<Rightarrow> (nat \<Rightarrow> int) \<Rightarrow> lmk_format_fn option \<Rightarrow> lmk_ring \<Rightarrow> file_state
    \<Rightarrow> (lmk_ring \<times> file_state) option" where
  "lmk_file_log_handler_thread_pass can_open render clock fn r s = do {
     (r, s) \<leftarrow> consumer_drain (\<lambda>req s. Option.bind s (file_handle can_open render clock fn req)) r (Some s);
     s \<leftarrow> s;
     s \<leftarrow> idle_flush can_open s;
     Some (r, s) }"

text \<open>The final flush after the loop.\<close>

definition final_flush :: "file_state \<Rightarrow> file_state" where
  "final_flush s =
     (if fl_wbuf s \<noteq> [] \<and> fp_log_fp (fl_part s) \<noteq> None
      then s\<lparr>fl_fs := fwrite (fp_log_fp (fl_part s)) (fl_wbuf s) (fl_fs s), fl_wbuf := []\<rparr> else s)"

definition lmk_file_log_handler_init ::
  "(string \<Rightarrow> bool) \<Rightarrow> lmk_config \<Rightarrow> bool \<Rightarrow> bool \<Rightarrow> file_part \<Rightarrow> lmk_log_handler \<Rightarrow> files \<Rightarrow> (lmk_log_handler \<times> files) option" where
  "lmk_file_log_handler_init can_open cfg malloc_ok thread_ok p h fs = do {
     f \<leftarrow> fp_filename p;
     let (fp, fs) = fopen_at can_open f fs;
     let size = (case fp of None \<Rightarrow> fp_current_file_size p
                  | Some path \<Rightarrow> (case fs path of None \<Rightarrow> 0 | Some c \<Rightarrow> int (length c)));
     let p = p\<lparr>fp_log_fp := (if malloc_ok \<and> thread_ok then fp else None), fp_current_file_size := size\<rparr>;
     Some ((async_init cfg malloc_ok thread_ok h)\<lparr>lh_ext := File_ext p\<rparr>, fs) }"

definition lmk_file_log_handler_log_impl :: "lmk_log_record \<Rightarrow> lmk_log_handler \<Rightarrow> lmk_log_handler option" where
  "lmk_file_log_handler_log_impl rec h = async_log_impl rec h"

definition lmk_file_log_handler_destroy :: "file_part \<Rightarrow> lmk_log_handler \<Rightarrow> lmk_log_handler \<times> string" where
  "lmk_file_log_handler_destroy p h =
     (let (h, report) = async_destroy (''file handler '' @ [CHR 0x27] @ handler_name h @ [CHR 0x27]) h
      in (h\<lparr>lh_ext := File_ext (p\<lparr>fp_log_fp := None, fp_filename := None\<rparr>)\<rparr>, report))"

definition lmk_set_log_rotation :: "int \<Rightarrow> int \<Rightarrow> lmk_log_handler \<Rightarrow> lmk_log_handler" where
  "lmk_set_log_rotation max_file_size max_backup_files h =
     (case lh_ext h of
        File_ext p \<Rightarrow> h\<lparr>lh_ext := File_ext (p\<lparr>fp_max_file_size := max_file_size, fp_max_backup_files := max_backup_files\<rparr>)\<rparr>
      | _ \<Rightarrow> h)"

text \<open>The handler is not \<open>NULL\<close> (it is dereferenced before the test); \<open>None\<close> is a \<open>NULL\<close> name,
  \<open>dup_ok\<close> the success of \<open>lmk_strdup\<close>.\<close>

definition lmk_set_log_filename :: "string option \<Rightarrow> bool \<Rightarrow> lmk_log_handler \<Rightarrow> lmk_log_handler" where
  "lmk_set_log_filename filename dup_ok h =
     (case (filename, lh_ext h) of
        (Some f, File_ext p) \<Rightarrow> h\<lparr>lh_ext := File_ext (p\<lparr>fp_filename := (if dup_ok then Some f else None)\<rparr>)\<rparr>
      | _ \<Rightarrow> h)"


section \<open>Backup names\<close>

lemma dec_nat_inj: "dec_nat m = dec_nat n \<Longrightarrow> m = n"
  using digits_val_dec_nat [of "[]" m] digits_val_dec_nat [of "[]" n] by simp

text \<open>The file name and all its backup names up to \<open>k\<close> fit the 512-byte path buffers.\<close>

definition paths_fit :: "string \<Rightarrow> nat \<Rightarrow> bool" where
  "paths_fit f k \<longleftrightarrow> c_string f \<and> (\<forall>i\<le>k. length f + 1 + length (dec_nat i) < 512)"

lemma paths_fit_mono: "paths_fit f k \<Longrightarrow> i \<le> k \<Longrightarrow> paths_fit f i"
  by (auto simp: paths_fit_def)

lemma backup_path_eq:
  assumes "paths_fit f k" "i \<le> k"
  shows "backup_path f (int i) = f @ ''.'' @ dec_nat i"
proof -
  have "NUL \<notin> set (dec_int (int i))" by simp
  then have "c_string (f @ ''.'' @ dec_nat i)" "length (f @ ''.'' @ dec_nat i) \<le> 511"
    using assms by (auto simp: paths_fit_def c_string_def dec_int_def)
  moreover have "cstr (s @ [NUL]) = s" if "c_string s" for s using that by (simp add: c_string_def)
  ultimately show ?thesis unfolding backup_path_def snprintf_def dec_int_def by (simp del: append_assoc flip: append_assoc)
qed

lemma backup_path_inj:
  assumes "paths_fit f k" "i \<le> k" "j \<le> k"
  shows "backup_path f (int i) = backup_path f (int j) \<longleftrightarrow> i = j" "backup_path f (int i) \<noteq> f"
  using backup_path_eq [OF assms(1,2)] backup_path_eq [OF assms(1,3)] dec_nat_inj by auto

section \<open>Rotation\<close>

lemma file_rename_at:
  "file_rename old new fs q =
    (if fs old = None \<or> old = new then fs q else if q = new then fs old else if q = old then None else fs q)"
  by (simp add: file_rename_def split: option.splits)

text \<open>Where each backup comes from after the loop has renamed \<open>n\<close> to \<open>n + 1\<close>, down to 1 to 2.\<close>

definition shifted :: "string \<Rightarrow> nat \<Rightarrow> files \<Rightarrow> nat \<Rightarrow> string option" where
  "shifted f n fs j =
     (if n = 0 then fs (backup_path f (int j))
      else if j = 1 then None
      else if j = Suc n then (if fs (backup_path f (int n)) = None then fs (backup_path f (int j)) else fs (backup_path f (int n)))
      else if 1 < j \<and> j \<le> n then fs (backup_path f (int (j - 1)))
      else fs (backup_path f (int j)))"

lemma rotate_shift_spec:
  assumes "paths_fit f (Suc n)"
  shows "(\<forall>j. 1 \<le> j \<and> j \<le> Suc n \<longrightarrow> rotate_shift f n fs (backup_path f (int j)) = shifted f n fs j) \<and>
    (\<forall>q. (\<forall>j. 1 \<le> j \<and> j \<le> Suc n \<longrightarrow> q \<noteq> backup_path f (int j)) \<longrightarrow> rotate_shift f n fs q = fs q)"
  using assms
proof (induction n arbitrary: fs)
  case 0
  then show ?case by (simp add: shifted_def)
next
  case (Suc n)
  let ?B = "\<lambda>j. backup_path f (int j)"
  define fs1 where "fs1 = file_rename (?B (Suc n)) (?B (Suc (Suc n))) fs"
  have step: "rotate_shift f (Suc n) fs = rotate_shift f n fs1"
    by (simp add: fs1_def add.commute)
  have "paths_fit f (Suc n)" using Suc.prems by (rule paths_fit_mono) simp
  note IH = Suc.IH [OF this, of fs1]
  note inj = backup_path_inj(1) [OF Suc.prems]
  have fs1: "fs1 (?B i) = (if i = Suc (Suc n) then (if fs (?B (Suc n)) = None then fs (?B i) else fs (?B (Suc n)))
         else if i = Suc n then None else fs (?B i))" if "i \<le> Suc (Suc n)" for i
    unfolding fs1_def file_rename_at using that inj [of i "Suc n"] inj [of i "Suc (Suc n)"] inj [of "Suc n" "Suc (Suc n)"]
    by (auto simp del: of_nat_Suc)
  have "rotate_shift f n fs1 (?B j) = shifted f (Suc n) fs j" if j: "1 \<le> j" "j \<le> Suc (Suc n)" for j
  proof (cases "j = Suc (Suc n)")
    case True
    then have "\<forall>i. 1 \<le> i \<and> i \<le> Suc n \<longrightarrow> ?B j \<noteq> ?B i" using inj [of j] by simp
    then have "rotate_shift f n fs1 (?B j) = fs1 (?B j)" using IH by blast
    then show ?thesis using True fs1 [of j] by (simp add: shifted_def)
  next
    case False
    then have "rotate_shift f n fs1 (?B j) = shifted f n fs1 j" using IH j by simp
    also have "\<dots> = shifted f (Suc n) fs j"
      using False j fs1 [of j] fs1 [of n] fs1 [of "j - 1"] by (auto simp: shifted_def simp del: of_nat_Suc of_nat_diff)
    finally show ?thesis .
  qed
  moreover have "rotate_shift f n fs1 q = fs q" if q: "\<forall>j. 1 \<le> j \<and> j \<le> Suc (Suc n) \<longrightarrow> q \<noteq> ?B j" for q
  proof -
    have "rotate_shift f n fs1 q = fs1 q" using IH q by simp
    also have "\<dots> = fs q" unfolding fs1_def file_rename_at using q by (auto simp del: of_nat_Suc)
    finally show ?thesis .
  qed
  ultimately show ?case unfolding step by blast
qed


lemma rotate_files:
  assumes "paths_fit f k" "fp_filename p = Some f" "fp_max_backup_files p = int k" "0 < k" "can_open f" "fs f = Some c"
    and "lmk_rotate_log_file can_open p fs = Some (p', fs')"
  shows "p' = p\<lparr>fp_log_fp := Some f, fp_current_file_size := 0\<rparr>" "fs' f = Some []"
    "fs' (backup_path f 1) = Some c"
    "\<And>j. 2 \<le> j \<Longrightarrow> j \<le> k \<Longrightarrow> fs' (backup_path f (int j)) =
      (if j = k \<and> fs (backup_path f (int (k - 1))) = None then fs (backup_path f (int k))
       else fs (backup_path f (int (j - 1))))"
    "\<And>q. q \<noteq> f \<Longrightarrow> (\<And>j. 1 \<le> j \<Longrightarrow> j \<le> k \<Longrightarrow> q \<noteq> backup_path f (int j)) \<Longrightarrow> fs' q = fs q"
proof -
  let ?B = "\<lambda>j. backup_path f (int j)"
  obtain n where n: "k = Suc n" using assms(4) by (cases k) auto
  define fs1 where "fs1 = rotate_shift f n fs"
  note shift = rotate_shift_spec [OF assms(1) [unfolded n], of fs, folded fs1_def]
  have nf: "?B j \<noteq> f" if "j \<le> k" for j using backup_path_inj(2) [OF assms(1) that that] .
  have inj: "?B i = ?B j \<longleftrightarrow> i = j" if "i \<le> k" "j \<le> k" for i j by (rule backup_path_inj(1) [OF assms(1) that])
  have f1: "fs1 f = Some c" using shift nf n assms(6) by (metis less_eq_Suc_le not_less_eq_eq)
  have run: "fs' = (file_rename f (?B 1) fs1)(f \<mapsto> [])" "p' = p\<lparr>fp_log_fp := Some f, fp_current_file_size := 0\<rparr>"
    using assms(2-5,7) n by (auto simp: lmk_rotate_log_file_def fopen_wt_def fs1_def Let_def)
  have B1: "?B 1 \<noteq> f" using nf [of 1] n by simp
  have fs': "fs' q = (if q = f then Some [] else if q = ?B 1 then Some c else fs1 q)" for q
    using f1 B1 by (auto simp: run(1) file_rename_at)
  show "p' = p\<lparr>fp_log_fp := Some f, fp_current_file_size := 0\<rparr>" by (rule run(2))
  show "fs' f = Some []" "fs' (backup_path f 1) = Some c" using fs' [of f] fs' [of "?B 1"] B1 by simp_all
  show "fs' (?B j) = (if j = k \<and> fs (?B (k - 1)) = None then fs (?B k) else fs (?B (j - 1)))" if "2 \<le> j" "j \<le> k" for j
  proof -
    have "fs' (?B j) = fs1 (?B j)" using fs' [of "?B j"] nf [of j] inj [of j 1] that n by simp
    also have "\<dots> = shifted f n fs j" using shift that n by simp
    finally show ?thesis using that n by (auto simp: shifted_def)
  qed
  show "fs' q = fs q" if "q \<noteq> f" "\<And>j. 1 \<le> j \<Longrightarrow> j \<le> k \<Longrightarrow> q \<noteq> ?B j" for q
  proof -
    have "fs1 q = fs q" using shift that(2) n by simp
    moreover have "q \<noteq> ?B 1" using that(2) [of 1] n by simp
    ultimately show ?thesis using fs' [of q] that(1) by simp
  qed
qed

section \<open>Segments\<close>

text \<open>The files of a log are its segments: the backups that exist, from the oldest to the newest, then
  the file itself. The backups have no gaps: if \<open>filename.(j+1)\<close> exists, so does \<open>filename.j\<close>.\<close>

definition seg_path :: "string \<Rightarrow> nat \<Rightarrow> string" where
  "seg_path f j = (if j = 0 then f else backup_path f (int j))"

definition file_text :: "files \<Rightarrow> string \<Rightarrow> string" where
  "file_text fs path = (case fs path of None \<Rightarrow> [] | Some c \<Rightarrow> c)"

definition segments :: "string \<Rightarrow> nat \<Rightarrow> files \<Rightarrow> string list" where
  "segments f k fs = map (file_text fs) (filter (\<lambda>path. fs path \<noteq> None) (map (seg_path f) (rev [0..<Suc k])))"

definition no_gaps :: "string \<Rightarrow> nat \<Rightarrow> files \<Rightarrow> bool" where
  "no_gaps f k fs \<longleftrightarrow> (\<forall>j<k. fs (seg_path f (Suc j)) \<noteq> None \<longrightarrow> fs (seg_path f j) \<noteq> None)"

text \<open>The newest \<open>k\<close> backups of a history of segments, and the current one.\<close>

definition newest :: "nat \<Rightarrow> 'a list \<Rightarrow> 'a list" where
  "newest k H = drop (length H - Suc k) H"

text \<open>\<open>H\<close> is the history \<open>S\<close> after \<open>text\<close> has been appended: the last segment of \<open>S\<close> grows, and a segment is
  closed and a new one begun only when it has reached the limit.\<close>

definition extends :: "int \<Rightarrow> string list \<Rightarrow> string \<Rightarrow> string list \<Rightarrow> bool" where
  "extends limit S text H \<longleftrightarrow> (\<exists>x xs. H = butlast S @ (last S @ x) # xs \<and> x @ concat xs = text \<and>
     (\<forall>c\<in>set (butlast ((last S @ x) # xs)). 0 < limit \<and> limit \<le> int (length c)))"

lemma extends_append: "S \<noteq> [] \<Longrightarrow> extends limit S text (butlast S @ [last S @ text])"
  unfolding extends_def by (intro exI [of _ "text"] exI [of _ "[]"]) simp

lemma extends_refl: "S \<noteq> [] \<Longrightarrow> extends limit S [] S"
  using extends_append [of S limit "[]"] by simp

lemma extends_nonempty: "extends limit S text H \<Longrightarrow> H \<noteq> []"
  by (auto simp: extends_def)

lemma extends_close:
  assumes "S \<noteq> []" "0 < limit" "limit \<le> int (length (last S @ text))"
  shows "extends limit S text (butlast S @ [last S @ text] @ [[]])"
  unfolding extends_def using assms by (intro exI [of _ "text"] exI [of _ "[[]]"]) simp

lemma extends_unlimited:
  assumes "S \<noteq> []" "extends limit S text H" "limit \<le> 0"
  shows "length H = length S"
proof -
  obtain x xs where x: "H = butlast S @ (last S @ x) # xs" "\<forall>c\<in>set (butlast ((last S @ x) # xs)). 0 < limit"
    using assms(2) by (auto simp: extends_def)
  then have "xs = []" using assms(3) by (cases xs) auto
  then show ?thesis using x(1) assms(1) by simp
qed

lemma extends_concat: "S \<noteq> [] \<Longrightarrow> extends limit S text H \<Longrightarrow> concat H = concat S @ text"
  using concat_append [of "butlast S" "[last S]"] by (auto simp: extends_def)

lemma extends_trans:
  assumes "extends limit S a H" "extends limit H b G"
  shows "extends limit S (a @ b) G"
proof -
  obtain x xs where x: "H = butlast S @ (last S @ x) # xs" "x @ concat xs = a"
    "\<forall>c\<in>set (butlast ((last S @ x) # xs)). 0 < limit \<and> limit \<le> int (length c)"
    using assms(1) by (auto simp: extends_def)
  obtain y ys where y: "G = butlast H @ (last H @ y) # ys" "y @ concat ys = b"
    "\<forall>c\<in>set (butlast ((last H @ y) # ys)). 0 < limit \<and> limit \<le> int (length c)"
    using assms(2) by (auto simp: extends_def)
  show ?thesis
  proof (cases xs rule: rev_cases)
    case Nil
    then show ?thesis
      using x y unfolding extends_def by (intro exI [of _ "x @ y"] exI [of _ ys]) (simp add: butlast_append)
  next
    case (snoc zs z)
    then show ?thesis
      using x y unfolding extends_def by (intro exI [of _ x] exI [of _ "zs @ (z @ y) # ys"]) (auto simp: butlast_append)
  qed
qed

text \<open>Forgetting old segments first and extending then is extending first.\<close>

lemma newest_extends:
  assumes "S = newest k H" "H \<noteq> []" "extends limit S text G"
  shows "\<exists>G'. extends limit H text G' \<and> newest k G' = newest k G"
proof -
  define old where "old = take (length H - Suc k) H"
  have H: "H = old @ S" by (simp add: old_def assms(1) newest_def)
  have len: "length S = min (length H) (Suc k)" by (simp add: assms(1) newest_def)
  then have "0 < length S" using assms(2) by simp
  then have S: "S \<noteq> []" by simp
  obtain x xs where x: "G = butlast S @ (last S @ x) # xs" "x @ concat xs = text"
    "\<forall>c\<in>set (butlast ((last S @ x) # xs)). 0 < limit \<and> limit \<le> int (length c)"
    using assms(3) by (auto simp: extends_def)
  have "extends limit H text (old @ G)"
    using x S unfolding extends_def H by (intro exI [of _ x] exI [of _ xs]) (simp add: butlast_append)
  moreover have "newest k (old @ G) = newest k G"
  proof (cases "old = []")
    case False
    then have "0 < length H - Suc k" unfolding old_def by (metis take_eq_Nil gr0I)
    then have "Suc k \<le> length G" using len x(1) S by (simp add: min_def split: if_splits)
    then show ?thesis by (simp add: newest_def)
  qed simp
  ultimately show ?thesis by blast
qed

lemma seg_path_inj:
  assumes "paths_fit f k" "i \<le> k" "j \<le> k"
  shows "seg_path f i = seg_path f j \<longleftrightarrow> i = j"
  using backup_path_inj [OF assms] backup_path_inj(2) [OF assms(1,3,2)] by (auto simp: seg_path_def)

text \<open>Without gaps, the segments are those up to some number.\<close>

lemma no_gaps_prefix:
  assumes "no_gaps f k fs" "fs f \<noteq> None"
  obtains m where "m \<le> k" "\<And>j. j \<le> k \<Longrightarrow> fs (seg_path f j) \<noteq> None \<longleftrightarrow> j \<le> m"
proof -
  define m where "m = Max {j. j \<le> k \<and> fs (seg_path f j) \<noteq> None}"
  have fin: "finite {j. j \<le> k \<and> fs (seg_path f j) \<noteq> None}" by simp
  have "0 \<in> {j. j \<le> k \<and> fs (seg_path f j) \<noteq> None}" using assms(2) by (simp add: seg_path_def)
  then have "m \<in> {j. j \<le> k \<and> fs (seg_path f j) \<noteq> None}" unfolding m_def by (intro Max_in [OF fin]) auto
  then have m: "m \<le> k" "fs (seg_path f m) \<noteq> None" by simp_all
  have down: "fs (seg_path f (m - i)) \<noteq> None" if "i \<le> m" for i using that
  proof (induction i)
    case (Suc i)
    have "Suc (m - Suc i) = m - i" "m - Suc i < k" using Suc.prems m(1) by simp_all
    with Suc assms(1) show ?case unfolding no_gaps_def by (metis Suc_leD)
  qed (use m in simp)
  have "fs (seg_path f j) \<noteq> None \<longleftrightarrow> j \<le> m" if "j \<le> k" for j
  proof
    assume "fs (seg_path f j) \<noteq> None"
    then show "j \<le> m" unfolding m_def using that by (intro Max_ge [OF fin]) simp
  next
    assume "j \<le> m"
    then show "fs (seg_path f j) \<noteq> None" using down [of "m - j"] by simp
  qed
  with m(1) show ?thesis by (rule that)
qed

lemma segments_upto:
  assumes "m \<le> k" "\<And>j. j \<le> k \<Longrightarrow> fs (seg_path f j) \<noteq> None \<longleftrightarrow> j \<le> m"
  shows "segments f k fs = map (\<lambda>j. file_text fs (seg_path f j)) (rev [0..<Suc m])"
proof -
  have "filter (\<lambda>j. fs (seg_path f j) \<noteq> None) [0..<Suc k] = filter (\<lambda>j. j \<le> m) [0..<Suc k]"
    by (rule filter_cong [OF refl], rule assms(2)) auto
  also have "\<dots> = filter (\<lambda>j. j \<le> m) ([0..<Suc m] @ [Suc m..<Suc k])" using upt_add_eq_append [of 0 "Suc m" "k - m"] assms(1) by simp
  also have "\<dots> = [0..<Suc m]" by (simp add: filter_empty_conv filter_id_conv del: upt_Suc)
  finally have "filter (\<lambda>j. fs (seg_path f j) \<noteq> None) (rev [0..<Suc k]) = rev [0..<Suc m]" by (simp add: rev_filter [symmetric] del: upt_Suc)
  then show ?thesis by (simp add: segments_def filter_map o_def del: upt_Suc)
qed

lemma segments_last: "fs f = Some c \<Longrightarrow> segments f k fs \<noteq> [] \<and> last (segments f k fs) = c"
  by (simp add: segments_def file_text_def seg_path_def upt_conv_Cons del: upt_Suc)

text \<open>Appending to the file extends the last segment.\<close>

lemma segments_write:
  assumes "paths_fit f k" "fs f = Some c"
  shows "segments f k (fs(f \<mapsto> d)) = butlast (segments f k fs) @ [d]" "no_gaps f k (fs(f \<mapsto> d)) = no_gaps f k fs"
proof -
  have other: "seg_path f (Suc j) \<noteq> f" if "Suc j \<le> k" for j
    using backup_path_inj(2) [OF assms(1) that that] by (simp add: seg_path_def)
  have old: "map (file_text (fs(f \<mapsto> d))) (filter (\<lambda>path. (fs(f \<mapsto> d)) path \<noteq> None) (map (seg_path f) (rev [1..<Suc k]))) =
      map (file_text fs) (filter (\<lambda>path. fs path \<noteq> None) (map (seg_path f) (rev [1..<Suc k])))" (is "?l = ?r")
  proof -
    have ne: "path \<noteq> f" if path: "path \<in> set (map (seg_path f) (rev [1..<Suc k]))" for path
    proof -
      obtain j where "path = seg_path f j" "1 \<le> j" "j \<le> k" using path by (auto simp del: upt_Suc)
      then show ?thesis using other [of "j - 1"] by simp
    qed
    have "filter (\<lambda>path. (fs(f \<mapsto> d)) path \<noteq> None) (map (seg_path f) (rev [1..<Suc k])) =
        filter (\<lambda>path. fs path \<noteq> None) (map (seg_path f) (rev [1..<Suc k]))"
      by (rule filter_cong) (use ne in auto)
    then show ?thesis using ne by (auto simp: file_text_def intro!: map_cong)
  qed
  have "rev [0..<Suc k] = rev [1..<Suc k] @ [0]" by (simp add: upt_conv_Cons del: upt_Suc)
  then have "segments f k gs = map (file_text gs) (filter (\<lambda>path. gs path \<noteq> None) (map (seg_path f) (rev [1..<Suc k]))) @
      (if gs f = None then [] else [file_text gs f])" for gs
    by (simp add: segments_def seg_path_def del: upt_Suc)
  then show "segments f k (fs(f \<mapsto> d)) = butlast (segments f k fs) @ [d]" using old assms(2) by (simp add: file_text_def)
  show "no_gaps f k (fs(f \<mapsto> d)) = no_gaps f k fs"
  proof -
    have "(fs(f \<mapsto> d)) q = None \<longleftrightarrow> fs q = None" for q using assms(2) by auto
    then show ?thesis unfolding no_gaps_def by (simp only:)
  qed
qed

text \<open>Rotation closes the current segment and keeps the newest \<open>k\<close> backups.\<close>

lemma rotate_segments:
  assumes "paths_fit f k" "fp_filename p = Some f" "fp_max_backup_files p = int k" "0 < k" "can_open f" "fs f = Some c"
    and "lmk_rotate_log_file can_open p fs = Some (p', fs')" "no_gaps f k fs"
  shows "segments f k fs' = newest k (segments f k fs @ [[]])" "no_gaps f k fs'"
proof -
  note rot = rotate_files [OF assms(1-7)]
  obtain m where m: "m \<le> k" "\<And>j. j \<le> k \<Longrightarrow> fs (seg_path f j) \<noteq> None \<longleftrightarrow> j \<le> m"
    using no_gaps_prefix [OF assms(8)] assms(6) by auto
  have up: "fs' (seg_path f (Suc j)) = fs (seg_path f j)" if "Suc j \<le> k" for j
  proof (cases "j = 0")
    case False
    have "fs (seg_path f k) = None" if "Suc j = k" "fs (seg_path f j) = None"
      using that m(2) [of j] m(2) [of k] by auto
    then show ?thesis using rot(4) [of "Suc j"] that False by (auto simp: seg_path_def)
  qed (use rot(3) assms(6) in \<open>simp add: seg_path_def\<close>)
  have f: "fs' (seg_path f 0) = Some []" using rot(2) by (simp add: seg_path_def)
  have m': "fs' (seg_path f j) \<noteq> None \<longleftrightarrow> j \<le> min k (Suc m)" if "j \<le> k" for j
  proof (cases j)
    case (Suc i)
    then show ?thesis using up [of i] m(2) [of i] that by simp
  qed (use f in simp)
  have "segments f k fs' = map (\<lambda>j. file_text fs' (seg_path f j)) (rev [0..<Suc (min k (Suc m))])"
    by (rule segments_upto) (use m' in auto)
  also have "rev [0..<Suc (min k (Suc m))] = map Suc (rev [0..<min k (Suc m)]) @ [0]"
    by (simp add: upt_rec [of 0 "Suc (min k (Suc m))"] map_Suc_upt [symmetric] rev_map del: upt_Suc)
  also have "map (\<lambda>j. file_text fs' (seg_path f j)) \<dots> = map (\<lambda>j. file_text fs (seg_path f j)) (rev [0..<min k (Suc m)]) @ [[]]"
    using up f by (auto simp: file_text_def)
  also have "\<dots> = newest k (map (\<lambda>j. file_text fs (seg_path f j)) (rev [0..<Suc m]) @ [[]])"
  proof (cases "m = k")
    case False
    then have "min k (Suc m) = Suc m" using m(1) by simp
    then show ?thesis using m(1) False by (simp add: newest_def del: upt_Suc)
  qed (simp add: newest_def)
  also have "map (\<lambda>j. file_text fs (seg_path f j)) (rev [0..<Suc m]) = segments f k fs" by (rule segments_upto [OF m, symmetric])
  finally show "segments f k fs' = newest k (segments f k fs @ [[]])" .
  show "no_gaps f k fs'" using m' by (auto simp: no_gaps_def)
qed

section \<open>The consumer\<close>

text \<open>The handler has its file open and its fields agree with the file system.\<close>

definition file_inv :: "(string \<Rightarrow> bool) \<Rightarrow> string \<Rightarrow> nat \<Rightarrow> file_state \<Rightarrow> bool" where
  "file_inv can_open f k s \<longleftrightarrow> paths_fit f k \<and> 0 < k \<and> can_open f \<and> no_gaps f k (fl_fs s) \<and>
     fp_filename (fl_part s) = Some f \<and> fp_log_fp (fl_part s) = Some f \<and>
     fp_max_backup_files (fl_part s) = int k \<and> fl_fs s f \<noteq> None \<and>
     fp_current_file_size (fl_part s) = int (length (file_text (fl_fs s) f)) \<and>
     length (fl_wbuf s) \<le> LMK_WRITE_BUF_SIZE"

text \<open>From \<open>s\<close> to \<open>s'\<close>, what was staged and \<open>text\<close> has been written, up to what is staged in \<open>s'\<close>; the files
  hold the newest segments of the history that this makes.\<close>

definition kept_after :: "string \<Rightarrow> nat \<Rightarrow> file_state \<Rightarrow> string \<Rightarrow> file_state \<Rightarrow> bool" where
  "kept_after f k s text s' \<longleftrightarrow>
     (\<exists>written H. fl_wbuf s @ text = written @ fl_wbuf s' \<and>
        extends (fp_max_file_size (fl_part s)) (segments f k (fl_fs s)) written H \<and> segments f k (fl_fs s') = newest k H) \<and>
     fp_max_file_size (fl_part s') = fp_max_file_size (fl_part s)"

lemma kept_after_trans:
  assumes "kept_after f k s a t" "kept_after f k t b u"
  shows "kept_after f k s (a @ b) u"
proof -
  let ?l = "fp_max_file_size (fl_part s)"
  obtain x H where x: "fl_wbuf s @ a = x @ fl_wbuf t" "extends ?l (segments f k (fl_fs s)) x H" "segments f k (fl_fs t) = newest k H"
    "fp_max_file_size (fl_part t) = ?l" using assms(1) by (auto simp: kept_after_def)
  obtain y G where y: "fl_wbuf t @ b = y @ fl_wbuf u" "extends ?l (segments f k (fl_fs t)) y G" "segments f k (fl_fs u) = newest k G"
    "fp_max_file_size (fl_part u) = ?l" using assms(2) x(4) by (auto simp: kept_after_def)
  obtain G' where G': "extends ?l H y G'" "newest k G' = newest k G"
    using newest_extends [OF x(3) extends_nonempty [OF x(2)] y(2)] by blast
  have "fl_wbuf s @ a @ b = (x @ y) @ fl_wbuf u" using x(1) y(1) by (metis append.assoc)
  then show ?thesis
    using extends_trans [OF x(2) G'(1)] G'(2) y(3,4) unfolding kept_after_def by (metis)
qed

lemma segments_length: "length (segments f k fs) \<le> Suc k"
  using length_filter_le [of "\<lambda>path. fs path \<noteq> None" "map (seg_path f) (rev [0..<Suc k])"] by (simp add: segments_def del: upt_Suc)

lemma segments_newest: "newest k (segments f k fs) = segments f k fs"
  using segments_length [of f k fs] by (simp add: newest_def)

lemma kept_after_staged:
  assumes "fl_fs s f \<noteq> None" "fl_wbuf s' = fl_wbuf s @ text" "fl_fs s' = fl_fs s" "fl_part s' = fl_part s"
  shows "kept_after f k s text s'"
proof -
  have "segments f k (fl_fs s) \<noteq> []" using assms(1) segments_last [of "fl_fs s" f] by auto
  from extends_refl [OF this] show ?thesis
    using assms(2-4) segments_newest unfolding kept_after_def by (metis append_Nil)
qed

text \<open>The two outcomes of a write: the file is below its limit, or it is rotated.\<close>

lemma write_staged_cases:
  assumes inv: "file_inv can_open f k s" and c: "fl_fs s f = Some c"
  defines "fs1 \<equiv> (fl_fs s)(f \<mapsto> c @ fl_wbuf s)"
    and "p1 \<equiv> (fl_part s)\<lparr>fp_current_file_size := int (length (c @ fl_wbuf s))\<rparr>"
    and "limit \<equiv> fp_max_file_size (fl_part s)"
  shows "write_staged can_open s = (if 0 < limit \<and> limit \<le> int (length (c @ fl_wbuf s))
    then map_option (\<lambda>(p, fs). s\<lparr>fl_fs := fs, fl_part := p, fl_wbuf := []\<rparr>) (lmk_rotate_log_file can_open p1 fs1)
    else Some (s\<lparr>fl_fs := fs1, fl_part := p1, fl_wbuf := []\<rparr>))"
proof -
  have "fwrite (fp_log_fp (fl_part s)) (fl_wbuf s) (fl_fs s) = fs1"
    using inv c by (simp add: fwrite_def fs1_def file_inv_def)
  moreover have "(fl_part s)\<lparr>fp_current_file_size := fp_current_file_size (fl_part s) + int (length (fl_wbuf s))\<rparr> = p1"
    using inv c by (simp add: p1_def file_inv_def file_text_def)
  moreover have "fp_max_file_size p1 = limit" "fp_current_file_size p1 = int (length (c @ fl_wbuf s))" by (simp_all add: p1_def limit_def)
  ultimately show ?thesis
    by (simp add: write_staged_def Let_def) (auto simp: map_option_bind bind_map_option split_beta split: option.splits Option.bind_splits)
qed

lemma write_staged_spec:
  assumes inv: "file_inv can_open f k s"
  shows "\<exists>s'. write_staged can_open s = Some s' \<and> file_inv can_open f k s' \<and> kept_after f k s [] s' \<and> fl_wbuf s' = [] \<and>
    fl_ts s' = fl_ts s \<and> fl_tick s' = fl_tick s"
proof -
  obtain c where c: "fl_fs s f = Some c" using inv by (auto simp: file_inv_def)
  let ?l = "fp_max_file_size (fl_part s)" and ?S = "segments f k (fl_fs s)"
  define fs1 where "fs1 = (fl_fs s)(f \<mapsto> c @ fl_wbuf s)"
  define p1 where "p1 = (fl_part s)\<lparr>fp_current_file_size := int (length (c @ fl_wbuf s))\<rparr>"
  have fit: "paths_fit f k" "0 < k" "can_open f" "no_gaps f k (fl_fs s)" using inv by (simp_all add: file_inv_def)
  have p1: "fp_filename p1 = Some f" "fp_max_backup_files p1 = int k" "fp_log_fp p1 = Some f" "fp_max_file_size p1 = ?l"
    using inv by (simp_all add: p1_def file_inv_def)
  have S: "?S \<noteq> []" "last ?S = c" using segments_last [of "fl_fs s" f c k] c by auto
  have fs1: "fs1 f = Some (c @ fl_wbuf s)" "segments f k fs1 = butlast ?S @ [last ?S @ fl_wbuf s]" "no_gaps f k fs1"
    using segments_write [OF fit(1), of "fl_fs s" c "c @ fl_wbuf s"] c fit(4) S(2) by (simp_all add: fs1_def)
  note w = write_staged_cases [OF inv c, folded fs1_def p1_def]
  show ?thesis
  proof (cases "0 < ?l \<and> ?l \<le> int (length (c @ fl_wbuf s))")
    case True
    have "\<exists>q. lmk_rotate_log_file can_open p1 fs1 = Some q" by (simp add: lmk_rotate_log_file_def p1(1) Let_def split: prod.split)
    then obtain p' fs' where rot: "lmk_rotate_log_file can_open p1 fs1 = Some (p', fs')" by auto
    note files = rotate_files [OF fit(1) p1(1,2) fit(2,3) fs1(1) rot]
    note segs = rotate_segments [OF fit(1) p1(1,2) fit(2,3) fs1(1) rot fs1(3)]
    let ?s = "s\<lparr>fl_fs := fs', fl_part := p', fl_wbuf := []\<rparr>"
    have "extends ?l ?S (fl_wbuf s) (segments f k fs1 @ [[]])" using extends_close [of ?S ?l "fl_wbuf s"] S fs1(2) True by simp
    then have "kept_after f k s [] ?s" using segs(1) files(1) p1(4) by (auto simp: kept_after_def)
    moreover have "file_inv can_open f k ?s" using fit segs(2) files(1,2) p1 by (simp add: file_inv_def file_text_def)
    moreover have "write_staged can_open s = Some ?s" using w True rot by simp
    ultimately show ?thesis by auto
  next
    case False
    let ?s = "s\<lparr>fl_fs := fs1, fl_part := p1, fl_wbuf := []\<rparr>"
    have "extends ?l ?S (fl_wbuf s) (segments f k fs1)" using extends_append [OF S(1)] fs1(2) by simp
    then have "kept_after f k s [] ?s" using segments_newest [of k f fs1] p1(4) by (auto simp: kept_after_def)
    moreover have "file_inv can_open f k ?s" using fit fs1 p1 inv by (simp add: file_inv_def file_text_def p1_def)
    moreover have "write_staged can_open s = Some ?s" by (simp only: w False if_False)
    ultimately show ?thesis by auto
  qed
qed

text \<open>The whole line of an entry; it fits if it is shorter than the headroom of the staging buffer.\<close>

definition entry_line_text :: "lmk_format_fn option \<Rightarrow> string \<Rightarrow> log_entry \<Rightarrow> string" where
  "entry_line_text fn time e = builtin_text fn (lmk_get_log_level_str (entry_level e)) time
     (entry_file e) (entry_line e) (entry_handler e) (entry_message e)"

definition lines_fit :: "(int \<Rightarrow> string) \<Rightarrow> lmk_format_fn option \<Rightarrow> log_entry list \<Rightarrow> bool" where
  "lines_fit render fn es \<longleftrightarrow> (\<forall>e\<in>set es. entry_ok e \<and> (\<forall>t. length (entry_line_text fn (render t) e) < LMK_MAX_LINE_SIZE))"

fun log_text :: "(int \<Rightarrow> string) \<Rightarrow> (nat \<Rightarrow> int) \<Rightarrow> lmk_format_fn option \<Rightarrow> nat \<Rightarrow> log_entry list \<Rightarrow> string" where
  "log_text render clock fn n [] = []"
| "log_text render clock fn n (e # es) = entry_line_text fn (render (clock n)) e @ log_text render clock fn (Suc n) es"

lemma file_reads_entry: "reads_entry (\<lambda>req s. Option.bind s (file_handle can_open render clock fn req))"
  unfolding reads_entry_def
proof (intro allI impI ext)
  fix q q' s
  assume e: "entry_of_request q = entry_of_request q'"
  show "Option.bind s (file_handle can_open render clock fn q) = Option.bind s (file_handle can_open render clock fn q')"
    unfolding file_handle_def [abs_def] format_line_reads_entry [OF e] ..
qed

text \<open>One request: the bytes staged are the line, and they fit the staging buffer.\<close>

lemma file_handle_spec:
  assumes inv: "file_inv can_open f k s" and fit: "lines_fit render (lmk_get_format_fn name) [e]"
    and ts: "ts_ok render (fl_ts s)" and now: "clock (fl_tick s) \<noteq> 0" and cs: "c_string (render (clock (fl_tick s)))"
  shows "\<exists>s'. file_handle can_open render clock (lmk_get_format_fn name) (request_of_entry e) s = Some s' \<and>
    file_inv can_open f k s' \<and> ts_ok render (fl_ts s') \<and> fl_tick s' = Suc (fl_tick s) \<and>
    kept_after f k s (entry_line_text (lmk_get_format_fn name) (render (clock (fl_tick s))) e) s'"
proof -
  let ?line = "entry_line_text (lmk_get_format_fn name) (render (clock (fl_tick s))) e"
  have refl: "kept_after f k s [] s" using inv by (intro kept_after_staged) (simp_all add: file_inv_def)
  obtain u where
    u: "(if length (fl_wbuf s) + LMK_MAX_LINE_SIZE > LMK_WRITE_BUF_SIZE then write_staged can_open s else Some s) = Some u"
    "file_inv can_open f k u" "kept_after f k s [] u" "fl_ts u = fl_ts s" "fl_tick u = fl_tick s"
    "length (fl_wbuf u) + LMK_MAX_LINE_SIZE \<le> LMK_WRITE_BUF_SIZE"
  proof (cases "length (fl_wbuf s) + LMK_MAX_LINE_SIZE > LMK_WRITE_BUF_SIZE")
    case True
    obtain s1 where "write_staged can_open s = Some s1" "file_inv can_open f k s1" "kept_after f k s [] s1" "fl_wbuf s1 = []"
      "fl_ts s1 = fl_ts s" "fl_tick s1 = fl_tick s" using write_staged_spec [OF inv] by blast
    then show ?thesis using True that [of s1] by (simp add: LMK_MAX_LINE_SIZE_def LMK_WRITE_BUF_SIZE_def LMK_LOG_MSG_MAX_SIZE_def)
  qed (use that [of s] inv refl in simp)
  define n where "n = LMK_WRITE_BUF_SIZE - length (fl_wbuf u)"
  have n: "length ?line < n" "0 < n" "n + length (fl_wbuf u) = LMK_WRITE_BUF_SIZE" "n < 2 ^ 31"
    using u(6) fit by (auto simp: n_def lines_fit_def LMK_MAX_LINE_SIZE_def LMK_WRITE_BUF_SIZE_def intro: less_le_trans)
  have eok: "entry_ok e" using fit by (simp add: lines_fit_def)
  from format_entry [OF eok n(2,4) ts now cs, of name] obtain out ts' where
    out: "lmk_format_log_line render (clock (fl_tick s)) (lmk_get_format_fn name) n (request_of_entry e) (fl_ts s) =
      (out, int (length (cstr out)), ts')" "cstr out = ?line" "ts_ok render ts'"
    using n(1) by (auto simp: entry_text_def entry_line_text_def)
  have "take (length (cstr out)) out = cstr out" by (simp add: cstr_def takeWhile_eq_take [symmetric])
  then have run: "file_handle can_open render clock (lmk_get_format_fn name) (request_of_entry e) s =
      Some (u\<lparr>fl_wbuf := fl_wbuf u @ ?line, fl_ts := ts', fl_tick := Suc (fl_tick s)\<rparr>)" (is "_ = Some ?s'")
    using inv out(1,2) u(4,5) by (auto simp: file_handle_def u(1) n_def [symmetric] file_inv_def)
  have "kept_after f k u ?line ?s'" using u(2) by (intro kept_after_staged) (simp_all add: file_inv_def)
  from kept_after_trans [OF u(3) this] have "kept_after f k s ?line ?s'" by simp
  moreover have "file_inv can_open f k ?s'" using u(2) n by (simp add: file_inv_def)
  ultimately show ?thesis using run out(3) by auto
qed

lemma file_fold:
  assumes "file_inv can_open f k s" "lines_fit render (lmk_get_format_fn name) es" "ts_ok render (fl_ts s)"
    and "\<forall>i. clock i \<noteq> 0" "\<forall>t. c_string (render t)"
  shows "\<exists>s'. fold (\<lambda>e s. Option.bind s (file_handle can_open render clock (lmk_get_format_fn name) (request_of_entry e))) es (Some s) =
      Some s' \<and> file_inv can_open f k s' \<and> kept_after f k s (log_text render clock (lmk_get_format_fn name) (fl_tick s) es) s'"
  using assms(1-3)
proof (induction es arbitrary: s)
  case Nil
  then show ?case by (auto simp: file_inv_def intro!: kept_after_staged)
next
  case (Cons e es)
  have fits: "lines_fit render (lmk_get_format_fn name) [e]" "lines_fit render (lmk_get_format_fn name) es"
    using Cons.prems(2) by (auto simp: lines_fit_def)
  obtain s1 where s1: "file_handle can_open render clock (lmk_get_format_fn name) (request_of_entry e) s = Some s1"
    "file_inv can_open f k s1" "ts_ok render (fl_ts s1)" "fl_tick s1 = Suc (fl_tick s)"
    "kept_after f k s (entry_line_text (lmk_get_format_fn name) (render (clock (fl_tick s))) e) s1"
    using file_handle_spec [OF Cons.prems(1) fits(1) Cons.prems(3), of clock] assms(4,5) by blast
  from Cons.IH [OF s1(2) fits(2) s1(3)] show ?case using s1(1,4) kept_after_trans [OF s1(5)] by auto
qed

section \<open>Properties\<close>

text \<open>
  C21. Rotation: with \<open>k > 0\<close> backups configured, \<open>lmk_rotate_log_file\<close> leaves the full log in
  \<open>filename.1\<close>, the former \<open>filename.j\<close> in \<open>filename.(j+1)\<close> for every \<open>j < k\<close> (the oldest backup is
  overwritten, unless there is none to take its place), a fresh empty log open at \<open>filename\<close>, and
  no other file changed. This holds for a log that exists and can be opened again, and a file name
  short enough that the names of all \<open>k\<close> backups fit the 512-byte path buffers (longer names are
  cut, and rotation then renames files to names that are not backups).
\<close>

theorem rotation_shifts_backups:
  assumes "paths_fit f k" "fp_filename p = Some f" "fp_max_backup_files p = int k" "0 < k" "can_open f" "fs f = Some c"
  shows "\<exists>p' fs'. lmk_rotate_log_file can_open p fs = Some (p', fs') \<and>
    fp_log_fp p' = Some f \<and> fp_current_file_size p' = 0 \<and> fs' f = Some [] \<and> fs' (backup_path f 1) = Some c \<and>
    (\<forall>j. 2 \<le> j \<and> j \<le> k \<longrightarrow> fs' (backup_path f (int j)) =
      (if j = k \<and> fs (backup_path f (int (k - 1))) = None then fs (backup_path f (int k))
       else fs (backup_path f (int (j - 1))))) \<and>
    (\<forall>q. q \<noteq> f \<and> (\<forall>j. 1 \<le> j \<and> j \<le> k \<longrightarrow> q \<noteq> backup_path f (int j)) \<longrightarrow> fs' q = fs q)"
proof -
  have "\<exists>q. lmk_rotate_log_file can_open p fs = Some q" by (simp add: lmk_rotate_log_file_def assms(2) Let_def split: prod.split)
  then obtain p' fs' where rot: "lmk_rotate_log_file can_open p fs = Some (p', fs')" by auto
  show ?thesis using rot rotate_files [OF assms rot] by (intro exI [of _ p'] exI [of _ fs']) simp
qed

definition sample_part :: file_part where
  "sample_part = \<lparr>fp_filename = Some ''a.log'', fp_log_fp = Some ''a.log'', fp_max_file_size = 10,
     fp_max_backup_files = 2, fp_current_file_size = 4\<rparr>"

lemma sample_fit: "paths_fit ''a.log'' 2"
  by (auto simp: paths_fit_def le_Suc_eq numeral_2_eq_2 dec_nat.simps)

lemma sample_backups: "backup_path ''a.log'' 1 = ''a.log.1''" "backup_path ''a.log'' 2 = ''a.log.2''"
  using backup_path_eq [OF sample_fit, of 1] backup_path_eq [OF sample_fit, of 2] by (simp_all add: dec_nat.simps digit_char_def)

theorem rotation_shifts_backups_witness:
  "\<exists>p' fs'. lmk_rotate_log_file (\<lambda>_. True) sample_part [''a.log'' \<mapsto> ''new'', ''a.log.1'' \<mapsto> ''old''] = Some (p', fs') \<and>
     fs' ''a.log'' = Some [] \<and> fs' ''a.log.1'' = Some ''new'' \<and> fs' ''a.log.2'' = Some ''old''"
proof -
  let ?fs = "[''a.log'' \<mapsto> ''new'', ''a.log.1'' \<mapsto> ''old'']"
  have p: "fp_filename sample_part = Some ''a.log''" "fp_max_backup_files sample_part = int 2" by (simp_all add: sample_part_def)
  obtain p' fs' where fs': "lmk_rotate_log_file (\<lambda>_. True) sample_part ?fs = Some (p', fs')" "fs' ''a.log'' = Some []"
    "fs' (backup_path ''a.log'' 1) = Some ''new''" "\<forall>j. 2 \<le> j \<and> j \<le> 2 \<longrightarrow> fs' (backup_path ''a.log'' (int j)) =
      (if j = 2 \<and> ?fs (backup_path ''a.log'' (int (2 - 1))) = None then ?fs (backup_path ''a.log'' (int 2))
       else ?fs (backup_path ''a.log'' (int (j - 1))))"
    using rotation_shifts_backups [OF sample_fit p, of "\<lambda>_. True" ?fs "''new''"] by auto
  from fs'(4) have "fs' (backup_path ''a.log'' (int 2)) = ?fs (backup_path ''a.log'' (int 1))"
    by (auto simp: sample_backups dest!: spec [of _ 2])
  then show ?thesis using fs'(1-3) by (auto simp: sample_backups)
qed

text \<open>
  C22. The file handler loses nothing on the way to disk but whole backups that rotation pushes
  out: one pass of the consumer ends and empties the ring and the staging buffer. Put the existing
  backups, oldest first, and the current file in a row; append what was staged and the lines of the
  messages, oldest first, beginning a new file only where the current one has reached the size
  limit: then after the pass the files are exactly the newest \<open>k + 1\<close> files of that row, so that a
  limit of zero or less loses nothing at all. Every write stays within the 64 KiB buffer, and the
  recorded size stays the size of the file. The assumptions: at least one backup is configured,
  backup names fit the path buffers and have no gaps, the file is open and can be opened again,
  writes succeed, a line takes less than \<open>LMK_MAX_LINE_SIZE\<close> bytes, strings are C strings, and the
  clock does not show 0.
\<close>

theorem file_pass_keeps_log:
  assumes "ring_invar r" "file_inv can_open f k s" "lines_fit render (lmk_get_format_fn name) (ring_contents r)"
    and "ts_ok render (fl_ts s)" "\<forall>i. clock i \<noteq> 0" "\<forall>t. c_string (render t)"
  shows "\<exists>r' s' H. lmk_file_log_handler_thread_pass can_open render clock (lmk_get_format_fn name) r s = Some (r', s') \<and>
    ring_invar r' \<and> ring_contents r' = [] \<and> file_inv can_open f k s' \<and> fl_wbuf s' = [] \<and>
    extends (fp_max_file_size (fl_part s)) (segments f k (fl_fs s))
      (fl_wbuf s @ log_text render clock (lmk_get_format_fn name) (fl_tick s) (ring_contents r)) H \<and>
    segments f k (fl_fs s') = newest k H \<and> (fp_max_file_size (fl_part s) \<le> 0 \<longrightarrow> newest k H = H)"
proof -
  let ?h = "\<lambda>req s. Option.bind s (file_handle can_open render clock (lmk_get_format_fn name) req)"
  obtain s1 where s1: "fold (\<lambda>e. ?h (request_of_entry e)) (ring_contents r) (Some s) = Some s1" "file_inv can_open f k s1"
    "kept_after f k s (log_text render clock (lmk_get_format_fn name) (fl_tick s) (ring_contents r)) s1"
    using file_fold [OF assms(2-6)] by blast
  obtain r' where r': "consumer_drain ?h r (Some s) = Some (r', Some s1)" "ring_invar r'" "ring_contents r' = []"
    using consumer_drain_spec [OF assms(1) file_reads_entry] s1(1) by metis
  have "kept_after f k s1 [] s1" using s1(2) by (intro kept_after_staged) (simp_all add: file_inv_def)
  then obtain s2 where s2: "idle_flush can_open s1 = Some s2" "file_inv can_open f k s2" "kept_after f k s1 [] s2" "fl_wbuf s2 = []"
    using s1(2) write_staged_spec [OF s1(2)] by (cases "fl_wbuf s1 = []") (auto simp: idle_flush_def file_inv_def)
  have run: "lmk_file_log_handler_thread_pass can_open render clock (lmk_get_format_fn name) r s = Some (r', s2)"
    using r'(1) s2(1) by (simp add: lmk_file_log_handler_thread_pass_def)
  obtain H where H: "extends (fp_max_file_size (fl_part s)) (segments f k (fl_fs s))
      (fl_wbuf s @ log_text render clock (lmk_get_format_fn name) (fl_tick s) (ring_contents r)) H" "segments f k (fl_fs s2) = newest k H"
    using kept_after_trans [OF s1(3) s2(3)] s2(4) by (auto simp: kept_after_def)
  have "newest k H = H" if "fp_max_file_size (fl_part s) \<le> 0"
  proof -
    have "segments f k (fl_fs s) \<noteq> []" using assms(2) segments_last [of "fl_fs s" f] by (auto simp: file_inv_def)
    then have "length H = length (segments f k (fl_fs s))" using H(1) that extends_unlimited by blast
    then show ?thesis using segments_length [of f k "fl_fs s"] by (simp add: newest_def)
  qed
  then show ?thesis using run r'(2,3) s2(2,4) H by blast
qed

lemma simple_text_length: "length (simple_text ls t f i h m) = length t + max 5 (length ls) + length m + 5"
  by (simp add: simple_text_def pad_right_def max_def)

theorem file_pass_keeps_log_witness:
  "\<exists>r' s' H. lmk_file_log_handler_thread_pass (\<lambda>_. True) (\<lambda>_. ''12:00'') (\<lambda>_. 5) (lmk_get_format_fn (Some ''simple'')) sample_ring
      \<lparr>fl_fs = [''a.log'' \<mapsto> ''new'' @ [CHR 0x0A]], fl_part = sample_part, fl_wbuf = [], fl_ts = ts_start, fl_tick = 0\<rparr> = Some (r', s') \<and>
    ring_contents r' = [] \<and> fl_wbuf s' = [] \<and>
    extends 10 [''new'' @ [CHR 0x0A]] (''12:00 [INFO ] m'' @ [CHR 0x0A]) H \<and> segments ''a.log'' 2 (fl_fs s') = newest 2 H"
proof -
  let ?s = "\<lparr>fl_fs = [''a.log'' \<mapsto> ''new'' @ [CHR 0x0A]], fl_part = sample_part, fl_wbuf = [], fl_ts = ts_start, fl_tick = 0\<rparr>"
  have fn: "lmk_get_format_fn (Some ''simple'') = Some lmk_simple_format"
    by (simp add: lmk_get_format_fn_def strcaseeq_def tolower_def)
  have e: "ring_contents sample_ring = [\<lparr>entry_level = 2, entry_message = ''m'', entry_line = 7,
      entry_file = ''app.c'', entry_handler = ''h''\<rparr>]"
    by (simp add: sample_ring_facts entry_of_record_def sample_record_def LMK_LOG_MSG_MAX_SIZE_def)
  have paths: "seg_path ''a.log'' 0 = ''a.log''" "seg_path ''a.log'' 1 = ''a.log.1''" "seg_path ''a.log'' 2 = ''a.log.2''"
    using sample_backups by (simp_all add: seg_path_def)
  have "no_gaps ''a.log'' 2 (fl_fs ?s)"
    using paths by (auto simp: no_gaps_def less_Suc_eq numeral_2_eq_2)
  then have inv: "file_inv (\<lambda>_. True) ''a.log'' 2 ?s"
    using sample_fit by (simp add: file_inv_def sample_part_def file_text_def)
  have fit: "lines_fit (\<lambda>_. ''12:00'') (lmk_get_format_fn (Some ''simple'')) (ring_contents sample_ring)"
    using sample_ring_entries_ok
    by (simp add: lines_fit_def e entry_line_text_def fn builtin_text_def simple_text_length LMK_MAX_LINE_SIZE_def
        lmk_get_log_level_str_def g_log_level_str_def level_defs LMK_LOG_MSG_MAX_SIZE_def)
  have line: "log_text (\<lambda>_. ''12:00'') (\<lambda>_. 5) (lmk_get_format_fn (Some ''simple'')) 0 (ring_contents sample_ring) =
      ''12:00 [INFO ] m'' @ [CHR 0x0A]"
    by (simp add: e entry_line_text_def fn builtin_text_def simple_text_def pad_right_def
        lmk_get_log_level_str_def g_log_level_str_def level_defs)
  have "[0..<Suc 2] = [0, 1, 2]" by (simp add: numeral_2_eq_2)
  then have "segments ''a.log'' 2 (fl_fs ?s) = [''new'' @ [CHR 0x0A]]"
    using paths by (simp add: segments_def file_text_def)
  with file_pass_keeps_log [OF sample_ring_facts(1) inv fit, of "\<lambda>_. 5"] line show ?thesis
    by (auto simp: ts_ok_def ts_start_def sample_part_def)
qed

end
