(* ===== verification/Syslog_Handler.thy ===== *)
theory Syslog_Handler
  imports Handler
begin

text \<open>
  The syslog handler (\<open>logmoko_syslog_log_handler.c\<close>): level to priority, facility names, and the
  consumer's work on one request, one call of \<open>syslog\<close>. Priorities and facilities are the numbers
  of \<open>syslog.h\<close>. A call of \<open>syslog\<close> is its priority and its formatted message; the call of
  \<open>openlog\<close> is its ident (\<open>None\<close> for \<open>NULL\<close>) and facility.
\<close>

definition LOG_ERR :: int where "LOG_ERR = 3"
definition LOG_WARNING :: int where "LOG_WARNING = 4"
definition LOG_INFO :: int where "LOG_INFO = 6"
definition LOG_DEBUG :: int where "LOG_DEBUG = 7"
definition LOG_USER :: int where "LOG_USER = 1 * 8"
definition LOG_DAEMON :: int where "LOG_DAEMON = 3 * 8"

definition LOG_LOCAL :: "nat \<Rightarrow> int" where
  "LOG_LOCAL n = (16 + int n) * 8"

definition lmk_to_syslog_priority :: "int \<Rightarrow> int" where
  "lmk_to_syslog_priority level =
     (if level = LMK_LOG_LEVEL_TRACE then LOG_DEBUG
      else if level = LMK_LOG_LEVEL_DEBUG then LOG_DEBUG
      else if level = LMK_LOG_LEVEL_INFO then LOG_INFO
      else if level = LMK_LOG_LEVEL_WARN then LOG_WARNING
      else if level = LMK_LOG_LEVEL_ERROR then LOG_ERR
      else LOG_INFO)"

definition lmk_parse_syslog_facility :: "string option \<Rightarrow> int" where
  "lmk_parse_syslog_facility s =
     (case s of
        None \<Rightarrow> LOG_USER
      | Some s \<Rightarrow>
          if strcaseeq s ''user'' then LOG_USER
          else if strcaseeq s ''daemon'' then LOG_DAEMON
          else if strcaseeq s ''local0'' then LOG_LOCAL 0
          else if strcaseeq s ''local1'' then LOG_LOCAL 1
          else if strcaseeq s ''local2'' then LOG_LOCAL 2
          else if strcaseeq s ''local3'' then LOG_LOCAL 3
          else if strcaseeq s ''local4'' then LOG_LOCAL 4
          else if strcaseeq s ''local5'' then LOG_LOCAL 5
          else if strcaseeq s ''local6'' then LOG_LOCAL 6
          else if strcaseeq s ''local7'' then LOG_LOCAL 7
          else LOG_USER)"

definition syslog_handle :: "lmk_log_request \<Rightarrow> (int \<times> string) list \<Rightarrow> (int \<times> string) list" where
  "syslog_handle req calls =
     calls @ [(lmk_to_syslog_priority (req_log_level req),
       ''['' @ lmk_get_log_level_str (req_log_level req) @ ''] ('' @ req_file_name req @ '':'' @
       dec_int (req_line_no req) @ '') '' @ cstr (req_data req))]"

definition lmk_syslog_log_handler_thread_pass ::
  "lmk_ring \<Rightarrow> (int \<times> string) list \<Rightarrow> (lmk_ring \<times> (int \<times> string) list) option" where
  "lmk_syslog_log_handler_thread_pass r calls = consumer_drain syslog_handle r calls"

text \<open>\<open>init\<close>: the handler and the arguments of \<open>openlog\<close>; the log is closed again if \<open>init\<close> fails.\<close>

definition syslog_open_args :: "lmk_log_handler \<Rightarrow> (string option \<times> int) option" where
  "syslog_open_args h =
     (case lh_ext h of
        Syslog_ext p \<Rightarrow> Some (if sy_ident p = [] then None else Some (sy_ident p), sy_facility p)
      | _ \<Rightarrow> None)"

definition lmk_syslog_log_handler_init ::
  "lmk_config \<Rightarrow> bool \<Rightarrow> bool \<Rightarrow> lmk_log_handler \<Rightarrow> lmk_log_handler \<times> (string option \<times> int) option" where
  "lmk_syslog_log_handler_init cfg malloc_ok thread_ok h =
     (let opened = syslog_open_args h; h = async_init cfg malloc_ok thread_ok h
      in (h, if malloc_ok \<and> thread_ok then opened else None))"

definition lmk_syslog_log_handler_destroy :: "lmk_log_handler \<Rightarrow> lmk_log_handler \<times> string" where
  "lmk_syslog_log_handler_destroy h =
     async_destroy (''syslog handler '' @ [CHR 0x27] @ handler_name h @ [CHR 0x27]) h"

definition lmk_syslog_log_handler_log_impl :: "lmk_log_record \<Rightarrow> lmk_log_handler \<Rightarrow> lmk_log_handler option" where
  "lmk_syslog_log_handler_log_impl rec h = async_log_impl rec h"

section \<open>Lemmas\<close>

lemma syslog_reads_entry: "reads_entry syslog_handle"
  by (auto simp: reads_entry_def syslog_handle_def entry_of_request_def)

definition syslog_call :: "log_entry \<Rightarrow> int \<times> string" where
  "syslog_call e = (lmk_to_syslog_priority (entry_level e),
     ''['' @ lmk_get_log_level_str (entry_level e) @ ''] ('' @ entry_file e @ '':'' @ dec_int (entry_line e) @ '') '' @
     entry_message e)"

lemma syslog_fold:
  assumes "\<forall>e\<in>set es. c_string (entry_message e)"
  shows "fold (\<lambda>e. syslog_handle (request_of_entry e)) es calls = calls @ map syslog_call es"
  using assms by (induction es arbitrary: calls)
    (auto simp: syslog_handle_def syslog_call_def request_of_entry_def c_string_def)

lemma ring_contents_message: "e \<in> set (ring_contents r) \<Longrightarrow> c_string (entry_message e)"
  by (auto simp: ring_contents_def entry_of_request_def)

section \<open>Properties\<close>

text \<open>
  C20. Syslog: one pass of the consumer over a ring ends, empties the ring and has called \<open>syslog\<close>
  once per message, oldest first, with the priority of its level; priorities never become less
  severe as the level rises.
\<close>

theorem syslog_pass_calls:
  assumes "ring_invar r"
  shows "(\<exists>r'. lmk_syslog_log_handler_thread_pass r calls = Some (r', calls @ map syslog_call (ring_contents r)) \<and>
      ring_invar r' \<and> ring_contents r' = []) \<and>
    (\<forall>a b. LMK_LOG_LEVEL_TRACE \<le> a \<and> a \<le> b \<and> b \<le> LMK_LOG_LEVEL_ERROR \<longrightarrow>
      lmk_to_syslog_priority b \<le> lmk_to_syslog_priority a)"
proof
  show "\<exists>r'. lmk_syslog_log_handler_thread_pass r calls = Some (r', calls @ map syslog_call (ring_contents r)) \<and>
      ring_invar r' \<and> ring_contents r' = []"
    using consumer_drain_spec [OF assms syslog_reads_entry, of calls] syslog_fold [of "ring_contents r" calls]
      ring_contents_message by (auto simp: lmk_syslog_log_handler_thread_pass_def)
  show "\<forall>a b. LMK_LOG_LEVEL_TRACE \<le> a \<and> a \<le> b \<and> b \<le> LMK_LOG_LEVEL_ERROR \<longrightarrow>
      lmk_to_syslog_priority b \<le> lmk_to_syslog_priority a"
    by (auto simp: lmk_to_syslog_priority_def level_defs LOG_ERR_def LOG_WARNING_def LOG_INFO_def LOG_DEBUG_def)
qed

theorem syslog_pass_calls_witness:
  "\<exists>r'. lmk_syslog_log_handler_thread_pass sample_ring [] = Some (r', [(6, ''[INFO] (app.c:7) m'')]) \<and> ring_contents r' = []"
proof -
  have "map syslog_call (ring_contents sample_ring) = [(6, ''[INFO] (app.c:7) m'')]"
    by (simp add: sample_ring_facts syslog_call_def entry_of_record_def sample_record_def LMK_LOG_MSG_MAX_SIZE_def
        lmk_to_syslog_priority_def level_defs LOG_INFO_def lmk_get_log_level_str_def g_log_level_str_def
        dec_int_def dec_nat.simps digit_char_def)
  with syslog_pass_calls [OF sample_ring_facts(1), of "[]"] show ?thesis by auto
qed

end
