(* ===== verification/Encryption.thy ===== *)
theory Encryption
  imports Prelude
begin

text \<open>
  The packet encryption of \<open>logmoko_encryption.c\<close>: the wire format \<open>IV | ciphertext | tag\<close> around
  AES-256-GCM. OpenSSL is not part of the repository: SHA-256, the random bytes and the cipher are
  parameters. \<open>enc key iv plain\<close> is the ciphertext and tag of the \<open>EVP_Encrypt\<close> calls (\<open>None\<close> if
  one of them fails), \<open>dec key iv ciphertext tag\<close> the result of the \<open>EVP_Decrypt\<close> calls (\<open>None\<close>
  if one fails, in particular when the tag does not match). \<open>aead_laws\<close> states what the OpenSSL
  documentation promises of them.
\<close>

type_synonym bytes = "char list"
type_synonym gcm_encrypt = "bytes \<Rightarrow> bytes \<Rightarrow> bytes \<Rightarrow> (bytes \<times> bytes) option"
type_synonym gcm_decrypt = "bytes \<Rightarrow> bytes \<Rightarrow> bytes \<Rightarrow> bytes \<Rightarrow> bytes option"

definition CRYPTO_IV_LEN :: nat where "CRYPTO_IV_LEN = 12"
definition CRYPTO_TAG_LEN :: nat where "CRYPTO_TAG_LEN = 16"
definition CRYPTO_OVERHEAD :: nat where "CRYPTO_OVERHEAD = CRYPTO_IV_LEN + CRYPTO_TAG_LEN"

lemmas crypto_sizes = CRYPTO_IV_LEN_def CRYPTO_TAG_LEN_def CRYPTO_OVERHEAD_def

definition derive_key :: "(string \<Rightarrow> bytes) \<Rightarrow> string \<Rightarrow> bytes" where
  "derive_key sha256 psk = sha256 psk"

text \<open>\<open>iv\<close> is what \<open>RAND_bytes\<close> delivered, \<open>None\<close> when it failed; the result is the bytes of \<open>out\<close>,
  \<open>None\<close> for the return code \<open>-1\<close>.\<close>

definition encrypt_packet :: "gcm_encrypt \<Rightarrow> bytes option \<Rightarrow> bytes \<Rightarrow> bytes \<Rightarrow> bytes option" where
  "encrypt_packet enc iv key plain =
     (case iv of
        None \<Rightarrow> None
      | Some iv \<Rightarrow>
          (case enc key iv plain of
             None \<Rightarrow> None
           | Some (ciphertext, tag) \<Rightarrow> Some (iv @ ciphertext @ tag)))"

definition decrypt_packet :: "gcm_decrypt \<Rightarrow> bytes \<Rightarrow> bytes \<Rightarrow> bytes option" where
  "decrypt_packet dec key inp =
     (if length inp < CRYPTO_OVERHEAD then None
      else
        let iv = take CRYPTO_IV_LEN inp;
            ciphertext = take (length inp - CRYPTO_OVERHEAD) (drop CRYPTO_IV_LEN inp);
            tag = drop (length inp - CRYPTO_TAG_LEN) inp
        in dec key iv ciphertext tag)"

text \<open>What is relied on: GCM is a stream cipher with a 16-byte tag, decryption inverts encryption, and
  decryption succeeds only on the ciphertext and tag that encryption of its result gives.\<close>

definition aead_laws :: "gcm_encrypt \<Rightarrow> gcm_decrypt \<Rightarrow> bool" where
  "aead_laws enc dec \<longleftrightarrow>
     (\<forall>k iv p c t. enc k iv p = Some (c, t) \<longrightarrow>
        length c = length p \<and> length t = CRYPTO_TAG_LEN \<and> dec k iv c t = Some p) \<and>
     (\<forall>k iv c t p. dec k iv c t = Some p \<longrightarrow> enc k iv p = Some (c, t))"

lemma aead_enc:
  "aead_laws enc dec \<Longrightarrow> enc k iv p = Some (c, t) \<Longrightarrow> length c = length p \<and> length t = CRYPTO_TAG_LEN \<and> dec k iv c t = Some p"
  unfolding aead_laws_def by blast

lemma aead_dec: "aead_laws enc dec \<Longrightarrow> dec k iv c t = Some p \<Longrightarrow> enc k iv p = Some (c, t)"
  unfolding aead_laws_def by blast

lemma packet_roundtrip_aux:
  assumes "aead_laws enc dec" "length iv = CRYPTO_IV_LEN" "encrypt_packet enc (Some iv) key plain = Some pkt"
  shows "decrypt_packet dec key pkt = Some plain" "length pkt = length plain + CRYPTO_OVERHEAD"
    "take CRYPTO_IV_LEN pkt = iv"
proof -
  obtain c t where ct: "enc key iv plain = Some (c, t)" "pkt = iv @ c @ t"
    using assms(3) by (auto simp: encrypt_packet_def split: option.splits)
  then have laws: "length c = length plain" "length t = CRYPTO_TAG_LEN" "dec key iv c t = Some plain"
    using aead_enc [OF assms(1) ct(1)] by blast+
  then show "length pkt = length plain + CRYPTO_OVERHEAD" "take CRYPTO_IV_LEN pkt = iv"
    using ct(2) assms(2) by (simp_all add: crypto_sizes)
  show "decrypt_packet dec key pkt = Some plain"
    using ct(2) assms(2) laws by (simp add: decrypt_packet_def crypto_sizes)
qed

section \<open>Properties\<close>

text \<open>
  C23. Encrypted packets round-trip: whatever a successful \<open>encrypt_packet\<close> puts on the wire is
  \<open>CRYPTO_OVERHEAD\<close> bytes longer than the plaintext, starts with the random IV, and decrypts to
  the plaintext under the same key.
\<close>

theorem packet_roundtrip:
  assumes "aead_laws enc dec" "length iv = CRYPTO_IV_LEN" "encrypt_packet enc (Some iv) key plain = Some pkt"
  shows "decrypt_packet dec key pkt = Some plain \<and> length pkt = length plain + CRYPTO_OVERHEAD \<and>
    take CRYPTO_IV_LEN pkt = iv"
  using packet_roundtrip_aux [OF assms] by blast

text \<open>A cipher for examples: the ciphertext is the plaintext and the tag is a constant.\<close>

definition toy_enc :: gcm_encrypt where
  "toy_enc k iv p = Some (p, replicate CRYPTO_TAG_LEN (CHR ''t''))"

definition toy_dec :: gcm_decrypt where
  "toy_dec k iv c t = (if t = replicate CRYPTO_TAG_LEN (CHR ''t'') then Some c else None)"

lemma toy_laws: "aead_laws toy_enc toy_dec"
  by (auto simp: aead_laws_def toy_enc_def toy_dec_def split: if_splits)

theorem packet_roundtrip_witness:
  "\<exists>pkt. encrypt_packet toy_enc (Some (replicate 12 (CHR ''i''))) ''key'' ''hello'' = Some pkt \<and>
    aead_laws toy_enc toy_dec \<and> decrypt_packet toy_dec ''key'' pkt = Some ''hello'' \<and> length pkt = 33"
proof -
  obtain pkt where p: "encrypt_packet toy_enc (Some (replicate 12 (CHR ''i''))) ''key'' ''hello'' = Some pkt"
    by (simp add: encrypt_packet_def toy_enc_def)
  have "length (replicate 12 (CHR ''i'')) = CRYPTO_IV_LEN" by (simp add: crypto_sizes)
  from packet_roundtrip [OF toy_laws this p] p show ?thesis using toy_laws by (simp add: crypto_sizes)
qed

text \<open>
  C24. \<open>decrypt_packet\<close> accepts nothing else: a packet shorter than the overhead is refused without
  touching memory beyond it, and any packet it accepts is one that \<open>encrypt_packet\<close> makes of the
  plaintext under this key and the IV the packet starts with.
\<close>

theorem decrypt_accepts_only_packets:
  assumes "aead_laws enc dec" "decrypt_packet dec key pkt = Some plain"
  shows "CRYPTO_OVERHEAD \<le> length pkt \<and> length plain = length pkt - CRYPTO_OVERHEAD \<and>
    encrypt_packet enc (Some (take CRYPTO_IV_LEN pkt)) key plain = Some pkt"
proof -
  define c where "c = take (length pkt - CRYPTO_OVERHEAD) (drop CRYPTO_IV_LEN pkt)"
  define t where "t = drop (length pkt - CRYPTO_TAG_LEN) pkt"
  have len: "CRYPTO_OVERHEAD \<le> length pkt" and d: "dec key (take CRYPTO_IV_LEN pkt) c t = Some plain"
    using assms(2) by (auto simp: decrypt_packet_def Let_def c_def t_def split: if_splits)
  have enc: "enc key (take CRYPTO_IV_LEN pkt) plain = Some (c, t)" by (rule aead_dec [OF assms(1) d])
  have split: "drop CRYPTO_IV_LEN pkt = c @ t"
  proof -
    have "t = drop (length pkt - CRYPTO_OVERHEAD) (drop CRYPTO_IV_LEN pkt)"
      using len by (simp add: t_def crypto_sizes)
    then show ?thesis unfolding c_def by (metis append_take_drop_id)
  qed
  have "length plain = length c" using aead_enc [OF assms(1) enc] by simp
  then have "length plain = length pkt - CRYPTO_OVERHEAD" using len by (simp add: c_def crypto_sizes)
  moreover have "encrypt_packet enc (Some (take CRYPTO_IV_LEN pkt)) key plain = Some pkt"
    using enc append_take_drop_id [of CRYPTO_IV_LEN pkt] by (simp add: encrypt_packet_def split)
  ultimately show ?thesis using len by blast
qed

theorem decrypt_accepts_only_packets_witness:
  "decrypt_packet toy_dec ''key'' (replicate 12 (CHR ''i'') @ ''hi'' @ replicate 16 (CHR ''t'')) = Some ''hi'' \<and>
   encrypt_packet toy_enc (Some (replicate 12 (CHR ''i''))) ''key'' ''hi'' =
     Some (replicate 12 (CHR ''i'') @ ''hi'' @ replicate 16 (CHR ''t''))"
proof -
  let ?p = "replicate 12 (CHR ''i'') @ ''hi'' @ replicate 16 (CHR ''t'')"
  have d: "decrypt_packet toy_dec ''key'' ?p = Some ''hi''"
    by (simp add: decrypt_packet_def toy_dec_def crypto_sizes)
  from decrypt_accepts_only_packets [OF toy_laws d] d show ?thesis by (simp add: crypto_sizes)
qed

end
