(* ===== verification/Socket_Handler.thy ===== *)
theory Socket_Handler
  imports Console_Handler Encryption
begin

text \<open>
  The socket handler (\<open>logmoko_socket_log_handler.c\<close>) and the UDP wrapper under it
  (\<open>logmoko_connector.c\<close>). The operating system's part is a parameter: \<open>socket_fd\<close> is the result of
  \<open>socket\<close>, \<open>sendto\<close> maps an address and a buffer to the number of bytes it reports, \<open>pton\<close> is
  \<open>inet_pton\<close> (\<open>None\<close> when it rejects the text). The network is the list of datagrams handed to it,
  in order. The OpenSSL parameters are those of \<open>Encryption\<close>; \<open>rand\<close> gives the result of each call
  of \<open>RAND_bytes\<close> in order.
\<close>

section \<open>The connector\<close>

definition lmk_open_udp_socket :: "int \<Rightarrow> int \<Rightarrow> int \<times> int" where
  "lmk_open_udp_socket socket_fd sockd = (if socket_fd < 0 then (LMK_E_NG, sockd) else (LMK_E_OK, socket_fd))"

type_synonym datagram = "sockaddr \<times> bytes"

text \<open>\<open>None\<close> stands for a \<open>NULL\<close> socket, packet or buffer. Datagrams are sent whole or not at all.\<close>

definition lmk_send_udp_packet ::
  "(sockaddr \<Rightarrow> bytes \<Rightarrow> int) \<Rightarrow> int option \<Rightarrow> (sockaddr \<times> bytes option) option \<Rightarrow> datagram list \<Rightarrow> int \<times> datagram list" where
  "lmk_send_udp_packet sendto udp_socket packet net =
     (case udp_socket of
        None \<Rightarrow> (LMK_E_NG, net)
      | Some sockd \<Rightarrow>
          (case packet of
             Some (addr, Some buffer) \<Rightarrow>
               (let nr_bytes = sendto addr buffer
                in if nr_bytes < 0 \<or> nr_bytes \<noteq> int (length buffer) then (LMK_E_NG, net)
                   else (LMK_E_OK, net @ [(addr, buffer)]))
           | _ \<Rightarrow> (LMK_E_NG, net)))"

section \<open>The consumer\<close>

definition SOCKET_OUT_SIZE :: nat where
  "SOCKET_OUT_SIZE = LMK_LOG_MSG_MAX_SIZE + 512"

text \<open>\<open>ss_rand\<close> and \<open>ss_tick\<close> count the calls of \<open>RAND_bytes\<close> and of \<open>time\<close>.\<close>

record socket_state =
  ss_net :: "datagram list"
  ss_ts :: ts_state
  ss_tick :: nat
  ss_rand :: nat

text \<open>The loop over the servers for one formatted line \<open>out[0..n)\<close>.\<close>

fun send_to_servers ::
  "(sockaddr \<Rightarrow> bytes \<Rightarrow> int) \<Rightarrow> gcm_encrypt \<Rightarrow> (nat \<Rightarrow> bytes option) \<Rightarrow> socket_part \<Rightarrow> bytes \<Rightarrow> sockaddr list \<Rightarrow> socket_state \<Rightarrow> socket_state" where
  "send_to_servers sendto enc rand p line [] s = s"
| "send_to_servers sendto enc rand p line (srv # srvs) s =
     send_to_servers sendto enc rand p line srvs
       (if sk_psk_enabled p then
          (case encrypt_packet enc (rand (ss_rand s)) (sk_psk_key p) line of
             None \<Rightarrow> s\<lparr>ss_rand := Suc (ss_rand s)\<rparr>
           | Some pkt \<Rightarrow> s\<lparr>ss_rand := Suc (ss_rand s),
               ss_net := snd (lmk_send_udp_packet sendto (Some (sk_sockd p)) (Some (srv, Some pkt)) (ss_net s))\<rparr>)
        else s\<lparr>ss_net := snd (lmk_send_udp_packet sendto (Some (sk_sockd p)) (Some (srv, Some line)) (ss_net s))\<rparr>)"

definition socket_handle ::
  "(sockaddr \<Rightarrow> bytes \<Rightarrow> int) \<Rightarrow> gcm_encrypt \<Rightarrow> (nat \<Rightarrow> bytes option) \<Rightarrow> (int \<Rightarrow> string) \<Rightarrow> (nat \<Rightarrow> int) \<Rightarrow>
    lmk_format_fn option \<Rightarrow> socket_part \<Rightarrow> lmk_log_request \<Rightarrow> socket_state \<Rightarrow> socket_state" where
  "socket_handle sendto enc rand render clock fn p req s =
     (let (out, n, ts) = lmk_format_log_line render (clock (ss_tick s)) fn SOCKET_OUT_SIZE req (ss_ts s);
          s = s\<lparr>ss_ts := ts, ss_tick := Suc (ss_tick s)\<rparr>
      in if n > 0 then send_to_servers sendto enc rand p (take (nat n) out) (sk_log_servers p) s else s)"

definition lmk_socket_log_handler_thread_pass ::
  "(sockaddr \<Rightarrow> bytes \<Rightarrow> int) \<Rightarrow> gcm_encrypt \<Rightarrow> (nat \<Rightarrow> bytes option) \<Rightarrow> (int \<Rightarrow> string) \<Rightarrow> (nat \<Rightarrow> int) \<Rightarrow>
    lmk_format_fn option \<Rightarrow> socket_part \<Rightarrow> lmk_ring \<Rightarrow> socket_state \<Rightarrow> (lmk_ring \<times> socket_state) option" where
  "lmk_socket_log_handler_thread_pass sendto enc rand render clock fn p r s =
     consumer_drain (socket_handle sendto enc rand render clock fn p) r s"

section \<open>Set-up, listeners and keys\<close>

definition lmk_socket_log_handler_init ::
  "int \<Rightarrow> bool \<Rightarrow> lmk_config \<Rightarrow> bool \<Rightarrow> bool \<Rightarrow> socket_part \<Rightarrow> lmk_log_handler \<Rightarrow> lmk_log_handler" where
  "lmk_socket_log_handler_init socket_fd ctx_ok cfg malloc_ok thread_ok p h =
     (let p = p\<lparr>sk_log_servers := [], sk_sockd := snd (lmk_open_udp_socket socket_fd (sk_sockd p))\<rparr>;
          p = (if malloc_ok then p\<lparr>sk_psk_enabled := False, sk_cipher_ctx := (ctx_ok \<and> thread_ok)\<rparr> else p)
      in (async_init cfg malloc_ok thread_ok h)\<lparr>lh_ext := Socket_ext p\<rparr>)"

definition lmk_socket_log_handler_log_impl :: "lmk_log_record \<Rightarrow> lmk_log_handler \<Rightarrow> lmk_log_handler option" where
  "lmk_socket_log_handler_log_impl rec h = async_log_impl rec h"

definition lmk_socket_log_handler_destroy :: "socket_part \<Rightarrow> lmk_log_handler \<Rightarrow> lmk_log_handler \<times> string" where
  "lmk_socket_log_handler_destroy p h =
     (let (h, report) = async_destroy (''socket handler '' @ [CHR 0x27] @ handler_name h @ [CHR 0x27]) h
      in (h\<lparr>lh_ext := Socket_ext (p\<lparr>sk_cipher_ctx := False, sk_log_servers := []\<rparr>)\<rparr>, report))"

text \<open>\<open>htons\<close> keeps the low 16 bits of the port; an address \<open>inet_pton\<close> rejects stays 0.0.0.0.\<close>

definition lmk_attach_log_listener ::
  "(string \<Rightarrow> u32 option) \<Rightarrow> bool \<Rightarrow> string option \<Rightarrow> int \<Rightarrow> lmk_log_handler \<Rightarrow> lmk_log_handler" where
  "lmk_attach_log_listener pton malloc_ok host port h =
     (case (host, lh_ext h) of
        (Some host, Socket_ext p) \<Rightarrow>
          if port \<le> 0 then h
          else if malloc_ok
          then h\<lparr>lh_ext := Socket_ext (p\<lparr>sk_log_servers := sk_log_servers p @
                 [((case pton host of Some a \<Rightarrow> a | None \<Rightarrow> 0), of_int port)]\<rparr>)\<rparr>
          else h
      | _ \<Rightarrow> h)"

definition lmk_set_socket_psk :: "(string \<Rightarrow> bytes) \<Rightarrow> string option \<Rightarrow> lmk_log_handler \<Rightarrow> lmk_log_handler" where
  "lmk_set_socket_psk sha256 psk h =
     (case (psk, lh_ext h) of
        (Some psk, Socket_ext p) \<Rightarrow>
          h\<lparr>lh_ext := Socket_ext (p\<lparr>sk_psk_key := derive_key sha256 psk, sk_psk_enabled := True\<rparr>)\<rparr>
      | _ \<Rightarrow> h)"

section \<open>Lemmas\<close>

lemma socket_reads_entry: "reads_entry (socket_handle sendto enc rand render clock fn p)"
  unfolding reads_entry_def
proof (intro allI impI ext)
  fix q q' s
  assume e: "entry_of_request q = entry_of_request q'"
  show "socket_handle sendto enc rand render clock fn p q s = socket_handle sendto enc rand render clock fn p q' s"
    unfolding socket_handle_def Let_def format_line_reads_entry [OF e] ..
qed

text \<open>The environment does its part: \<open>sendto\<close> takes whole datagrams, \<open>RAND_bytes\<close> and the cipher work.\<close>

definition socket_env :: "(sockaddr \<Rightarrow> bytes \<Rightarrow> int) \<Rightarrow> gcm_encrypt \<Rightarrow> gcm_decrypt \<Rightarrow> (nat \<Rightarrow> bytes option) \<Rightarrow> bool" where
  "socket_env sendto enc dec rand \<longleftrightarrow> (\<forall>a b. sendto a b = int (length b)) \<and> aead_laws enc dec \<and>
     (\<forall>i. \<exists>iv. rand i = Some iv \<and> length iv = CRYPTO_IV_LEN) \<and> (\<forall>k iv p. enc k iv p \<noteq> None)"

text \<open>A datagram carries a line to a server: in the clear, or encrypted under the handler's key.\<close>

fun carries :: "gcm_decrypt \<Rightarrow> socket_part \<Rightarrow> sockaddr \<times> string \<Rightarrow> datagram \<Rightarrow> bool" where
  "carries dec p (srv, line) (dst, pkt) \<longleftrightarrow> dst = srv \<and>
     (if sk_psk_enabled p then decrypt_packet dec (sk_psk_key p) pkt = Some line \<and> length pkt = length line + CRYPTO_OVERHEAD
      else pkt = line)"

lemma encrypt_total:
  assumes "socket_env sendto enc dec rand"
  shows "\<exists>pkt. encrypt_packet enc (rand i) key line = Some pkt \<and> decrypt_packet dec key pkt = Some line \<and>
    length pkt = length line + CRYPTO_OVERHEAD"
proof -
  obtain iv where iv: "rand i = Some iv" "length iv = CRYPTO_IV_LEN" using assms unfolding socket_env_def by blast
  obtain c t where "enc key iv line = Some (c, t)" using assms unfolding socket_env_def by (metis not_Some_eq prod.exhaust)
  then obtain pkt where pkt: "encrypt_packet enc (Some iv) key line = Some pkt" by (simp add: encrypt_packet_def)
  have "aead_laws enc dec" using assms by (simp add: socket_env_def)
  from packet_roundtrip_aux [OF this iv(2) pkt] show ?thesis using pkt iv(1) by auto
qed

lemma send_to_servers_spec:
  assumes env: "socket_env sendto enc dec rand"
  shows "\<exists>sent. ss_net (send_to_servers sendto enc rand p line srvs s) = ss_net s @ sent \<and>
    list_all2 (carries dec p) (map (\<lambda>srv. (srv, line)) srvs) sent \<and>
    ss_ts (send_to_servers sendto enc rand p line srvs s) = ss_ts s \<and>
    ss_tick (send_to_servers sendto enc rand p line srvs s) = ss_tick s"
proof (induction srvs arbitrary: s)
  case Nil
  then show ?case by simp
next
  case (Cons srv srvs)
  have send: "snd (lmk_send_udp_packet sendto (Some fd) (Some (srv, Some b)) net) = net @ [(srv, b)]" for b net fd
  proof -
    have "sendto srv b = int (length b)" using env unfolding socket_env_def by blast
    then show ?thesis by (simp add: lmk_send_udp_packet_def Let_def)
  qed
  obtain pkt where pkt: "encrypt_packet enc (rand (ss_rand s)) (sk_psk_key p) line = Some pkt"
    "decrypt_packet dec (sk_psk_key p) pkt = Some line" "length pkt = length line + CRYPTO_OVERHEAD"
    using encrypt_total [OF env] by blast
  show ?case
  proof (cases "sk_psk_enabled p")
    case True
    define s1 where "s1 = s\<lparr>ss_rand := Suc (ss_rand s), ss_net := ss_net s @ [(srv, pkt)]\<rparr>"
    have "send_to_servers sendto enc rand p line (srv # srvs) s = send_to_servers sendto enc rand p line srvs s1"
      using True pkt(1) by (simp add: s1_def send)
    with Cons.IH [of s1] True pkt(2,3) show ?thesis by (auto simp: s1_def)
  next
    case False
    define s1 where "s1 = s\<lparr>ss_net := ss_net s @ [(srv, line)]\<rparr>"
    have "send_to_servers sendto enc rand p line (srv # srvs) s = send_to_servers sendto enc rand p line srvs s1"
      using False by (simp add: s1_def send)
    with Cons.IH [of s1] False show ?thesis by (auto simp: s1_def)
  qed
qed

text \<open>The lines a batch of entries must reach the servers as.\<close>

fun socket_lines :: "(int \<Rightarrow> string) \<Rightarrow> (nat \<Rightarrow> int) \<Rightarrow> lmk_format_fn option \<Rightarrow> sockaddr list \<Rightarrow> nat \<Rightarrow> log_entry list \<Rightarrow> (sockaddr \<times> string) list" where
  "socket_lines render clock fn srvs k [] = []"
| "socket_lines render clock fn srvs k (e # es) =
     map (\<lambda>srv. (srv, entry_text fn SOCKET_OUT_SIZE (render (clock k)) e)) srvs @ socket_lines render clock fn srvs (Suc k) es"

lemma builtin_text_nonempty: "builtin_text (lmk_get_format_fn name) ls t f i h m \<noteq> []"
  using get_format_fn_cases [of name] simple_not_json
  by (elim disjE) (simp_all add: builtin_text_def default_text_def simple_text_def json_text_def json_line_def)

lemma entry_text_nonempty: "entry_text (lmk_get_format_fn name) SOCKET_OUT_SIZE t e \<noteq> []"
  using builtin_text_nonempty [of name] by (simp add: entry_text_def SOCKET_OUT_SIZE_def LMK_LOG_MSG_MAX_SIZE_def)

lemma socket_fold:
  assumes env: "socket_env sendto enc dec rand" and "\<forall>e\<in>set es. entry_ok e" "ts_ok render (ss_ts s)"
    and "\<forall>k. clock k \<noteq> 0" "\<forall>t. c_string (render t)"
  shows "\<exists>sent. ss_net (fold (\<lambda>e. socket_handle sendto enc rand render clock (lmk_get_format_fn name) p (request_of_entry e)) es s) =
      ss_net s @ sent \<and>
    list_all2 (carries dec p) (socket_lines render clock (lmk_get_format_fn name) (sk_log_servers p) (ss_tick s) es) sent"
  using assms(2,3)
proof (induction es arbitrary: s)
  case Nil
  then show ?case by simp
next
  case (Cons e es)
  let ?fn = "lmk_get_format_fn name"
  have pos: "0 < SOCKET_OUT_SIZE" "SOCKET_OUT_SIZE < 2 ^ 31" by (simp_all add: SOCKET_OUT_SIZE_def LMK_LOG_MSG_MAX_SIZE_def)
  obtain out ts' where run: "lmk_format_log_line render (clock (ss_tick s)) ?fn SOCKET_OUT_SIZE
      (request_of_entry e) (ss_ts s) = (out, int (length (cstr out)), ts')"
    "cstr out = entry_text ?fn SOCKET_OUT_SIZE (render (clock (ss_tick s))) e" "ts_ok render ts'"
    using format_entry [OF _ pos(1,2) Cons.prems(2), of e "clock (ss_tick s)" name] Cons.prems(1) assms(4,5) by auto
  let ?line = "entry_text ?fn SOCKET_OUT_SIZE (render (clock (ss_tick s))) e"
  define s0 where "s0 = s\<lparr>ss_ts := ts', ss_tick := Suc (ss_tick s)\<rparr>"
  define s1 where "s1 = send_to_servers sendto enc rand p ?line (sk_log_servers p) s0"
  have tk: "take (length (cstr out)) out = cstr out" by (simp add: cstr_def takeWhile_eq_take [symmetric])
  have "0 < length (cstr out)" using run(2) entry_text_nonempty by simp
  then have step: "socket_handle sendto enc rand render clock ?fn p (request_of_entry e) s = s1"
    using run(1) tk by (simp add: socket_handle_def s1_def s0_def run(2) [symmetric])
  obtain sent1 where sent1: "ss_net s1 = ss_net s @ sent1" "list_all2 (carries dec p) (map (\<lambda>srv. (srv, ?line)) (sk_log_servers p)) sent1"
    "ss_ts s1 = ts'" "ss_tick s1 = Suc (ss_tick s)"
    using send_to_servers_spec [OF env, of p ?line "sk_log_servers p" s0] unfolding s1_def [symmetric] by (auto simp: s0_def)
  have "\<forall>e\<in>set es. entry_ok e" "ts_ok render (ss_ts s1)" using Cons.prems(1) run(3) sent1(3) by auto
  from Cons.IH [OF this] obtain sent2 where
    "ss_net (fold (\<lambda>e. socket_handle sendto enc rand render clock ?fn p (request_of_entry e)) es s1) = ss_net s1 @ sent2"
    "list_all2 (carries dec p) (socket_lines render clock ?fn (sk_log_servers p) (ss_tick s1) es) sent2" by blast
  then show ?case
    using sent1 step by (intro exI [of _ "sent1 @ sent2"]) (simp add: list_all2_appendI)
qed

section \<open>Properties\<close>

text \<open>
  C25. The socket handler sends every message to every listener: one pass of the consumer ends and
  empties the ring; it has handed to the network, message by message in the order of the ring and
  for each message listener by listener in the order they were attached, exactly one datagram
  that carries the line: in the clear without a preshared key, and otherwise encrypted so that it
  decrypts to the line under the key.
\<close>

theorem socket_pass_sends:
  assumes "ring_invar r" "\<forall>e\<in>set (ring_contents r). entry_ok e" "ts_ok render (ss_ts s)"
    and "\<forall>k. clock k \<noteq> 0" "\<forall>t. c_string (render t)" "socket_env sendto enc dec rand"
  shows "\<exists>r' s' sent. lmk_socket_log_handler_thread_pass sendto enc rand render clock (lmk_get_format_fn name) p r s = Some (r', s') \<and>
    ring_invar r' \<and> ring_contents r' = [] \<and> ss_net s' = ss_net s @ sent \<and>
    list_all2 (carries dec p) (socket_lines render clock (lmk_get_format_fn name) (sk_log_servers p) (ss_tick s) (ring_contents r)) sent"
  using consumer_drain_spec [OF assms(1) socket_reads_entry [of sendto enc rand render clock "lmk_get_format_fn name" p], of s]
    socket_fold [OF assms(6,2-5), of name p]
  by (auto simp: lmk_socket_log_handler_thread_pass_def)


definition sample_socket_part :: socket_part where
  "sample_socket_part = \<lparr>sk_log_servers = [(1, 9000), (2, 9001)], sk_sockd = 3, sk_psk_enabled = True,
     sk_psk_key = ''key'', sk_cipher_ctx = True\<rparr>"

lemma toy_socket_env: "socket_env (\<lambda>_ b. int (length b)) toy_enc toy_dec (\<lambda>_. Some (replicate 12 (CHR ''i'')))"
  using toy_laws by (simp add: socket_env_def toy_enc_def crypto_sizes)

theorem socket_pass_sends_witness:
  "\<exists>r' s' sent. lmk_socket_log_handler_thread_pass (\<lambda>_ b. int (length b)) toy_enc (\<lambda>_. Some (replicate 12 (CHR ''i'')))
      (\<lambda>_. ''12:00'') (\<lambda>_. 5) (lmk_get_format_fn (Some ''simple'')) sample_socket_part sample_ring
      \<lparr>ss_net = [], ss_ts = ts_start, ss_tick = 0, ss_rand = 0\<rparr> = Some (r', s') \<and>
    ring_contents r' = [] \<and> ss_net s' = sent \<and> map fst sent = [(1, 9000), (2, 9001)]"
proof -
  let ?s = "\<lparr>ss_net = [], ss_ts = ts_start, ss_tick = 0, ss_rand = 0\<rparr>"
  have "ts_ok (\<lambda>_. ''12:00'') (ss_ts ?s)" by (simp add: ts_ok_def ts_start_def)
  moreover have "\<forall>k :: nat. (5 :: int) \<noteq> 0" "\<forall>t :: int. c_string ''12:00''" by simp_all
  ultimately have pass: "\<exists>r' s' sent. lmk_socket_log_handler_thread_pass (\<lambda>_ b. int (length b)) toy_enc (\<lambda>_. Some (replicate 12 (CHR ''i'')))
      (\<lambda>_. ''12:00'') (\<lambda>_. 5) (lmk_get_format_fn (Some ''simple'')) sample_socket_part sample_ring ?s = Some (r', s') \<and>
    ring_invar r' \<and> ring_contents r' = [] \<and> ss_net s' = ss_net ?s @ sent \<and>
    list_all2 (carries toy_dec sample_socket_part) (socket_lines (\<lambda>_. ''12:00'') (\<lambda>_. 5) (lmk_get_format_fn (Some ''simple''))
       (sk_log_servers sample_socket_part) (ss_tick ?s) (ring_contents sample_ring)) sent"
    by (rule socket_pass_sends [OF sample_ring_facts(1) sample_ring_entries_ok _ _ _ toy_socket_env])
  from pass
  obtain r' s' sent where *: "lmk_socket_log_handler_thread_pass (\<lambda>_ b. int (length b)) toy_enc (\<lambda>_. Some (replicate 12 (CHR ''i'')))
      (\<lambda>_. ''12:00'') (\<lambda>_. 5) (lmk_get_format_fn (Some ''simple'')) sample_socket_part sample_ring ?s = Some (r', s')"
    "ring_contents r' = []" "ss_net s' = sent"
    "list_all2 (carries toy_dec sample_socket_part) (socket_lines (\<lambda>_. ''12:00'') (\<lambda>_. 5) (lmk_get_format_fn (Some ''simple''))
       (sk_log_servers sample_socket_part) 0 (ring_contents sample_ring)) sent"
    unfolding socket_state.simps append_Nil by blast
  have "map fst sent = [(1, 9000), (2, 9001)]"
    using *(4) by (auto simp: sample_ring_facts sample_socket_part_def list_all2_Cons1)
  then show ?thesis by (intro exI [of _ r'] exI [of _ s'] exI [of _ sent] conjI *(1-3))
qed

end
