(* ===== verification/Registry.thy ===== *)
theory Registry
  imports Linked_List File_Handler Syslog_Handler Socket_Handler
begin

text \<open>
  The registry of loggers and handlers (\<open>logmoko.c\<close>, \<open>logmoko_logger.c\<close> and the constructors and
  \<open>lmk_destroy_log_handler\<close> of \<open>logmoko_handler.c\<close>). The two global lists and every logger's list of
  handler references are sequences of addresses (\<open>Linked_List\<close> shows that the C lists implement
  them); the structs live in maps from addresses. A pointer is an address or \<open>None\<close> for \<open>NULL\<close>.
  Operations return \<open>None\<close> where C has undefined behaviour (a dangling pointer, a \<open>NULL\<close> name or
  configuration) or does not return. \<open>malloc\<close>, \<open>pthread_create\<close>, \<open>fopen\<close> and \<open>socket\<close> act through
  an argument, the record \<open>env\<close>.

  Where a function begins with \<open>lmk_init()\<close>, the definition is what follows that call: \<open>lmk_init\<close> is
  in \<open>Config_File\<close>, since it reads the configuration, and \<open>Lifecycle\<close> puts it back in front.
\<close>

section \<open>State\<close>

record lmk_logger =
  lg_name :: string
  lg_log_level :: int
  lg_refs :: "addr list"
  lg_initialized :: bool

record registry =
  rg_initialized :: bool
  rg_config :: "lmk_config option"
  rg_loggers :: "addr list"
  rg_handlers :: "addr list"
  rg_logger :: "addr \<rightharpoonup> lmk_logger"
  rg_handler :: "addr \<rightharpoonup> lmk_log_handler"
  rg_files :: files
  rg_stderr :: "string list"

text \<open>What the system answers to one call: the address of the struct, and whether the name, the ring,
  the thread, a duplicated string and the cipher context could be made; which files open; the socket.\<close>

record env =
  env_ptr :: "addr option"
  env_name_ok :: bool
  env_ring_ok :: bool
  env_thread_ok :: bool
  env_dup_ok :: bool
  env_ctx_ok :: bool
  env_can_open :: "string \<Rightarrow> bool"
  env_socket_fd :: int

section \<open>Searching\<close>

fun search_loggers :: "(addr \<rightharpoonup> lmk_logger) \<Rightarrow> string \<Rightarrow> addr list \<Rightarrow> addr option option" where
  "search_loggers ls name [] = Some None"
| "search_loggers ls name (p # ps) = do {
     l \<leftarrow> ls p;
     if lg_name l = name then Some (Some p) else search_loggers ls name ps }"

definition lmk_search_logger_by_name :: "string option \<Rightarrow> registry \<Rightarrow> addr option option" where
  "lmk_search_logger_by_name name s =
     (case name of None \<Rightarrow> Some None | Some name \<Rightarrow> search_loggers (rg_logger s) name (rg_loggers s))"

fun search_handlers :: "(addr \<rightharpoonup> lmk_log_handler) \<Rightarrow> string \<Rightarrow> addr list \<Rightarrow> addr option option" where
  "search_handlers hs name [] = Some None"
| "search_handlers hs name (p # ps) = do {
     h \<leftarrow> hs p;
     n \<leftarrow> lh_name h;
     if n = name then Some (Some p) else search_handlers hs name ps }"

definition lmk_search_log_handler_by_name :: "string option \<Rightarrow> registry \<Rightarrow> addr option option" where
  "lmk_search_log_handler_by_name name s =
     (case name of None \<Rightarrow> Some None | Some name \<Rightarrow> search_handlers (rg_handler s) name (rg_handlers s))"

definition lmk_get_nr_loggers :: "registry \<Rightarrow> nat" where
  "lmk_get_nr_loggers s = length (rg_loggers s)"

definition lmk_get_nr_handlers :: "registry \<Rightarrow> nat" where
  "lmk_get_nr_handlers s = length (rg_handlers s)"

section \<open>Loggers\<close>

definition lmk_init_logger :: "string \<Rightarrow> lmk_logger" where
  "lmk_init_logger name = \<lparr>lg_name = name, lg_log_level = LMK_LOG_LEVEL_INFO, lg_refs = [], lg_initialized = True\<rparr>"

definition lmk_get_logger :: "env \<Rightarrow> string option \<Rightarrow> registry \<Rightarrow> (addr option \<times> registry) option" where
  "lmk_get_logger e name s =
     (case name of
        None \<Rightarrow> Some (None, s)
      | Some n \<Rightarrow> do {
          found \<leftarrow> lmk_search_logger_by_name name s;
          case found of
            Some p \<Rightarrow> Some (Some p, s)
          | None \<Rightarrow>
              (case env_ptr e of
                 None \<Rightarrow> Some (None, s)
               | Some p \<Rightarrow>
                   if \<not> env_name_ok e then Some (None, s)
                   else Some (Some p, s\<lparr>rg_loggers := rg_loggers s @ [p],
                                       rg_logger := (rg_logger s)(p \<mapsto> lmk_init_logger n)\<rparr>)) })"

definition lmk_set_log_level :: "addr option \<Rightarrow> int \<Rightarrow> registry \<Rightarrow> registry option" where
  "lmk_set_log_level logger log_level s =
     (case logger of
        None \<Rightarrow> Some s
      | Some p \<Rightarrow> do {
          l \<leftarrow> rg_logger s p;
          if log_level \<ge> LMK_LOG_LEVEL_TRACE \<and> log_level \<le> LMK_LOG_LEVEL_OFF
          then Some (s\<lparr>rg_logger := (rg_logger s)(p \<mapsto> l\<lparr>lg_log_level := log_level\<rparr>)\<rparr>)
          else Some s })"

definition lmk_get_log_level :: "addr option \<Rightarrow> registry \<Rightarrow> int option" where
  "lmk_get_log_level logger s =
     (case logger of None \<Rightarrow> Some LMK_LOG_LEVEL_UNKNOWN | Some p \<Rightarrow> map_option lg_log_level (rg_logger s p))"

text \<open>The search for a reference: whether there is one with this handler.\<close>

definition lmk_is_log_handler_attached :: "addr \<Rightarrow> addr \<Rightarrow> registry \<Rightarrow> bool option" where
  "lmk_is_log_handler_attached p h s = map_option (\<lambda>l. h \<in> set (lg_refs l)) (rg_logger s p)"

definition lmk_attach_log_handler :: "bool \<Rightarrow> addr option \<Rightarrow> addr option \<Rightarrow> registry \<Rightarrow> (int \<times> registry) option" where
  "lmk_attach_log_handler malloc_ok logger handler s =
     (case (logger, handler) of
        (Some p, Some q) \<Rightarrow> do {
          l \<leftarrow> rg_logger s p;
          h \<leftarrow> rg_handler s q;
          if \<not> lh_initialized h then Some (LMK_E_NG, s)
          else if q \<in> set (lg_refs l) then Some (LMK_E_OK, s)
          else if \<not> malloc_ok then Some (LMK_E_NG, s)
          else Some (LMK_E_OK, s\<lparr>
             rg_logger := (rg_logger s)(p \<mapsto> l\<lparr>lg_refs := lg_refs l @ [q]\<rparr>),
             rg_handler := (rg_handler s)(q \<mapsto> h\<lparr>lh_nr_logger_ref := lh_nr_logger_ref h + 1\<rparr>)\<rparr>) }
      | _ \<Rightarrow> Some (LMK_E_NG, s))"

definition lmk_detach_log_handler :: "addr option \<Rightarrow> addr option \<Rightarrow> registry \<Rightarrow> (int \<times> registry) option" where
  "lmk_detach_log_handler logger handler s =
     (case (logger, handler) of
        (Some p, Some q) \<Rightarrow> do {
          l \<leftarrow> rg_logger s p;
          if q \<notin> set (lg_refs l) then Some (LMK_E_NG, s)
          else do {
            h \<leftarrow> rg_handler s q;
            Some (LMK_E_OK, s\<lparr>
              rg_logger := (rg_logger s)(p \<mapsto> l\<lparr>lg_refs := remove1 q (lg_refs l)\<rparr>),
              rg_handler := (rg_handler s)(q \<mapsto> h\<lparr>lh_nr_logger_ref := lh_nr_logger_ref h - 1\<rparr>)\<rparr>) } }
      | _ \<Rightarrow> Some (LMK_E_NG, s))"

text \<open>The loop over a logger's references with the saved cursor: it is at the first reference as
  long as there is one.\<close>

partial_function (option) detach_all :: "addr \<Rightarrow> registry \<Rightarrow> registry option" where
  "detach_all p s = do {
     l \<leftarrow> rg_logger s p;
     case lg_refs l of
       [] \<Rightarrow> Some s
     | q # _ \<Rightarrow> do { (rc, s) \<leftarrow> lmk_detach_log_handler (Some p) (Some q) s; detach_all p s } }"

definition lmk_destroy_logger :: "addr option \<Rightarrow> registry \<Rightarrow> (int \<times> registry) option" where
  "lmk_destroy_logger logger s =
     (case logger of
        None \<Rightarrow> Some (LMK_E_NG, s)
      | Some p \<Rightarrow> do {
          s \<leftarrow> detach_all p s;
          Some (LMK_E_OK, s\<lparr>rg_loggers := remove1 p (rg_loggers s), rg_logger := (rg_logger s)(p := None)\<rparr>) })"

text \<open>\<open>lmk_find_handler\<close>, and the search for a reference by the name of its handler.\<close>

fun find_ref :: "(addr \<rightharpoonup> lmk_log_handler) \<Rightarrow> string \<Rightarrow> addr list \<Rightarrow> addr option option" where
  "find_ref hs name [] = Some None"
| "find_ref hs name (q # qs) = do {
     h \<leftarrow> hs q;
     n \<leftarrow> lh_name h;
     if n = name then Some (Some q) else find_ref hs name qs }"

definition lmk_find_handler :: "addr option \<Rightarrow> string option \<Rightarrow> registry \<Rightarrow> addr option option" where
  "lmk_find_handler logger name s =
     (case (logger, name) of
        (Some p, Some n) \<Rightarrow> do { l \<leftarrow> rg_logger s p; find_ref (rg_handler s) n (lg_refs l) }
      | _ \<Rightarrow> Some None)"

section \<open>Logging\<close>

text \<open>The call through \<open>handler->log_impl\<close>.\<close>

definition handler_log_impl :: "lmk_log_record \<Rightarrow> lmk_log_handler \<Rightarrow> lmk_log_handler option" where
  "handler_log_impl rec h =
     (case lh_ext h of
        Console_ext \<Rightarrow> lmk_console_log_handler_log_impl rec h
      | File_ext _ \<Rightarrow> lmk_file_log_handler_log_impl rec h
      | Socket_ext _ \<Rightarrow> lmk_socket_log_handler_log_impl rec h
      | Syslog_ext _ \<Rightarrow> lmk_syslog_log_handler_log_impl rec h)"

fun log_to_refs :: "lmk_log_record \<Rightarrow> addr list \<Rightarrow> (addr \<rightharpoonup> lmk_log_handler) \<Rightarrow> (addr \<rightharpoonup> lmk_log_handler) option" where
  "log_to_refs rec [] hs = Some hs"
| "log_to_refs rec (q # qs) hs = do {
     h \<leftarrow> hs q;
     h' \<leftarrow> (if rec_log_level rec \<ge> lh_log_level h then handler_log_impl rec h else Some h);
     log_to_refs rec qs (hs(q \<mapsto> h')) }"

definition lmk_log_impl ::
  "addr option \<Rightarrow> string \<Rightarrow> int \<Rightarrow> int \<Rightarrow> char list option \<Rightarrow> nat \<Rightarrow> registry \<Rightarrow> (int \<times> registry) option" where
  "lmk_log_impl logger file_name line_no log_level data data_len s =
     (case logger of
        None \<Rightarrow> Some (LMK_E_NG, s)
      | Some p \<Rightarrow> do {
          l \<leftarrow> rg_logger s p;
          case data of
            None \<Rightarrow> Some (LMK_E_NG, s)
          | Some d \<Rightarrow>
              if \<not> lg_initialized l then Some (LMK_E_NG, s)
              else if \<not> (log_level \<ge> LMK_LOG_LEVEL_TRACE \<and> log_level \<le> LMK_LOG_LEVEL_OFF) then Some (LMK_E_NG, s)
              else if log_level \<ge> lg_log_level l then do {
                hs \<leftarrow> log_to_refs \<lparr>rec_log_level = log_level, rec_data = d, rec_data_len = data_len,
                  rec_line_no = line_no, rec_file_name = file_name\<rparr> (lg_refs l) (rg_handler s);
                Some (LMK_E_OK, s\<lparr>rg_handler := hs\<rparr>) }
              else Some (LMK_E_OK, s) })"

text \<open>\<open>text\<close> is what the format and arguments expand to (\<open>None\<close> if \<open>vsnprintf\<close> fails, which leaves
  the buffer \<open>old\<close> as it was).\<close>

definition lmk_log_common ::
  "char list \<Rightarrow> addr option \<Rightarrow> string \<Rightarrow> int \<Rightarrow> int \<Rightarrow> string option \<Rightarrow> registry \<Rightarrow> registry option" where
  "lmk_log_common old logger file_name line_no log_level expansion s =
     (case logger of
        None \<Rightarrow> Some s
      | Some p \<Rightarrow> do {
          l \<leftarrow> rg_logger s p;
          if \<not> log_level \<ge> lg_log_level l then Some s
          else
            let (buf, n) = (case expansion of
                  None \<Rightarrow> (old, - 1)
                | Some msg \<Rightarrow> snprintf LMK_LOG_MSG_MAX_SIZE msg);
                n = (if n < 0 then 0 else n);
                n = (if n \<ge> int LMK_LOG_MSG_MAX_SIZE then int LMK_LOG_MSG_MAX_SIZE - 1 else n)
            in map_option snd (lmk_log_impl logger file_name line_no log_level (Some buf) (nat n) s) })"

definition lmk_log_trace :: "char list \<Rightarrow> addr option \<Rightarrow> string \<Rightarrow> int \<Rightarrow> string option \<Rightarrow> registry \<Rightarrow> registry option" where
  "lmk_log_trace old logger file_name line_no expansion s =
     lmk_log_common old logger file_name line_no LMK_LOG_LEVEL_TRACE expansion s"

definition lmk_log_debug :: "char list \<Rightarrow> addr option \<Rightarrow> string \<Rightarrow> int \<Rightarrow> string option \<Rightarrow> registry \<Rightarrow> registry option" where
  "lmk_log_debug old logger file_name line_no expansion s =
     lmk_log_common old logger file_name line_no LMK_LOG_LEVEL_DEBUG expansion s"

definition lmk_log_info :: "char list \<Rightarrow> addr option \<Rightarrow> string \<Rightarrow> int \<Rightarrow> string option \<Rightarrow> registry \<Rightarrow> registry option" where
  "lmk_log_info old logger file_name line_no expansion s =
     lmk_log_common old logger file_name line_no LMK_LOG_LEVEL_INFO expansion s"

definition lmk_log_warn :: "char list \<Rightarrow> addr option \<Rightarrow> string \<Rightarrow> int \<Rightarrow> string option \<Rightarrow> registry \<Rightarrow> registry option" where
  "lmk_log_warn old logger file_name line_no expansion s =
     lmk_log_common old logger file_name line_no LMK_LOG_LEVEL_WARN expansion s"

definition lmk_log_error :: "char list \<Rightarrow> addr option \<Rightarrow> string \<Rightarrow> int \<Rightarrow> string option \<Rightarrow> registry \<Rightarrow> registry option" where
  "lmk_log_error old logger file_name line_no expansion s =
     lmk_log_common old logger file_name line_no LMK_LOG_LEVEL_ERROR expansion s"

section \<open>Handlers\<close>

text \<open>The common end of the four constructors: a handler whose ring could not be set up is freed.\<close>

definition publish_handler :: "addr \<Rightarrow> lmk_log_handler \<Rightarrow> registry \<Rightarrow> addr option \<times> registry" where
  "publish_handler p h s =
     (if lh_ring h = None then (None, s)
      else (Some p, s\<lparr>rg_handlers := rg_handlers s @ [p],
                      rg_handler := (rg_handler s)(p \<mapsto> h\<lparr>lh_initialized := True\<rparr>)\<rparr>))"

definition lmk_get_console_log_handler :: "env \<Rightarrow> registry \<Rightarrow> (addr option \<times> registry) option" where
  "lmk_get_console_log_handler e s = do {
     found \<leftarrow> lmk_search_log_handler_by_name (Some ''console'') s;
     case found of
       Some q \<Rightarrow> Some (Some q, s)
     | None \<Rightarrow>
         (case env_ptr e of
            None \<Rightarrow> Some (None, s)
          | Some p \<Rightarrow> do {
              let h = lmk_init_base_log_handler CONSOLE ''console'' (env_name_ok e) Console_ext;
              cfg \<leftarrow> rg_config s;
              let h = lmk_console_log_handler_init cfg (env_ring_ok e) (env_thread_ok e) h;
              Some (publish_handler p h s) }) }"

definition lmk_get_file_log_handler :: "env \<Rightarrow> string option \<Rightarrow> string option \<Rightarrow> registry \<Rightarrow> (addr option \<times> registry) option" where
  "lmk_get_file_log_handler e name filename s =
     (case (name, filename) of
        (Some n, Some f) \<Rightarrow> do {
          found \<leftarrow> lmk_search_log_handler_by_name name s;
          case found of
            Some q \<Rightarrow> Some (Some q, s)
          | None \<Rightarrow>
              (case env_ptr e of
                 None \<Rightarrow> Some (None, s)
               | Some p \<Rightarrow> do {
                   let fp = \<lparr>fp_filename = (if env_dup_ok e then Some f else None), fp_log_fp = None,
                     fp_max_file_size = LMK_DEFAULT_MAX_FILE_SIZE, fp_max_backup_files = LMK_DEFAULT_MAX_BACKUP_FILES,
                     fp_current_file_size = 0\<rparr>;
                   let h = lmk_init_base_log_handler FILE n (env_name_ok e) (File_ext fp);
                   cfg \<leftarrow> rg_config s;
                   (h, fs) \<leftarrow> lmk_file_log_handler_init (env_can_open e) cfg (env_ring_ok e) (env_thread_ok e) fp h (rg_files s);
                   Some (publish_handler p h (s\<lparr>rg_files := fs\<rparr>)) }) }
      | _ \<Rightarrow> Some (None, s))"

definition lmk_get_socket_log_handler :: "env \<Rightarrow> string option \<Rightarrow> registry \<Rightarrow> (addr option \<times> registry) option" where
  "lmk_get_socket_log_handler e name s =
     (case name of
        None \<Rightarrow> Some (None, s)
      | Some n \<Rightarrow> do {
          found \<leftarrow> lmk_search_log_handler_by_name name s;
          case found of
            Some q \<Rightarrow> Some (Some q, s)
          | None \<Rightarrow>
              (case env_ptr e of
                 None \<Rightarrow> Some (None, s)
               | Some p \<Rightarrow> do {
                   let sp = \<lparr>sk_log_servers = [], sk_sockd = 0, sk_psk_enabled = False,
                     sk_psk_key = replicate 32 NUL, sk_cipher_ctx = False\<rparr>;
                   let h = lmk_init_base_log_handler SOCKET n (env_name_ok e) (Socket_ext sp);
                   cfg \<leftarrow> rg_config s;
                   let h = lmk_socket_log_handler_init (env_socket_fd e) (env_ctx_ok e) cfg (env_ring_ok e) (env_thread_ok e) sp h;
                   Some (publish_handler p h s) }) })"

definition lmk_get_syslog_log_handler :: "env \<Rightarrow> string option \<Rightarrow> string option \<Rightarrow> int \<Rightarrow> registry \<Rightarrow> (addr option \<times> registry) option" where
  "lmk_get_syslog_log_handler e name ident facility s =
     (case name of
        None \<Rightarrow> Some (None, s)
      | Some n \<Rightarrow> do {
          found \<leftarrow> lmk_search_log_handler_by_name name s;
          case found of
            Some q \<Rightarrow> Some (Some q, s)
          | None \<Rightarrow>
              (case env_ptr e of
                 None \<Rightarrow> Some (None, s)
               | Some p \<Rightarrow> do {
                   let sp = \<lparr>sy_ident = (case ident of None \<Rightarrow> [] | Some i \<Rightarrow> strncpy_into 64 i), sy_facility = facility\<rparr>;
                   let h = lmk_init_base_log_handler SYSLOG n (env_name_ok e) (Syslog_ext sp);
                   cfg \<leftarrow> rg_config s;
                   let (h, opened) = lmk_syslog_log_handler_init cfg (env_ring_ok e) (env_thread_ok e) h;
                   Some (publish_handler p h s) }) })"

text \<open>The call through \<open>handler->destroy\<close>.\<close>

definition handler_destroy :: "lmk_log_handler \<Rightarrow> lmk_log_handler \<times> string" where
  "handler_destroy h =
     (case lh_ext h of
        Console_ext \<Rightarrow> lmk_console_log_handler_destroy h
      | File_ext p \<Rightarrow> lmk_file_log_handler_destroy p h
      | Socket_ext p \<Rightarrow> lmk_socket_log_handler_destroy p h
      | Syslog_ext _ \<Rightarrow> lmk_syslog_log_handler_destroy h)"

definition lmk_destroy_log_handler :: "addr option \<Rightarrow> registry \<Rightarrow> (int \<times> registry) option" where
  "lmk_destroy_log_handler handler s =
     (case handler of
        None \<Rightarrow> Some (LMK_E_NG, s)
      | Some q \<Rightarrow> do {
          h \<leftarrow> rg_handler s q;
          if lh_nr_logger_ref h > 0 then Some (LMK_E_NG, s)
          else
            let (_, report) = handler_destroy h
            in Some (LMK_E_OK, s\<lparr>rg_handlers := remove1 q (rg_handlers s), rg_handler := (rg_handler s)(q := None),
                 rg_stderr := rg_stderr s @ (if report = [] then [] else [report])\<rparr>) })"

text \<open>A setter on a handler the caller holds a pointer to, for the setters that test the pointer and
  return when it is \<open>NULL\<close>: \<open>lmk_set_handler_log_level\<close>, \<open>lmk_set_log_format\<close>,
  \<open>lmk_set_log_rotation\<close>, \<open>lmk_attach_log_listener\<close> and \<open>lmk_set_socket_psk\<close>.\<close>

definition update_handler :: "addr option \<Rightarrow> (lmk_log_handler \<Rightarrow> lmk_log_handler) \<Rightarrow> registry \<Rightarrow> registry option" where
  "update_handler handler f s =
     (case handler of
        None \<Rightarrow> Some s
      | Some q \<Rightarrow> do { h \<leftarrow> rg_handler s q; Some (s\<lparr>rg_handler := (rg_handler s)(q \<mapsto> f h)\<rparr>) })"

text \<open>\<open>lmk_set_log_filename\<close> locks the handler before it tests the pointer: with \<open>NULL\<close> it is
  undefined.\<close>

definition set_log_filename :: "addr option \<Rightarrow> string option \<Rightarrow> bool \<Rightarrow> registry \<Rightarrow> registry option" where
  "set_log_filename handler filename dup_ok s = do {
     q \<leftarrow> handler;
     h \<leftarrow> rg_handler s q;
     Some (s\<lparr>rg_handler := (rg_handler s)(q \<mapsto> lmk_set_log_filename filename dup_ok h)\<rparr>) }"

section \<open>Shutdown\<close>

text \<open>The two loops of \<open>lmk_destroy\<close> with the saved cursor: each is at the first entry of its list as
  long as there is one, so it goes on until the list is empty.\<close>

partial_function (option) destroy_loggers :: "registry \<Rightarrow> registry option" where
  "destroy_loggers s =
     (case rg_loggers s of
        [] \<Rightarrow> Some s
      | p # _ \<Rightarrow> do { (rc, s) \<leftarrow> lmk_destroy_logger (Some p) s; destroy_loggers s })"

partial_function (option) destroy_handlers :: "registry \<Rightarrow> registry option" where
  "destroy_handlers s =
     (case rg_handlers s of
        [] \<Rightarrow> Some s
      | q # _ \<Rightarrow> do { (rc, s) \<leftarrow> lmk_destroy_log_handler (Some q) s; destroy_handlers s })"

definition lmk_destroy :: "registry \<Rightarrow> registry option" where
  "lmk_destroy s =
     (if \<not> rg_initialized s then Some s
      else do {
        s \<leftarrow> destroy_loggers s;
        s \<leftarrow> destroy_handlers s;
        Some (s\<lparr>rg_initialized := False, rg_config := None\<rparr>) })"

end
