(* ===== verification/Registry_Invariant.thy ===== *)
theory Registry_Invariant
  imports Registry
begin

text \<open>
  The invariant of the registry and what its operations do: lists and maps agree, names are
  unique, references point to live handlers and the reference count of a handler is the number of
  loggers that refer to it. Every API call keeps the invariant (the registry as a transition
  system), logging reaches exactly the attached handlers whose level admits it, and \<open>lmk_destroy\<close>
  ends and leaves nothing behind.
\<close>

section \<open>Invariant\<close>

definition ref_count :: "registry \<Rightarrow> addr \<Rightarrow> nat" where
  "ref_count s q = length (filter (\<lambda>p. \<exists>l. rg_logger s p = Some l \<and> q \<in> set (lg_refs l)) (rg_loggers s))"

definition level_ok :: "int \<Rightarrow> bool" where
  "level_ok l \<longleftrightarrow> LMK_LOG_LEVEL_TRACE \<le> l \<and> l \<le> LMK_LOG_LEVEL_OFF"

definition logger_ok :: "registry \<Rightarrow> lmk_logger \<Rightarrow> bool" where
  "logger_ok s l \<longleftrightarrow> lg_initialized l \<and> level_ok (lg_log_level l) \<and> distinct (lg_refs l) \<and> set (lg_refs l) \<subseteq> set (rg_handlers s)"

definition reg_handler_ok :: "registry \<Rightarrow> addr \<Rightarrow> lmk_log_handler \<Rightarrow> bool" where
  "reg_handler_ok s q h \<longleftrightarrow> lh_initialized h \<and> lh_name h \<noteq> None \<and> level_ok (lh_log_level h) \<and> handler_ok h \<and> lh_running h \<and>
     lh_nr_logger_ref h = of_nat (ref_count s q)"

definition reg_inv :: "registry \<Rightarrow> bool" where
  "reg_inv s \<longleftrightarrow> rg_initialized s \<and> rg_config s \<noteq> None \<and> length (rg_loggers s) < 2 ^ 32 \<and>
     distinct (rg_loggers s) \<and> dom (rg_logger s) = set (rg_loggers s) \<and>
     distinct (rg_handlers s) \<and> dom (rg_handler s) = set (rg_handlers s) \<and>
     (\<forall>p l. rg_logger s p = Some l \<longrightarrow> logger_ok s l) \<and>
     (\<forall>q h. rg_handler s q = Some h \<longrightarrow> reg_handler_ok s q h) \<and>
     distinct (map (\<lambda>p. lg_name (the (rg_logger s p))) (rg_loggers s)) \<and>
     distinct (map (\<lambda>q. lh_name (the (rg_handler s q))) (rg_handlers s))"


lemma reg_invD:
  assumes "reg_inv s"
  shows "rg_initialized s" "rg_config s \<noteq> None" "distinct (rg_loggers s)" "dom (rg_logger s) = set (rg_loggers s)"
    "distinct (rg_handlers s)" "dom (rg_handler s) = set (rg_handlers s)" "length (rg_loggers s) < 2 ^ 32"
    "\<And>p l. rg_logger s p = Some l \<Longrightarrow> logger_ok s l" "\<And>q h. rg_handler s q = Some h \<Longrightarrow> reg_handler_ok s q h"
    "\<And>p l. rg_logger s p = Some l \<Longrightarrow> p \<in> set (rg_loggers s)" "\<And>q h. rg_handler s q = Some h \<Longrightarrow> q \<in> set (rg_handlers s)"
    "distinct (map (\<lambda>p. lg_name (the (rg_logger s p))) (rg_loggers s))"
    "distinct (map (\<lambda>q. lh_name (the (rg_handler s q))) (rg_handlers s))"
  using assms unfolding reg_inv_def by (auto simp: dom_def)

lemma reg_inv_live:
  assumes "reg_inv s"
  shows "p \<in> set (rg_loggers s) \<Longrightarrow> \<exists>l. rg_logger s p = Some l" "q \<in> set (rg_handlers s) \<Longrightarrow> \<exists>h. rg_handler s q = Some h"
  using reg_invD(4,6) [OF assms] by (auto simp: dom_def)

text \<open>Searching is \<open>find\<close> when all structs are live and named.\<close>

lemma search_loggers_find:
  "\<forall>p\<in>set ps. ls p \<noteq> None \<Longrightarrow> search_loggers ls name ps = Some (find (\<lambda>p. lg_name (the (ls p)) = name) ps)"
  by (induction ps) auto

lemma search_handlers_find:
  "\<forall>p\<in>set ps. \<exists>h. hs p = Some h \<and> lh_name h \<noteq> None \<Longrightarrow>
    search_handlers hs name ps = Some (find (\<lambda>p. lh_name (the (hs p)) = Some name) ps)"
  by (induction ps) auto

lemma search_logger:
  assumes "reg_inv s"
  shows "lmk_search_logger_by_name (Some name) s = Some (find (\<lambda>p. lg_name (the (rg_logger s p)) = name) (rg_loggers s))"
  using search_loggers_find [of "rg_loggers s" "rg_logger s"] reg_inv_live(1) [OF assms]
  by (auto simp: lmk_search_logger_by_name_def)

lemma search_handler:
  assumes "reg_inv s"
  shows "lmk_search_log_handler_by_name (Some name) s =
    Some (find (\<lambda>q. lh_name (the (rg_handler s q)) = Some name) (rg_handlers s))"
proof -
  have "\<forall>q\<in>set (rg_handlers s). \<exists>h. rg_handler s q = Some h \<and> lh_name h \<noteq> None"
    using reg_inv_live(2) [OF assms] reg_invD(9) [OF assms] by (fastforce simp: reg_handler_ok_def)
  then show ?thesis using search_handlers_find by (simp add: lmk_search_log_handler_by_name_def)
qed

lemma find_SomeD: "find P xs = Some x \<Longrightarrow> x \<in> set xs \<and> P x"
  by (induction xs) (auto split: if_splits)

text \<open>Reference counts.\<close>

lemma ref_count_frame:
  assumes "rg_loggers s' = rg_loggers s"
    "\<And>p. p \<in> set (rg_loggers s) \<Longrightarrow> map_option lg_refs (rg_logger s' p) = map_option lg_refs (rg_logger s p)"
  shows "ref_count s' q = ref_count s q"
proof -
  have "(\<exists>l. rg_logger s' p = Some l \<and> q \<in> set (lg_refs l)) = (\<exists>l. rg_logger s p = Some l \<and> q \<in> set (lg_refs l))"
    if "p \<in> set (rg_loggers s)" for p
    using assms(2) [OF that] by (cases "rg_logger s p"; cases "rg_logger s' p") auto
  then show ?thesis unfolding ref_count_def assms(1) by (intro arg_cong [where f = length] filter_cong refl)
qed

lemma ref_count_zero:
  assumes "reg_inv s"
  shows "ref_count s q = 0 \<longleftrightarrow> (\<forall>p l. rg_logger s p = Some l \<longrightarrow> q \<notin> set (lg_refs l))"
  using reg_invD(10) [OF assms] by (fastforce simp: ref_count_def filter_empty_conv)

lemma ref_count_bound: "reg_inv s \<Longrightarrow> ref_count s q < 2 ^ 32"
  unfolding ref_count_def by (rule le_less_trans [OF length_filter_le reg_invD(7)])

lemma nr_logger_ref_zero:
  assumes "reg_inv s" "rg_handler s q = Some h"
  shows "lh_nr_logger_ref h = 0 \<longleftrightarrow> ref_count s q = 0" "unat (lh_nr_logger_ref h) = ref_count s q"
proof -
  have eq: "lh_nr_logger_ref h = of_nat (ref_count s q)" using reg_invD(9) [OF assms] by (simp add: reg_handler_ok_def)
  have u: "unat (of_nat (ref_count s q) :: u32) = ref_count s q"
    using ref_count_bound [OF assms(1), of q] by (simp add: unat_of_nat take_bit_nat_eq_self_iff)
  show "unat (lh_nr_logger_ref h) = ref_count s q" using eq u by simp
  then show "lh_nr_logger_ref h = 0 \<longleftrightarrow> ref_count s q = 0" by (metis unat_eq_zero)
qed

lemma filter_toggle:
  assumes "distinct xs" "p \<in> set xs" "\<And>x. x \<in> set xs \<Longrightarrow> x \<noteq> p \<Longrightarrow> P x = Q x" "P p" "\<not> Q p"
  shows "length (filter P xs) = Suc (length (filter Q xs))"
proof -
  obtain as bs where xs: "xs = as @ p # bs" using assms(2) by (auto dest: split_list)
  have "filter P as = filter Q as" "filter P bs = filter Q bs"
    using assms(1,3) xs by (auto intro!: filter_cong)
  then show ?thesis using xs assms(4,5) by simp
qed

text \<open>Changing handlers in place: what a change must leave alone.\<close>

definition same_handler :: "lmk_log_handler \<Rightarrow> lmk_log_handler \<Rightarrow> bool" where
  "same_handler h h' \<longleftrightarrow> lh_initialized h' = lh_initialized h \<and> lh_name h' = lh_name h \<and>
     lh_nr_logger_ref h' = lh_nr_logger_ref h \<and> (level_ok (lh_log_level h) \<longrightarrow> level_ok (lh_log_level h')) \<and>
     lh_running h' = lh_running h \<and> (handler_ok h \<longrightarrow> handler_ok h')"

lemma same_handler_refl [simp]: "same_handler h h"
  by (simp add: same_handler_def)

lemma reg_inv_handlers:
  assumes inv: "reg_inv s" and d: "dom hs = dom (rg_handler s)"
    and same: "\<And>q h h'. rg_handler s q = Some h \<Longrightarrow> hs q = Some h' \<Longrightarrow> same_handler h h'"
  shows "reg_inv (s\<lparr>rg_handler := hs\<rparr>)"
proof -
  note I = reg_invD [OF inv]
  have rc: "ref_count (s\<lparr>rg_handler := hs\<rparr>) q = ref_count s q" for q by (rule ref_count_frame) simp_all
  have h: "\<exists>h. rg_handler s q = Some h \<and> same_handler h h'" if "hs q = Some h'" for q h'
  proof -
    have "q \<in> dom (rg_handler s)" using that d by blast
    then obtain h where "rg_handler s q = Some h" by blast
    with same that show ?thesis by blast
  qed
  have "reg_handler_ok (s\<lparr>rg_handler := hs\<rparr>) q h'" if q: "hs q = Some h'" for q h'
  proof -
    obtain h where "rg_handler s q = Some h" "same_handler h h'" using h [OF q] by blast
    then show ?thesis using I(9) [of q h] by (auto simp: reg_handler_ok_def same_handler_def rc)
  qed
  moreover have names: "map (\<lambda>q. lh_name (the (hs q))) (rg_handlers s) = map (\<lambda>q. lh_name (the (rg_handler s q))) (rg_handlers s)"
  proof (rule map_cong [OF refl])
    fix q assume "q \<in> set (rg_handlers s)"
    then obtain h' where "hs q = Some h'" using d I(6) by blast
    with h [of q h'] show "lh_name (the (hs q)) = lh_name (the (rg_handler s q))" by (auto simp: same_handler_def)
  qed
  moreover have "distinct (map (\<lambda>q. lh_name (the (hs q))) (rg_handlers s))" unfolding names by (rule I(13))
  moreover have "logger_ok (s\<lparr>rg_handler := hs\<rparr>) l = logger_ok s l" for l by (simp add: logger_ok_def)
  ultimately show ?thesis using I d unfolding reg_inv_def by simp
qed


section \<open>Every operation keeps the invariant\<close>

text \<open>Changing one logger in place.\<close>

lemma names_update:
  assumes "m p = Some l" "f l' = f l"
  shows "map (\<lambda>x. f (the ((m(p \<mapsto> l')) x))) xs = map (\<lambda>x. f (the (m x))) xs"
  using assms by (intro map_cong) auto

lemma names_distinct:
  assumes "m p = Some l" "f l' = f l" "distinct (map (\<lambda>x. f (the (m x))) xs)"
  shows "distinct (map (\<lambda>x. f (the ((m(p \<mapsto> l')) x))) xs)"
  using assms(3) unfolding names_update [of m p l f l', OF assms(1,2)] .

lemma names_snoc:
  assumes "p \<notin> set xs" "distinct (map (\<lambda>x. f (the (m x))) xs)" "\<forall>x\<in>set xs. f (the (m x)) \<noteq> f v"
  shows "distinct (map (\<lambda>x. f (the ((m(p \<mapsto> v)) x))) (xs @ [p]))"
proof -
  have "map (\<lambda>x. f (the ((m(p \<mapsto> v)) x))) xs = map (\<lambda>x. f (the (m x))) xs" using assms(1) by (intro map_cong) auto
  then have "map (\<lambda>x. f (the ((m(p \<mapsto> v)) x))) (xs @ [p]) = map (\<lambda>x. f (the (m x))) xs @ [f v]"
    by (simp only: map_append) simp
  moreover have "distinct (map (\<lambda>x. f (the (m x))) xs @ [f v])" using assms(2,3) by auto
  ultimately show ?thesis by (simp only:)
qed

lemma names_remove:
  assumes "distinct (map (\<lambda>x. f (the (m x))) xs)" "distinct xs"
  shows "distinct (map (\<lambda>x. f (the ((m(p := None)) x))) (remove1 p xs))"
proof -
  have "map (\<lambda>x. f (the ((m(p := None)) x))) (remove1 p xs) = map (\<lambda>x. f (the (m x))) (remove1 p xs)"
    using assms(2) by (intro map_cong) auto
  moreover have "distinct (map (\<lambda>x. f (the (m x))) (remove1 p xs))"
    using assms by (auto simp: distinct_map inj_on_def)
  ultimately show ?thesis by (simp only:)
qed

lemma reg_inv_logger:
  assumes inv: "reg_inv s" and l: "rg_logger s p = Some l" "lg_name l' = lg_name l" "lg_refs l' = lg_refs l" "logger_ok s l'"
  shows "reg_inv (s\<lparr>rg_logger := (rg_logger s)(p \<mapsto> l')\<rparr>)"
proof -
  note I = reg_invD [OF inv]
  let ?s = "s\<lparr>rg_logger := (rg_logger s)(p \<mapsto> l')\<rparr>"
  have rc: "ref_count ?s q = ref_count s q" for q by (rule ref_count_frame) (use l in \<open>auto\<close>)
  have names: "distinct (map (\<lambda>x. lg_name (the (rg_logger ?s x))) (rg_loggers s))"
    using names_distinct [of "rg_logger s" p l lg_name l', OF l(1,2) I(12)] by simp
  have lk: "logger_ok ?s x = logger_ok s x" "reg_handler_ok ?s q h = reg_handler_ok s q h" for x q h
    by (simp_all add: logger_ok_def reg_handler_ok_def rc)
  have "dom (rg_logger ?s) = set (rg_loggers s)" using I(4,10) l(1) by auto
  then show ?thesis using I names l(4) unfolding reg_inv_def by (simp add: lk)
qed

lemma set_log_level_inv:
  assumes "reg_inv s" "lmk_set_log_level logger lv s = Some s'"
  shows "reg_inv s'"
proof (cases "\<exists>p l. logger = Some p \<and> rg_logger s p = Some l \<and> level_ok lv")
  case True
  then obtain p l where *: "logger = Some p" "rg_logger s p = Some l" "level_ok lv" by blast
  then have "s' = s\<lparr>rg_logger := (rg_logger s)(p \<mapsto> l\<lparr>lg_log_level := lv\<rparr>)\<rparr>"
    using assms(2) by (simp add: lmk_set_log_level_def level_ok_def)
  then show ?thesis
    using reg_inv_logger [OF assms(1) *(2), of "l\<lparr>lg_log_level := lv\<rparr>"] reg_invD(8) [OF assms(1) *(2)] *(3)
    by (simp add: logger_ok_def)
next
  case False
  then have "s' = s" using assms(2) by (auto simp: lmk_set_log_level_def level_ok_def split: option.splits Option.bind_splits if_splits)
  then show ?thesis using assms(1) by simp
qed

text \<open>What \<open>malloc\<close> promises: it fails, or returns an address that no live struct has.\<close>

definition fresh_env :: "env \<Rightarrow> registry \<Rightarrow> bool" where
  "fresh_env e s \<longleftrightarrow> (\<forall>p. env_ptr e = Some p \<longrightarrow> p \<noteq> NULL \<and> p \<notin> set (rg_loggers s) \<and> p \<notin> set (rg_handlers s))"

text \<open>The strings a handler owns, its name and its file name, could be copied. The constructors do not
  test this: they go on with a \<open>NULL\<close> name, which the next search passes to \<open>strcmp\<close>, or pass a \<open>NULL\<close>
  file name to \<open>fopen\<close>. It is a hypothesis wherever a handler may be made.\<close>

definition copies_ok :: "env \<Rightarrow> bool" where
  "copies_ok e \<longleftrightarrow> env_name_ok e \<and> env_dup_ok e"

lemma get_logger_cases [consumes 1]:
  assumes "reg_inv s"
  obtains (null) "name = None" "lmk_get_logger e name s = Some (None, s)"
  | (found) n p where "name = Some n" "p \<in> set (rg_loggers s)" "lg_name (the (rg_logger s p)) = n" "lmk_get_logger e name s = Some (Some p, s)"
  | (nomem) n where "name = Some n" "lmk_get_logger e name s = Some (None, s)"
  | (new) n p where "name = Some n" "env_ptr e = Some p" "env_name_ok e" "\<forall>p\<in>set (rg_loggers s). lg_name (the (rg_logger s p)) \<noteq> n"
      "lmk_get_logger e name s = Some (Some p, s\<lparr>rg_loggers := rg_loggers s @ [p],
         rg_logger := (rg_logger s)(p \<mapsto> lmk_init_logger n)\<rparr>)"
proof (cases name)
  case None
  then show ?thesis using null by (simp add: lmk_get_logger_def)
next
  case (Some n)
  show ?thesis
  proof (cases "find (\<lambda>p. lg_name (the (rg_logger s p)) = n) (rg_loggers s)")
    case None
    then have nf: "\<forall>p\<in>set (rg_loggers s). lg_name (the (rg_logger s p)) \<noteq> n" by (auto simp: find_None_iff)
    show ?thesis
      using nomem new Some None nf search_logger [OF assms, of n]
      by (cases "env_ptr e"; cases "env_name_ok e") (auto simp: lmk_get_logger_def)
  next
    case found': (Some p)
    then show ?thesis using found [of n p] Some find_SomeD [OF found'] search_logger [OF assms, of n]
      by (simp add: lmk_get_logger_def)
  qed
qed

lemma get_logger_inv:
  assumes inv: "reg_inv s" and e: "fresh_env e s" and run: "lmk_get_logger e name s = Some (r, s')"
    and small: "length (rg_loggers s') < 2 ^ 32"
  shows "reg_inv s'"
  using inv
proof (cases rule: get_logger_cases [of s name e])
  case (new n p)
  let ?s = "s\<lparr>rg_loggers := rg_loggers s @ [p], rg_logger := (rg_logger s)(p \<mapsto> lmk_init_logger n)\<rparr>"
  have s': "s' = ?s" using new(5) run by simp
  note I = reg_invD [OF inv]
  have p: "p \<notin> set (rg_loggers s)" using e new(2) by (simp add: fresh_env_def)
  have rc: "ref_count ?s q = ref_count s q" for q
  proof -
    have "filter (\<lambda>x. \<exists>l. rg_logger ?s x = Some l \<and> q \<in> set (lg_refs l)) (rg_loggers s) =
        filter (\<lambda>x. \<exists>l. rg_logger s x = Some l \<and> q \<in> set (lg_refs l)) (rg_loggers s)"
      using p by (intro filter_cong) auto
    then show ?thesis by (simp add: ref_count_def lmk_init_logger_def)
  qed
  have lk: "logger_ok ?s x = logger_ok s x" "reg_handler_ok ?s q h = reg_handler_ok s q h" for x q h
    by (simp_all add: logger_ok_def reg_handler_ok_def rc)
  have "logger_ok s (lmk_init_logger n)" by (simp add: logger_ok_def lmk_init_logger_def level_ok_def level_defs)
  moreover have "distinct (map (\<lambda>x. lg_name (the (rg_logger ?s x))) (rg_loggers ?s))"
    using names_snoc [of p "rg_loggers s" lg_name "rg_logger s" "lmk_init_logger n"] I(12) new(4) p
    by (simp add: lmk_init_logger_def)
  moreover have "dom (rg_logger ?s) = set (rg_loggers ?s)" using I(4) by auto
  ultimately show ?thesis using I p small unfolding s' reg_inv_def by (simp add: lk del: map_append)
qed (use inv run in auto)


lemma ref_count_toggle:
  assumes inv: "reg_inv s" and l: "rg_logger s p = Some l" "q \<notin> set (lg_refs l)" "q \<in> set (lg_refs l')"
    and "rg_loggers s' = rg_loggers s" "rg_logger s' = (rg_logger s)(p \<mapsto> l')"
  shows "ref_count s' q = Suc (ref_count s q)"
  unfolding ref_count_def assms(5)
  by (rule filter_toggle [of _ p]) (use reg_invD(3,10) [OF inv] l assms(6) in \<open>auto split: if_splits\<close>)

lemma ref_count_other:
  assumes "rg_logger s p = Some l" "q \<in> set (lg_refs l') \<longleftrightarrow> q \<in> set (lg_refs l)"
    and "rg_loggers s' = rg_loggers s" "rg_logger s' = (rg_logger s)(p \<mapsto> l')"
  shows "ref_count s' q = ref_count s q"
  unfolding ref_count_def assms(3)
  by (intro arg_cong [where f = length] filter_cong refl) (use assms in auto)

text \<open>Attaching and detaching: one logger's references and one handler's count change together.\<close>

lemma reg_inv_reference:
  assumes inv: "reg_inv s" and l: "rg_logger s p = Some l" and h: "rg_handler s q = Some h"
    and refs: "distinct rs" "set rs \<subseteq> set (rg_handlers s)" "\<And>x. x \<noteq> q \<Longrightarrow> x \<in> set rs \<longleftrightarrow> x \<in> set (lg_refs l)"
    and s': "s' = s\<lparr>rg_logger := (rg_logger s)(p \<mapsto> l\<lparr>lg_refs := rs\<rparr>),
               rg_handler := (rg_handler s)(q \<mapsto> h\<lparr>lh_nr_logger_ref := n\<rparr>)\<rparr>"
    and n: "n = of_nat (ref_count s' q)"
  shows "reg_inv s'"
proof -
  note I = reg_invD [OF inv]
  have rc: "ref_count s' x = ref_count s x" if "x \<noteq> q" for x
    by (rule ref_count_other [OF l]) (use refs(3) [OF that] s' in auto)
  have lk: "logger_ok s' x = logger_ok s x" for x by (simp add: logger_ok_def s')
  have "distinct (map (\<lambda>x. lg_name (the (rg_logger s' x))) (rg_loggers s))"
    using names_distinct [of "rg_logger s" p l lg_name "l\<lparr>lg_refs := rs\<rparr>", OF l _ I(12)] by (simp add: s')
  moreover have "distinct (map (\<lambda>x. lh_name (the (rg_handler s' x))) (rg_handlers s))"
    using names_distinct [of "rg_handler s" q h lh_name "h\<lparr>lh_nr_logger_ref := n\<rparr>", OF h _ I(13)] by (simp add: s')
  moreover have "\<forall>x y. rg_logger s' x = Some y \<longrightarrow> logger_ok s' y"
    unfolding lk using I(8) l refs(1,2) by (auto simp: s' logger_ok_def split: if_splits)
  moreover have "reg_handler_ok s' x y" if "rg_handler s' x = Some y" for x y
  proof (cases "x = q")
    case True
    then have "y = h\<lparr>lh_nr_logger_ref := n\<rparr>" using that s' by simp
    then show ?thesis using I(9) [OF h] n True by (simp add: reg_handler_ok_def handler_ok_def)
  next
    case False
    then have "rg_handler s x = Some y" using that s' by simp
    then show ?thesis using I(9) [of x y] rc [OF False] by (simp add: reg_handler_ok_def)
  qed
  moreover have "dom (rg_logger s') = set (rg_loggers s)" "dom (rg_handler s') = set (rg_handlers s)"
    using I(4,6,10,11) l h by (auto simp: s')
  ultimately show ?thesis using I(1-7) unfolding reg_inv_def by (simp add: s')
qed


lemma attach_inv:
  assumes inv: "reg_inv s" and run: "lmk_attach_log_handler m logger handler s = Some (rc, s')"
  shows "reg_inv s'"
proof (cases "s' = s")
  case False
  then obtain p q l h where *: "logger = Some p" "handler = Some q" "rg_logger s p = Some l" "rg_handler s q = Some h"
    "q \<notin> set (lg_refs l)" and s': "s' = s\<lparr>rg_logger := (rg_logger s)(p \<mapsto> l\<lparr>lg_refs := lg_refs l @ [q]\<rparr>),
             rg_handler := (rg_handler s)(q \<mapsto> h\<lparr>lh_nr_logger_ref := lh_nr_logger_ref h + 1\<rparr>)\<rparr>"
    using run by (auto simp: lmk_attach_log_handler_def split: option.splits if_splits Option.bind_splits)
  note I = reg_invD [OF inv]
  have "ref_count s' q = Suc (ref_count s q)"
    by (rule ref_count_toggle [OF inv *(3,5), of "l\<lparr>lg_refs := lg_refs l @ [q]\<rparr>"]) (simp_all add: s')
  then have "lh_nr_logger_ref h + 1 = of_nat (ref_count s' q)"
    using I(9) [OF *(4)] by (simp add: reg_handler_ok_def add.commute)
  moreover have "distinct (lg_refs l @ [q])" "set (lg_refs l @ [q]) \<subseteq> set (rg_handlers s)"
    using I(8) [OF *(3)] I(11) [OF *(4)] *(5) by (auto simp: logger_ok_def)
  ultimately show ?thesis using reg_inv_reference [OF inv *(3,4) _ _ _ s'] by auto
qed (use inv in simp)

lemma detach_effect:
  assumes inv: "reg_inv s" and l: "rg_logger s p = Some l" "q \<in> set (lg_refs l)"
  shows "\<exists>h s'. rg_handler s q = Some h \<and> lmk_detach_log_handler (Some p) (Some q) s = Some (LMK_E_OK, s') \<and> reg_inv s' \<and>
    s' = s\<lparr>rg_logger := (rg_logger s)(p \<mapsto> l\<lparr>lg_refs := remove1 q (lg_refs l)\<rparr>),
           rg_handler := (rg_handler s)(q \<mapsto> h\<lparr>lh_nr_logger_ref := lh_nr_logger_ref h - 1\<rparr>)\<rparr>"
proof -
  note I = reg_invD [OF inv]
  have "q \<in> set (rg_handlers s)" using I(8) [OF l(1)] l(2) by (auto simp: logger_ok_def)
  then obtain h where h: "rg_handler s q = Some h" using reg_inv_live(2) [OF inv] by blast
  define s' where "s' = s\<lparr>rg_logger := (rg_logger s)(p \<mapsto> l\<lparr>lg_refs := remove1 q (lg_refs l)\<rparr>),
           rg_handler := (rg_handler s)(q \<mapsto> h\<lparr>lh_nr_logger_ref := lh_nr_logger_ref h - 1\<rparr>)\<rparr>"
  have dis: "distinct (lg_refs l)" "set (lg_refs l) \<subseteq> set (rg_handlers s)" using I(8) [OF l(1)] by (auto simp: logger_ok_def)
  have ls: "rg_loggers s' = rg_loggers s" "rg_logger s' = (rg_logger s)(p \<mapsto> l\<lparr>lg_refs := remove1 q (lg_refs l)\<rparr>)"
    by (simp_all add: s'_def)
  have "ref_count s q = Suc (ref_count s' q)"
    unfolding ref_count_def ls
    by (rule filter_toggle [of _ p]) (use I(3) I(10) [OF l(1)] l dis(1) in \<open>auto split: if_splits\<close>)
  then have "lh_nr_logger_ref h - 1 = of_nat (ref_count s' q)"
    using I(9) [OF h] by (simp add: reg_handler_ok_def)
  then have "reg_inv s'"
    using dis by (intro reg_inv_reference [OF inv l(1) h _ _ _ s'_def]) (auto dest: notin_set_remove1)
  then show ?thesis using l h by (auto simp: lmk_detach_log_handler_def s'_def)
qed

lemma detach_inv:
  assumes inv: "reg_inv s" and run: "lmk_detach_log_handler logger handler s = Some (rc, s')"
  shows "reg_inv s'"
proof (cases "\<exists>p q l. logger = Some p \<and> handler = Some q \<and> rg_logger s p = Some l \<and> q \<in> set (lg_refs l)")
  case True
  then obtain p q l where *: "logger = Some p" "handler = Some q" "rg_logger s p = Some l" "q \<in> set (lg_refs l)" by blast
  with detach_effect [OF inv *(3,4)] run show ?thesis by auto
next
  case False
  then have "s' = s" using run by (auto simp: lmk_detach_log_handler_def split: option.splits if_splits Option.bind_splits)
  then show ?thesis using inv by simp
qed

text \<open>Detaching everything from a logger ends, and touches only its references and the counts of its
  handlers.\<close>

lemma detach_all_effect:
  assumes "reg_inv s" "rg_logger s p = Some l"
  shows "\<exists>hs. detach_all p s = Some (s\<lparr>rg_logger := (rg_logger s)(p \<mapsto> l\<lparr>lg_refs := []\<rparr>), rg_handler := hs\<rparr>) \<and>
    reg_inv (s\<lparr>rg_logger := (rg_logger s)(p \<mapsto> l\<lparr>lg_refs := []\<rparr>), rg_handler := hs\<rparr>)"
  using assms
proof (induction "lg_refs l" arbitrary: s l)
  case Nil
  then have l: "l\<lparr>lg_refs := []\<rparr> = l" "(rg_logger s)(p \<mapsto> l) = rg_logger s" by auto
  have "detach_all p s = Some s" using Nil by (subst detach_all.simps) (simp flip: Nil.hyps)
  then show ?case using Nil.prems(1) l by (intro exI [of _ "rg_handler s"]) simp
next
  case (Cons q qs)
  have q: "q \<in> set (lg_refs l)" by (simp flip: Cons.hyps(2))
  from detach_effect [OF Cons.prems q] obtain h s1 where s1: "lmk_detach_log_handler (Some p) (Some q) s = Some (LMK_E_OK, s1)"
    "reg_inv s1" "s1 = s\<lparr>rg_logger := (rg_logger s)(p \<mapsto> l\<lparr>lg_refs := remove1 q (lg_refs l)\<rparr>),
           rg_handler := (rg_handler s)(q \<mapsto> h\<lparr>lh_nr_logger_ref := lh_nr_logger_ref h - 1\<rparr>)\<rparr>" by blast
  have l1: "rg_logger s1 p = Some (l\<lparr>lg_refs := qs\<rparr>)" using s1(3) by (simp flip: Cons.hyps(2))
  have step: "detach_all p s = detach_all p s1"
    using Cons.prems(2) s1(1) by (subst detach_all.simps) (simp flip: Cons.hyps(2))
  have "qs = lg_refs (l\<lparr>lg_refs := qs\<rparr>)" by simp
  from Cons.hyps(1) [OF this s1(2) l1] obtain hs where
    "detach_all p s1 = Some (s1\<lparr>rg_logger := (rg_logger s1)(p \<mapsto> l\<lparr>lg_refs := []\<rparr>), rg_handler := hs\<rparr>)"
    "reg_inv (s1\<lparr>rg_logger := (rg_logger s1)(p \<mapsto> l\<lparr>lg_refs := []\<rparr>), rg_handler := hs\<rparr>)" by auto
  then show ?case unfolding step by (intro exI [of _ hs]) (simp add: s1(3))
qed

lemma destroy_logger_effect:
  assumes "reg_inv s" "rg_logger s p = Some l"
  shows "\<exists>hs s'. lmk_destroy_logger (Some p) s = Some (LMK_E_OK, s') \<and> reg_inv s' \<and>
    s' = s\<lparr>rg_handler := hs, rg_loggers := remove1 p (rg_loggers s), rg_logger := (rg_logger s)(p := None)\<rparr>"
proof -
  from detach_all_effect [OF assms] obtain hs where
    d: "detach_all p s = Some (s\<lparr>rg_logger := (rg_logger s)(p \<mapsto> l\<lparr>lg_refs := []\<rparr>), rg_handler := hs\<rparr>)"
    and inv: "reg_inv (s\<lparr>rg_logger := (rg_logger s)(p \<mapsto> l\<lparr>lg_refs := []\<rparr>), rg_handler := hs\<rparr>)" (is "reg_inv ?t") by blast
  define s' where "s' = s\<lparr>rg_handler := hs, rg_loggers := remove1 p (rg_loggers s), rg_logger := (rg_logger s)(p := None)\<rparr>"
  note I = reg_invD [OF inv]
  have rc: "ref_count s' q = ref_count ?t q" for q
  proof -
    have "filter (\<lambda>x. \<exists>l. rg_logger ?t x = Some l \<and> q \<in> set (lg_refs l)) (rg_loggers s) =
        filter (\<lambda>x. \<exists>l. rg_logger s' x = Some l \<and> q \<in> set (lg_refs l)) (remove1 p (rg_loggers s))"
      using I(3) by (simp add: distinct_remove1_removeAll removeAll_filter_not_eq s'_def)
    then show ?thesis by (simp add: ref_count_def s'_def)
  qed
  have lk: "logger_ok s' x = logger_ok ?t x" "reg_handler_ok s' q h = reg_handler_ok ?t q h" for x q h
    by (simp_all add: logger_ok_def reg_handler_ok_def rc) (simp add: s'_def)
  have "distinct (map (\<lambda>x. lg_name (the (rg_logger s' x))) (rg_loggers s'))"
    using names_remove [of lg_name "rg_logger ?t" "rg_loggers ?t" p, OF I(12,3)] by (simp add: s'_def)
  moreover have "dom (rg_logger s') = set (rg_loggers s')" using I(3,4) by (auto simp: s'_def)
  moreover have "length (rg_loggers s') < 2 ^ 32" using I(7) by (auto simp: s'_def length_remove1)
  moreover have "logger_ok s' y" if "rg_logger s' x = Some y" for x y
  proof -
    have "rg_logger ?t x = Some y" using that by (simp add: s'_def split: if_splits)
    from I(8) [OF this] show ?thesis by (simp only: lk)
  qed
  ultimately have "reg_inv s'" using I unfolding reg_inv_def by (simp add: lk) (simp add: s'_def)
  then show ?thesis using d by (auto simp: lmk_destroy_logger_def s'_def)
qed


lemma destroy_logger_inv:
  assumes inv: "reg_inv s" and run: "lmk_destroy_logger logger s = Some (rc, s')"
  shows "reg_inv s'"
proof (cases logger)
  case (Some p)
  then obtain l where "rg_logger s p = Some l"
    using run by (auto simp: lmk_destroy_logger_def detach_all.simps [of p s] split: Option.bind_splits)
  with destroy_logger_effect [OF inv this] run Some show ?thesis by auto
qed (use run inv in \<open>simp add: lmk_destroy_logger_def\<close>)

text \<open>Adding a handler.\<close>

lemma publish_inv:
  assumes inv: "reg_inv s" and p: "p \<notin> set (rg_handlers s)"
    and h: "handler_ok h" "lh_ring h \<noteq> None \<longrightarrow> lh_running h" "lh_name h = Some n" "level_ok (lh_log_level h)" "lh_nr_logger_ref h = 0"
    and nf: "\<forall>q\<in>set (rg_handlers s). lh_name (the (rg_handler s q)) \<noteq> Some n"
    and run: "publish_handler p h s = (r, s')"
  shows "reg_inv s'"
proof (cases "lh_ring h = None")
  case False
  let ?h = "h\<lparr>lh_initialized := True\<rparr>"
  have s': "s' = s\<lparr>rg_handlers := rg_handlers s @ [p], rg_handler := (rg_handler s)(p \<mapsto> ?h)\<rparr>"
    using False run by (auto simp: publish_handler_def)
  note I = reg_invD [OF inv]
  have rc: "ref_count s' q = ref_count s q" for q by (rule ref_count_frame) (simp_all add: s')
  have "\<forall>x l. rg_logger s x = Some l \<longrightarrow> p \<notin> set (lg_refs l)" using I(8) p by (force simp: logger_ok_def)
  then have z: "ref_count s p = 0" using ref_count_zero [OF inv] by blast
  have "distinct (map (\<lambda>x. lh_name (the (rg_handler s' x))) (rg_handlers s'))"
    using names_snoc [of p "rg_handlers s" lh_name "rg_handler s" ?h, OF p I(13)] nf h(3) by (simp add: s')
  moreover have "reg_handler_ok s' q y" if "rg_handler s' q = Some y" for q y
  proof (cases "q = p")
    case True
    then have "y = ?h" using that by (simp add: s')
    then show ?thesis using h False z True by (auto simp: reg_handler_ok_def handler_ok_def rc)
  next
    case False
    then have "rg_handler s q = Some y" using that by (simp add: s')
    then show ?thesis using I(9) by (simp add: reg_handler_ok_def rc)
  qed
  moreover have "\<forall>x y. rg_logger s' x = Some y \<longrightarrow> logger_ok s' y" using I(8) by (auto simp: s' logger_ok_def)
  moreover have "dom (rg_handler s') = set (rg_handlers s')" using I(6) by (auto simp: s')
  ultimately show ?thesis using I(1-7,12) p unfolding reg_inv_def by (simp add: s')
qed (use run inv in \<open>simp add: publish_handler_def\<close>)

lemma reg_inv_files: "reg_inv s \<Longrightarrow> reg_inv (s\<lparr>rg_files := fs\<rparr>)" "reg_inv s \<Longrightarrow> reg_inv (s\<lparr>rg_stderr := es\<rparr>)"
proof -
  have rc: "ref_count (s\<lparr>rg_files := fs\<rparr>) = ref_count s" "ref_count (s\<lparr>rg_stderr := es\<rparr>) = ref_count s"
    by (simp_all add: ref_count_def fun_eq_iff)
  show "reg_inv s \<Longrightarrow> reg_inv (s\<lparr>rg_files := fs\<rparr>)" "reg_inv s \<Longrightarrow> reg_inv (s\<lparr>rg_stderr := es\<rparr>)"
    by (simp_all add: reg_inv_def logger_ok_def reg_handler_ok_def rc)
qed

lemma find_NoneD: "find P xs = None \<Longrightarrow> \<forall>x\<in>set xs. \<not> P x"
  by (auto simp: find_None_iff)

text \<open>What the four \<open>init\<close> functions make of a fresh base record.\<close>

definition fresh_handler :: "string \<Rightarrow> lmk_log_handler \<Rightarrow> bool" where
  "fresh_handler n h \<longleftrightarrow> handler_ok h \<and> (lh_ring h \<noteq> None \<longrightarrow> lh_running h) \<and> lh_name h = Some n \<and> level_ok (lh_log_level h) \<and>
     lh_nr_logger_ref h = 0"

lemma async_init_fresh: "fresh_handler n (async_init cfg m t (lmk_init_base_log_handler ty n True ext))"
  using async_init_ok [of "lmk_init_base_log_handler ty n True ext" cfg m t]
  by (auto simp: fresh_handler_def lmk_init_base_log_handler_def async_init_def handler_ok_def level_ok_def level_defs Let_def)

lemma fresh_handler_ext: "fresh_handler n h \<Longrightarrow> fresh_handler n (h\<lparr>lh_ext := x\<rparr>)"
  by (simp add: fresh_handler_def handler_ok_def)

lemma publish_fresh_inv:
  assumes inv: "reg_inv s" and e: "fresh_env e s" "env_ptr e = Some p"
    and nf: "find (\<lambda>q. lh_name (the (rg_handler s q)) = Some n) (rg_handlers s) = None"
    and h: "fresh_handler n h" and run: "publish_handler p h (s\<lparr>rg_files := fs\<rparr>) = (r, s')"
  shows "reg_inv s'"
proof (rule publish_inv [OF reg_inv_files(1) [OF inv, of fs] _ _ _ _ _ _ _ run])
  show "p \<notin> set (rg_handlers (s\<lparr>rg_files := fs\<rparr>))" using e by (simp add: fresh_env_def)
  show "\<forall>q\<in>set (rg_handlers (s\<lparr>rg_files := fs\<rparr>)). lh_name (the (rg_handler (s\<lparr>rg_files := fs\<rparr>) q)) \<noteq> Some n"
    using find_NoneD [OF nf] by simp
qed (use h in \<open>simp_all add: fresh_handler_def\<close>)

text \<open>A constructor finds a handler of that name, fails, or publishes a fresh one.\<close>

definition constructs :: "env \<Rightarrow> string \<Rightarrow> registry \<Rightarrow> (addr option \<times> registry) option \<Rightarrow> bool" where
  "constructs e n s res \<longleftrightarrow>
     (case find (\<lambda>q. lh_name (the (rg_handler s q)) = Some n) (rg_handlers s) of
        Some q \<Rightarrow> res = Some (Some q, s)
      | None \<Rightarrow>
          (case env_ptr e of
             None \<Rightarrow> res = Some (None, s)
           | Some p \<Rightarrow> \<exists>h fs. fresh_handler n h \<and> (env_ring_ok e \<and> env_thread_ok e \<longrightarrow> lh_ring h \<noteq> None) \<and>
               res = Some (publish_handler p h (s\<lparr>rg_files := fs\<rparr>))))"

lemma constructs_inv:
  assumes "reg_inv s" "fresh_env e s" "constructs e n s (Some (r, s'))"
  shows "reg_inv s'"
proof (cases "find (\<lambda>q. lh_name (the (rg_handler s q)) = Some n) (rg_handlers s)")
  case None
  show ?thesis
  proof (cases "env_ptr e")
    case (Some p)
    then obtain h fs where "fresh_handler n h" "publish_handler p h (s\<lparr>rg_files := fs\<rparr>) = (r, s')"
      using assms(3) None unfolding constructs_def by (simp only: option.case option.inject) metis
    then show ?thesis by (rule publish_fresh_inv [OF assms(1,2) Some None])
  qed (use assms None in \<open>simp add: constructs_def\<close>)
qed (use assms in \<open>simp add: constructs_def\<close>)

lemma constructsI:
  assumes "\<And>q. find (\<lambda>q. lh_name (the (rg_handler s q)) = Some n) (rg_handlers s) = Some q \<Longrightarrow> res = Some (Some q, s)"
    and "find (\<lambda>q. lh_name (the (rg_handler s q)) = Some n) (rg_handlers s) = None \<Longrightarrow> env_ptr e = None \<Longrightarrow> res = Some (None, s)"
    and "\<And>p. find (\<lambda>q. lh_name (the (rg_handler s q)) = Some n) (rg_handlers s) = None \<Longrightarrow> env_ptr e = Some p \<Longrightarrow>
      res = Some (publish_handler p h (s\<lparr>rg_files := fs\<rparr>))"
    and "fresh_handler n h" "env_ring_ok e \<and> env_thread_ok e \<longrightarrow> lh_ring h \<noteq> None"
  shows "constructs e n s res"
  using assms by (auto simp: constructs_def split: option.splits)

lemma async_init_ring: "m \<and> t \<longrightarrow> lh_ring (async_init cfg m t h) \<noteq> None"
  by (simp add: async_init_def)

lemma get_console_constructs:
  assumes "reg_inv s" "copies_ok e"
  shows "constructs e ''console'' s (lmk_get_console_log_handler e s)"
proof -
  obtain cfg where "rg_config s = Some cfg" using reg_invD(2) [OF assms(1)] by blast
  moreover have "env_name_ok e" using assms(2) by (simp add: copies_ok_def)
  ultimately show ?thesis
    by (intro constructsI [OF _ _ _ async_init_fresh [of "''console''" cfg "env_ring_ok e" "env_thread_ok e" CONSOLE Console_ext] async_init_ring,
          of _ _ "rg_files s"])
      (simp_all add: lmk_get_console_log_handler_def search_handler [OF assms(1)] lmk_console_log_handler_init_def)
qed

lemma get_file_constructs:
  assumes "reg_inv s" "copies_ok e"
  shows "constructs e n s (lmk_get_file_log_handler e (Some n) (Some f) s)"
proof -
  obtain cfg where cfg: "rg_config s = Some cfg" using reg_invD(2) [OF assms(1)] by blast
  have nm: "env_name_ok e" "env_dup_ok e" using assms(2) by (simp_all add: copies_ok_def)
  define fp where "fp = \<lparr>fp_filename = Some f, fp_log_fp = None,
    fp_max_file_size = LMK_DEFAULT_MAX_FILE_SIZE, fp_max_backup_files = LMK_DEFAULT_MAX_BACKUP_FILES, fp_current_file_size = 0\<rparr>"
  obtain h fs where init: "lmk_file_log_handler_init (env_can_open e) cfg (env_ring_ok e) (env_thread_ok e) fp
      (lmk_init_base_log_handler FILE n True (File_ext fp)) (rg_files s) = Some (h, fs)"
    by (simp add: lmk_file_log_handler_init_def fp_def Let_def split_beta)
  have "fresh_handler n h"
    using init fresh_handler_ext [OF async_init_fresh] by (auto simp: lmk_file_log_handler_init_def fp_def Let_def split: prod.splits)
  moreover have "env_ring_ok e \<and> env_thread_ok e \<longrightarrow> lh_ring h \<noteq> None"
    using init by (auto simp: lmk_file_log_handler_init_def fp_def Let_def async_init_def split: prod.splits)
  ultimately show ?thesis
    by (intro constructsI [of _ _ _ _ h fs])
      (simp_all add: lmk_get_file_log_handler_def search_handler [OF assms(1)] cfg nm init flip: fp_def)
qed

lemma get_socket_constructs:
  assumes "reg_inv s" "copies_ok e"
  shows "constructs e n s (lmk_get_socket_log_handler e (Some n) s)"
proof -
  obtain cfg where cfg: "rg_config s = Some cfg" using reg_invD(2) [OF assms(1)] by blast
  have nm: "env_name_ok e" "env_dup_ok e" using assms(2) by (simp_all add: copies_ok_def)
  define sp where "sp = \<lparr>sk_log_servers = [], sk_sockd = 0, sk_psk_enabled = False, sk_psk_key = replicate 32 NUL, sk_cipher_ctx = False\<rparr>"
  define h where "h = lmk_socket_log_handler_init (env_socket_fd e) (env_ctx_ok e) cfg (env_ring_ok e) (env_thread_ok e) sp
      (lmk_init_base_log_handler SOCKET n True (Socket_ext sp))"
  have "fresh_handler n h"
    using fresh_handler_ext [OF async_init_fresh] by (simp add: h_def lmk_socket_log_handler_init_def Let_def)
  moreover have "env_ring_ok e \<and> env_thread_ok e \<longrightarrow> lh_ring h \<noteq> None"
    by (simp add: h_def lmk_socket_log_handler_init_def Let_def async_init_def)
  ultimately show ?thesis
    by (intro constructsI [of _ _ _ _ h "rg_files s"])
      (simp_all add: lmk_get_socket_log_handler_def search_handler [OF assms(1)] cfg nm h_def flip: sp_def)
qed

lemma get_syslog_constructs:
  assumes "reg_inv s" "copies_ok e"
  shows "constructs e n s (lmk_get_syslog_log_handler e (Some n) ident facility s)"
proof -
  obtain cfg where cfg: "rg_config s = Some cfg" using reg_invD(2) [OF assms(1)] by blast
  have nm: "env_name_ok e" "env_dup_ok e" using assms(2) by (simp_all add: copies_ok_def)
  define sp where "sp = \<lparr>sy_ident = (case ident of None \<Rightarrow> [] | Some i \<Rightarrow> strncpy_into 64 i), sy_facility = facility\<rparr>"
  define h where "h = async_init cfg (env_ring_ok e) (env_thread_ok e) (lmk_init_base_log_handler SYSLOG n True (Syslog_ext sp))"
  have "fresh_handler n h" "env_ring_ok e \<and> env_thread_ok e \<longrightarrow> lh_ring h \<noteq> None"
    unfolding h_def by (rule async_init_fresh, rule async_init_ring)
  then show ?thesis
    by (intro constructsI [of _ _ _ _ h "rg_files s"])
      (simp_all add: lmk_get_syslog_log_handler_def search_handler [OF assms(1)] cfg nm h_def lmk_syslog_log_handler_init_def flip: sp_def)
qed

lemma destroy_handler_effect:
  assumes inv: "reg_inv s" and h: "rg_handler s q = Some h"
  shows "if ref_count s q = 0
    then \<exists>es s'. lmk_destroy_log_handler (Some q) s = Some (LMK_E_OK, s') \<and> reg_inv s' \<and>
      s' = s\<lparr>rg_handlers := remove1 q (rg_handlers s), rg_handler := (rg_handler s)(q := None), rg_stderr := es\<rparr>
    else lmk_destroy_log_handler (Some q) s = Some (LMK_E_NG, s)"
proof (cases "ref_count s q = 0")
  case False
  then have "lh_nr_logger_ref h > 0" using nr_logger_ref_zero(1) [OF inv h] by (simp add: word_gt_0)
  then show ?thesis using False h by (simp add: lmk_destroy_log_handler_def)
next
  case True
  then have nz: "\<not> lh_nr_logger_ref h > 0" using nr_logger_ref_zero(1) [OF inv h] by simp
  note I = reg_invD [OF inv]
  define es where "es = rg_stderr s @ (if snd (handler_destroy h) = [] then [] else [snd (handler_destroy h)])"
  define s' where "s' = s\<lparr>rg_handlers := remove1 q (rg_handlers s), rg_handler := (rg_handler s)(q := None), rg_stderr := es\<rparr>"
  have run: "lmk_destroy_log_handler (Some q) s = Some (LMK_E_OK, s')"
    using h nz by (simp add: lmk_destroy_log_handler_def s'_def es_def split_beta Let_def)
  have rc: "ref_count s' x = ref_count s x" for x by (rule ref_count_frame) (simp_all add: s'_def)
  have noref: "q \<notin> set (lg_refs l)" if "rg_logger s p = Some l" for p l using True ref_count_zero [OF inv] that by blast
  have "distinct (map (\<lambda>x. lh_name (the (rg_handler s' x))) (rg_handlers s'))"
    using names_remove [of lh_name "rg_handler s" "rg_handlers s" q, OF I(13,5)] by (simp add: s'_def)
  moreover have "reg_handler_ok s' x y" if "rg_handler s' x = Some y" for x y
  proof -
    have "rg_handler s x = Some y" using that by (simp add: s'_def split: if_splits)
    from I(9) [OF this] show ?thesis by (simp add: reg_handler_ok_def rc)
  qed
  moreover have "logger_ok s' l" if "rg_logger s' p = Some l" for p l
    using that I(8) [of p l] noref [of p l] I(5) by (auto simp: s'_def logger_ok_def)
  moreover have "dom (rg_handler s') = set (rg_handlers s')" using I(5,6) by (auto simp: s'_def)
  ultimately have "reg_inv s'" using I(1-5,7,12) unfolding reg_inv_def by (simp add: s'_def)
  then show ?thesis using True run s'_def by auto
qed

lemma destroy_handler_inv:
  assumes inv: "reg_inv s" and run: "lmk_destroy_log_handler handler s = Some (rc, s')"
  shows "reg_inv s'"
proof (cases handler)
  case (Some q)
  then obtain h where "rg_handler s q = Some h" using run by (auto simp: lmk_destroy_log_handler_def split: Option.bind_splits)
  with destroy_handler_effect [OF inv this] inv run Some show ?thesis by (auto split: if_splits)
qed (use run inv in \<open>simp add: lmk_destroy_log_handler_def\<close>)

text \<open>The two loops of \<open>lmk_destroy\<close>.\<close>

lemma destroy_loggers_effect:
  assumes "reg_inv s"
  shows "\<exists>s'. destroy_loggers s = Some s' \<and> reg_inv s' \<and> rg_loggers s' = [] \<and> rg_handlers s' = rg_handlers s"
  using assms
proof (induction "rg_loggers s" arbitrary: s)
  case Nil
  then show ?case by (subst destroy_loggers.simps) (simp flip: Nil.hyps)
next
  case (Cons p ps)
  have "p \<in> set (rg_loggers s)" by (simp flip: Cons.hyps(2))
  then obtain l where "rg_logger s p = Some l" using reg_inv_live(1) [OF Cons.prems] by blast
  from destroy_logger_effect [OF Cons.prems this] obtain hs s1 where s1: "lmk_destroy_logger (Some p) s = Some (LMK_E_OK, s1)"
    "reg_inv s1" "s1 = s\<lparr>rg_handler := hs, rg_loggers := remove1 p (rg_loggers s), rg_logger := (rg_logger s)(p := None)\<rparr>" by blast
  have "ps = rg_loggers s1" using s1(3) by (simp flip: Cons.hyps(2))
  from Cons.hyps(1) [OF this s1(2)] obtain s' where "destroy_loggers s1 = Some s'" "reg_inv s'" "rg_loggers s' = []"
    "rg_handlers s' = rg_handlers s1" by blast
  then show ?case using s1 by (subst destroy_loggers.simps) (simp flip: Cons.hyps(2))
qed

lemma destroy_handlers_effect:
  assumes "reg_inv s" "rg_loggers s = []"
  shows "\<exists>s'. destroy_handlers s = Some s' \<and> reg_inv s' \<and> rg_loggers s' = [] \<and> rg_handlers s' = []"
  using assms
proof (induction "rg_handlers s" arbitrary: s)
  case Nil
  then show ?case by (subst destroy_handlers.simps) (simp flip: Nil.hyps)
next
  case (Cons q qs)
  have "q \<in> set (rg_handlers s)" by (simp flip: Cons.hyps(2))
  then obtain h where h: "rg_handler s q = Some h" using reg_inv_live(2) [OF Cons.prems(1)] by blast
  have "ref_count s q = 0" using Cons.prems(2) by (simp add: ref_count_def)
  then obtain es s1 where s1: "lmk_destroy_log_handler (Some q) s = Some (LMK_E_OK, s1)" "reg_inv s1"
    "s1 = s\<lparr>rg_handlers := remove1 q (rg_handlers s), rg_handler := (rg_handler s)(q := None), rg_stderr := es\<rparr>"
    using destroy_handler_effect [OF Cons.prems(1) h] by auto
  have "qs = rg_handlers s1" "rg_loggers s1 = []" using s1(3) Cons.prems(2) by (simp_all flip: Cons.hyps(2))
  from Cons.hyps(1) [OF this(1) s1(2) this(2)] obtain s' where "destroy_handlers s1 = Some s'" "reg_inv s'" "rg_loggers s' = []"
    "rg_handlers s' = []" by blast
  then show ?case using s1 by (subst destroy_handlers.simps) (simp flip: Cons.hyps(2))
qed

text \<open>Logging to the references of a logger.\<close>

lemma destroy_effect:
  assumes inv: "reg_inv s"
  shows "\<exists>s'. lmk_destroy s = Some s' \<and> \<not> rg_initialized s' \<and> rg_config s' = None \<and> rg_loggers s' = [] \<and> rg_handlers s' = [] \<and>
    dom (rg_logger s') = {} \<and> dom (rg_handler s') = {}"
proof -
  obtain s1 where s1: "destroy_loggers s = Some s1" "reg_inv s1" "rg_loggers s1 = []" using destroy_loggers_effect [OF inv] by blast
  obtain s2 where s2: "destroy_handlers s1 = Some s2" "reg_inv s2" "rg_loggers s2 = []" "rg_handlers s2 = []"
    using destroy_handlers_effect [OF s1(2,3)] by blast
  have "dom (rg_logger s2) = {}" "dom (rg_handler s2) = {}" using reg_invD(4,6) [OF s2(2)] s2(3,4) by simp_all
  then show ?thesis using s1(1) s2 reg_invD(1) [OF inv] by (simp add: lmk_destroy_def)
qed

lemma handler_log_impl_async: "handler_log_impl rec h = async_log_impl rec h"
  by (simp add: handler_log_impl_def lmk_console_log_handler_log_impl_def lmk_file_log_handler_log_impl_def
      lmk_socket_log_handler_log_impl_def lmk_syslog_log_handler_log_impl_def split: handler_ext.splits)

lemma async_log_impl_same:
  assumes "async_log_impl rec h = Some h'" "handler_ok h"
  shows "same_handler h h'"
proof -
  have "handler_ok h'" using async_log_impl_total [OF assms(2), of rec] assms(1) by auto
  then show ?thesis
    using assms(1) by (auto simp: async_log_impl_def same_handler_def split: if_splits option.splits)
qed

text \<open>What one reference does with a record.\<close>

definition log_step :: "lmk_log_record \<Rightarrow> lmk_log_handler \<Rightarrow> lmk_log_handler" where
  "log_step rec h = (if rec_log_level rec \<ge> lh_log_level h then the (async_log_impl rec h) else h)"

lemma log_step_same: "handler_ok h \<Longrightarrow> same_handler h (log_step rec h)"
  using async_log_impl_total [of h rec] async_log_impl_same [of rec h] by (auto simp: log_step_def)

lemma log_to_refs_effect:
  assumes "\<forall>q\<in>set qs. \<exists>h. hs q = Some h \<and> handler_ok h" "distinct qs"
  shows "log_to_refs rec qs hs = Some (\<lambda>x. if x \<in> set qs then map_option (log_step rec) (hs x) else hs x)"
  using assms
proof (induction qs arbitrary: hs)
  case Nil
  then show ?case by simp
next
  case (Cons q qs)
  obtain h where h: "hs q = Some h" "handler_ok h" using Cons.prems(1) by auto
  have step: "(if rec_log_level rec \<ge> lh_log_level h then handler_log_impl rec h else Some h) = Some (log_step rec h)"
    using async_log_impl_total [OF h(2), of rec] by (auto simp: log_step_def handler_log_impl_async)
  have "\<forall>x\<in>set qs. \<exists>y. (hs(q \<mapsto> log_step rec h)) x = Some y \<and> handler_ok y" using Cons.prems by auto
  then have "log_to_refs rec qs (hs(q \<mapsto> log_step rec h)) =
      Some (\<lambda>x. if x \<in> set qs then map_option (log_step rec) ((hs(q \<mapsto> log_step rec h)) x) else (hs(q \<mapsto> log_step rec h)) x)"
    using Cons.IH Cons.prems(2) by auto
  then show ?case using h step Cons.prems(2) by (auto simp: fun_eq_iff)
qed


lemma log_impl_effect:
  assumes inv: "reg_inv s" and l: "rg_logger s p = Some l"
  shows "lmk_log_impl (Some p) fname lno lv (Some d) n s =
    (if \<not> level_ok lv then Some (LMK_E_NG, s)
     else if lv < lg_log_level l then Some (LMK_E_OK, s)
     else Some (LMK_E_OK, s\<lparr>rg_handler := (\<lambda>q. if q \<in> set (lg_refs l)
        then map_option (log_step \<lparr>rec_log_level = lv, rec_data = d, rec_data_len = n, rec_line_no = lno, rec_file_name = fname\<rparr>) (rg_handler s q)
        else rg_handler s q)\<rparr>))"
proof -
  note I = reg_invD [OF inv]
  have ok: "lg_initialized l" "distinct (lg_refs l)" "set (lg_refs l) \<subseteq> set (rg_handlers s)" using I(8) [OF l] by (auto simp: logger_ok_def)
  have "\<forall>q\<in>set (lg_refs l). \<exists>h. rg_handler s q = Some h \<and> handler_ok h"
  proof
    fix q assume "q \<in> set (lg_refs l)"
    then obtain h where "rg_handler s q = Some h" using ok(3) reg_inv_live(2) [OF inv, of q] by blast
    then show "\<exists>h. rg_handler s q = Some h \<and> handler_ok h" using I(9) [of q h] by (simp add: reg_handler_ok_def)
  qed
  from log_to_refs_effect [OF this ok(2)] show ?thesis
    using l ok(1) by (auto simp: lmk_log_impl_def level_ok_def)
qed

lemma log_impl_inv:
  assumes inv: "reg_inv s" and l: "rg_logger s p = Some l"
    and run: "lmk_log_impl (Some p) fname lno lv (Some d) n s = Some (rc, s')"
  shows "reg_inv s'"
proof (cases "s' = s")
  case False
  let ?r = "\<lparr>rec_log_level = lv, rec_data = d, rec_data_len = n, rec_line_no = lno, rec_file_name = fname\<rparr>"
  let ?hs = "\<lambda>q. if q \<in> set (lg_refs l) then map_option (log_step ?r) (rg_handler s q) else rg_handler s q"
  have s': "s' = s\<lparr>rg_handler := ?hs\<rparr>" using False run log_impl_effect [OF inv l, of fname lno lv d n] by (auto split: if_splits)
  show ?thesis unfolding s'
  proof (rule reg_inv_handlers [OF inv])
    show "dom ?hs = dom (rg_handler s)" by (auto simp: dom_def)
    fix q h h' assume h: "rg_handler s q = Some h" "?hs q = Some h'"
    have "handler_ok h" using reg_invD(9) [OF inv h(1)] by (simp add: reg_handler_ok_def)
    then show "same_handler h h'" using h log_step_same [of h ?r] by (auto split: if_splits)
  qed
qed (use inv in simp)

section \<open>The registry as a transition system\<close>

text \<open>The setters of a handler that test the pointer for \<open>NULL\<close>, given the host's \<open>inet_pton\<close> and SHA-256.\<close>

datatype setter = Set_level int | Set_format "lmk_format_fn option" | Set_rotation int int
  | Attach_listener bool "string option" int | Set_psk "string option"

fun apply_setter :: "(string \<Rightarrow> u32 option) \<Rightarrow> (string \<Rightarrow> bytes) \<Rightarrow> setter \<Rightarrow> lmk_log_handler \<Rightarrow> lmk_log_handler" where
  "apply_setter pton sha (Set_level lv) = lmk_set_handler_log_level lv"
| "apply_setter pton sha (Set_format fn) = lmk_set_log_format fn"
| "apply_setter pton sha (Set_rotation sz k) = lmk_set_log_rotation sz k"
| "apply_setter pton sha (Attach_listener ok host port) = lmk_attach_log_listener pton ok host port"
| "apply_setter pton sha (Set_psk psk) = lmk_set_socket_psk sha psk"

text \<open>The calls a program can make after initialisation.\<close>

datatype api_call =
    Get_logger env "string option"
  | Destroy_logger "addr option"
  | Set_log_level "addr option" int
  | Attach bool "addr option" "addr option"
  | Detach "addr option" "addr option"
  | Log "char list" "addr option" string int int "string option"
  | Get_console env
  | Get_file env "string option" "string option"
  | Get_socket env "string option"
  | Get_syslog env "string option" "string option" int
  | Destroy_handler "addr option"
  | Change_handler "addr option" setter
  | Set_filename "addr option" "string option" bool

fun run_call :: "(string \<Rightarrow> u32 option) \<Rightarrow> (string \<Rightarrow> bytes) \<Rightarrow> api_call \<Rightarrow> registry \<Rightarrow> registry option" where
  "run_call pton sha (Get_logger e name) s = map_option snd (lmk_get_logger e name s)"
| "run_call pton sha (Destroy_logger p) s = map_option snd (lmk_destroy_logger p s)"
| "run_call pton sha (Set_log_level p lv) s = lmk_set_log_level p lv s"
| "run_call pton sha (Attach m p q) s = map_option snd (lmk_attach_log_handler m p q s)"
| "run_call pton sha (Detach p q) s = map_option snd (lmk_detach_log_handler p q s)"
| "run_call pton sha (Log old p fname lno lv msg) s = lmk_log_common old p fname lno lv msg s"
| "run_call pton sha (Get_console e) s = map_option snd (lmk_get_console_log_handler e s)"
| "run_call pton sha (Get_file e name filename) s = map_option snd (lmk_get_file_log_handler e name filename s)"
| "run_call pton sha (Get_socket e name) s = map_option snd (lmk_get_socket_log_handler e name s)"
| "run_call pton sha (Get_syslog e name ident facility) s = map_option snd (lmk_get_syslog_log_handler e name ident facility s)"
| "run_call pton sha (Destroy_handler q) s = map_option snd (lmk_destroy_log_handler q s)"
| "run_call pton sha (Change_handler q f) s = update_handler q (apply_setter pton sha f) s"
| "run_call pton sha (Set_filename q f ok) s = set_log_filename q f ok s"

text \<open>A pointer a program may pass: \<open>NULL\<close>, or the address of a live struct.\<close>

definition logger_ptr :: "addr option \<Rightarrow> registry \<Rightarrow> bool" where
  "logger_ptr p s \<longleftrightarrow> (\<forall>a. p = Some a \<longrightarrow> a \<in> set (rg_loggers s))"

definition handler_ptr :: "addr option \<Rightarrow> registry \<Rightarrow> bool" where
  "handler_ptr q s \<longleftrightarrow> (\<forall>a. q = Some a \<longrightarrow> a \<in> set (rg_handlers s))"

text \<open>Calls with valid pointers (for \<open>lmk_set_log_filename\<close> not \<open>NULL\<close>), in a system whose allocator returns
  unused addresses and copies the strings of a new handler, with room for one more logger below the
  range of the counters.\<close>

fun call_valid :: "api_call \<Rightarrow> registry \<Rightarrow> bool" where
  "call_valid (Get_logger e name) s \<longleftrightarrow> fresh_env e s \<and> length (rg_loggers s) + 1 < 2 ^ 32"
| "call_valid (Destroy_logger p) s \<longleftrightarrow> logger_ptr p s"
| "call_valid (Set_log_level p lv) s \<longleftrightarrow> logger_ptr p s"
| "call_valid (Attach m p q) s \<longleftrightarrow> logger_ptr p s \<and> handler_ptr q s"
| "call_valid (Detach p q) s \<longleftrightarrow> logger_ptr p s \<and> handler_ptr q s"
| "call_valid (Log old p fname lno lv msg) s \<longleftrightarrow> logger_ptr p s"
| "call_valid (Get_console e) s \<longleftrightarrow> fresh_env e s \<and> copies_ok e"
| "call_valid (Get_file e name filename) s \<longleftrightarrow> fresh_env e s \<and> copies_ok e"
| "call_valid (Get_socket e name) s \<longleftrightarrow> fresh_env e s \<and> copies_ok e"
| "call_valid (Get_syslog e name ident facility) s \<longleftrightarrow> fresh_env e s \<and> copies_ok e"
| "call_valid (Destroy_handler q) s \<longleftrightarrow> handler_ptr q s"
| "call_valid (Change_handler q f) s \<longleftrightarrow> handler_ptr q s"
| "call_valid (Set_filename q f ok) s \<longleftrightarrow> handler_ptr q s \<and> q \<noteq> None"

definition reg_step :: "(string \<Rightarrow> u32 option) \<Rightarrow> (string \<Rightarrow> bytes) \<Rightarrow> registry \<Rightarrow> api_call \<Rightarrow> registry \<Rightarrow> bool" where
  "reg_step pton sha s c s' \<longleftrightarrow> call_valid c s \<and> run_call pton sha c s = Some s'"

text \<open>The library just initialised, before the configuration file has added anything.\<close>

definition reg_init :: "registry \<Rightarrow> bool" where
  "reg_init s \<longleftrightarrow> rg_initialized s \<and> rg_config s \<noteq> None \<and> rg_loggers s = [] \<and> rg_handlers s = [] \<and>
     rg_logger s = Map.empty \<and> rg_handler s = Map.empty"

lemma setter_same: "same_handler h (apply_setter pton sha f h)"
  by (cases f) (auto simp: same_handler_def lmk_set_handler_log_level_def lmk_set_log_format_def lmk_set_log_rotation_def
      lmk_attach_log_listener_def lmk_set_socket_psk_def level_ok_def handler_ok_def
      split: option.splits handler_ext.splits)

lemma update_handler_inv:
  assumes inv: "reg_inv s" and "handler_ptr q s" "\<And>h. same_handler h (f h)"
  shows "\<exists>s'. update_handler q f s = Some s' \<and> reg_inv s'"
proof (cases q)
  case (Some a)
  then obtain h where h: "rg_handler s a = Some h" using assms(2) reg_inv_live(2) [OF inv, of a] by (auto simp: handler_ptr_def)
  have "reg_inv (s\<lparr>rg_handler := (rg_handler s)(a \<mapsto> f h)\<rparr>)"
    by (rule reg_inv_handlers [OF inv]) (use h assms(3) in \<open>auto split: if_splits\<close>)
  then show ?thesis using Some h by (simp add: update_handler_def)
qed (use inv in \<open>simp add: update_handler_def\<close>)

lemma set_log_filename_inv:
  assumes inv: "reg_inv s" and "handler_ptr q s" "q \<noteq> None"
  shows "\<exists>s'. set_log_filename q f ok s = Some s' \<and> reg_inv s'"
proof -
  have same: "same_handler h (lmk_set_log_filename f ok h)" for h
    by (auto simp: same_handler_def lmk_set_log_filename_def handler_ok_def split: option.splits handler_ext.splits)
  have "set_log_filename q f ok s = update_handler q (lmk_set_log_filename f ok) s"
    using assms(3) by (auto simp: set_log_filename_def update_handler_def)
  then show ?thesis using update_handler_inv [OF inv assms(2) same] by simp
qed

lemma log_common_inv:
  assumes inv: "reg_inv s" and "logger_ptr p s"
  shows "\<exists>s'. lmk_log_common old p fname lno lv msg s = Some s' \<and> reg_inv s'"
proof (cases p)
  case (Some a)
  then obtain l where l: "rg_logger s a = Some l" using assms(2) reg_inv_live(1) [OF inv, of a] by (auto simp: logger_ptr_def)
  have "\<exists>s'. (\<exists>rc. lmk_log_impl (Some a) fname lno lv (Some d) n s = Some (rc, s')) \<and> reg_inv s'" for d n
    using log_impl_inv [OF inv l, of fname lno lv d n] log_impl_effect [OF inv l, of fname lno lv d n] by (auto split: if_splits)
  then show ?thesis using Some l inv by (auto simp: lmk_log_common_def Let_def split_beta)
qed (use inv in \<open>simp add: lmk_log_common_def\<close>)

lemma constructs_safe:
  assumes "reg_inv s" "fresh_env e s" "constructs e n s res"
  shows "\<exists>s'. map_option snd res = Some s' \<and> reg_inv s'"
proof -
  obtain r s' where "res = Some (r, s')"
    using assms(3) by (cases res) (auto simp: constructs_def split: option.splits)
  with constructs_inv [OF assms(1,2)] assms(3) show ?thesis by auto
qed


lemma destroy_logger_safe:
  assumes inv: "reg_inv s" and "logger_ptr p s"
  shows "\<exists>s'. map_option snd (lmk_destroy_logger p s) = Some s' \<and> reg_inv s'"
proof (cases p)
  case (Some a)
  then obtain l where "rg_logger s a = Some l" using assms(2) reg_inv_live(1) [OF inv, of a] by (auto simp: logger_ptr_def)
  from destroy_logger_effect [OF inv this] show ?thesis using Some by auto
qed (use inv in \<open>simp add: lmk_destroy_logger_def\<close>)

lemma destroy_handler_safe:
  assumes inv: "reg_inv s" and "handler_ptr q s"
  shows "\<exists>s'. map_option snd (lmk_destroy_log_handler q s) = Some s' \<and> reg_inv s'"
proof (cases q)
  case (Some a)
  then obtain h where "rg_handler s a = Some h" using assms(2) reg_inv_live(2) [OF inv, of a] by (auto simp: handler_ptr_def)
  from destroy_handler_effect [OF inv this] show ?thesis using Some inv by (auto split: if_splits)
qed (use inv in \<open>simp add: lmk_destroy_log_handler_def\<close>)

lemma attach_detach_return:
  assumes inv: "reg_inv s" and "logger_ptr p s" "handler_ptr q s"
  shows "\<exists>rc s'. lmk_attach_log_handler m p q s = Some (rc, s')" "\<exists>rc s'. lmk_detach_log_handler p q s = Some (rc, s')"
proof -
  have live: "\<exists>l h. rg_logger s a = Some l \<and> rg_handler s b = Some h" if "p = Some a" "q = Some b" for a b
    using that assms(2,3) reg_inv_live [OF inv] by (simp add: logger_ptr_def handler_ptr_def)
  then show "\<exists>rc s'. lmk_attach_log_handler m p q s = Some (rc, s')"
    by (cases p; cases q) (fastforce simp: lmk_attach_log_handler_def)+
  show "\<exists>rc s'. lmk_detach_log_handler p q s = Some (rc, s')"
    using live by (cases p; cases q) (fastforce simp: lmk_detach_log_handler_def)+
qed

lemma set_log_level_safe:
  assumes inv: "reg_inv s" and "logger_ptr p s"
  shows "\<exists>s'. lmk_set_log_level p lv s = Some s' \<and> reg_inv s'"
proof -
  have "\<exists>s'. lmk_set_log_level p lv s = Some s'"
    using assms(2) reg_inv_live(1) [OF inv] by (fastforce simp: lmk_set_log_level_def logger_ptr_def split: option.splits)
  with set_log_level_inv [OF inv] show ?thesis by auto
qed

lemma get_logger_safe:
  assumes inv: "reg_inv s" and "fresh_env e s" "length (rg_loggers s) + 1 < 2 ^ 32"
  shows "\<exists>s'. map_option snd (lmk_get_logger e name s) = Some s' \<and> reg_inv s'"
proof -
  obtain r s' where run: "lmk_get_logger e name s = Some (r, s')" "length (rg_loggers s') \<le> length (rg_loggers s) + 1"
    using inv by (cases rule: get_logger_cases [of s name e]) auto
  moreover have "reg_inv s'" by (rule get_logger_inv [OF inv _ run(1)]) (use assms(2,3) run(2) in auto)
  ultimately show ?thesis by simp
qed

lemma get_handler_safe:
  assumes inv: "reg_inv s" and e: "fresh_env e s" "copies_ok e"
  shows "\<exists>s'. map_option snd (lmk_get_console_log_handler e s) = Some s' \<and> reg_inv s'"
    "\<exists>s'. map_option snd (lmk_get_file_log_handler e name filename s) = Some s' \<and> reg_inv s'"
    "\<exists>s'. map_option snd (lmk_get_socket_log_handler e name s) = Some s' \<and> reg_inv s'"
    "\<exists>s'. map_option snd (lmk_get_syslog_log_handler e name ident facility s) = Some s' \<and> reg_inv s'"
proof -
  note safe = constructs_safe [OF inv e(1)]
  show "\<exists>s'. map_option snd (lmk_get_console_log_handler e s) = Some s' \<and> reg_inv s'"
    by (rule safe [OF get_console_constructs [OF inv e(2)]])
  show "\<exists>s'. map_option snd (lmk_get_file_log_handler e name filename s) = Some s' \<and> reg_inv s'"
    using safe [OF get_file_constructs [OF inv e(2)]] inv by (cases name; cases filename) (simp_all add: lmk_get_file_log_handler_def)
  show "\<exists>s'. map_option snd (lmk_get_socket_log_handler e name s) = Some s' \<and> reg_inv s'"
    using safe [OF get_socket_constructs [OF inv e(2)]] inv by (cases name) (simp_all add: lmk_get_socket_log_handler_def)
  show "\<exists>s'. map_option snd (lmk_get_syslog_log_handler e name ident facility s) = Some s' \<and> reg_inv s'"
    using safe [OF get_syslog_constructs [OF inv e(2)]] inv by (cases name) (simp_all add: lmk_get_syslog_log_handler_def)
qed

text \<open>Every valid call returns, without undefined behaviour, and keeps the invariant.\<close>

lemma call_safe:
  assumes inv: "reg_inv s" and valid: "call_valid c s"
  shows "\<exists>s'. run_call pton sha c s = Some s' \<and> reg_inv s'"
proof (cases c)
  case (Attach m p q)
  then show ?thesis using valid attach_detach_return(1) [OF inv, of p q m] attach_inv [OF inv, of m p q] by auto
next
  case (Detach p q)
  then show ?thesis using valid attach_detach_return(2) [OF inv, of p q] detach_inv [OF inv, of p q] by auto
next
  case (Change_handler q f)
  then show ?thesis using update_handler_inv [OF inv _ setter_same] valid by simp
qed (use inv valid get_logger_safe destroy_logger_safe set_log_level_safe set_log_filename_inv log_common_inv get_handler_safe destroy_handler_safe in auto)

lemma reg_init_inv: "reg_init s \<Longrightarrow> reg_inv s"
  by (auto simp: reg_init_def reg_inv_def)

lemma reg_step_inv: "reg_inv s \<Longrightarrow> reg_step pton sha s c s' \<Longrightarrow> reg_inv s'"
  using call_safe [of s c pton sha] by (auto simp: reg_step_def)

interpretation reg: transition_system reg_init "reg_step pton sha" reg_inv for pton sha
  by unfold_locales (auto intro: reg_init_inv reg_step_inv)


section \<open>A small registry\<close>

text \<open>One logger, at address 10, attached to the console handler at address 20.\<close>

definition sample_logger :: lmk_logger where
  "sample_logger = (lmk_init_logger ''app'')\<lparr>lg_refs := [20]\<rparr>"

definition sample_registry :: registry where
  "sample_registry = \<lparr>rg_initialized = True, rg_config = Some \<lparr>cfg_log_buffer_size = 2048, cfg_ring_buffer_size = 2\<rparr>,
     rg_loggers = [10], rg_handlers = [20], rg_logger = [10 \<mapsto> sample_logger],
     rg_handler = [20 \<mapsto> sample_handler\<lparr>lh_initialized := True, lh_nr_logger_ref := 1\<rparr>], rg_files = Map.empty, rg_stderr = []\<rparr>"

definition empty_registry :: registry where
  "empty_registry = \<lparr>rg_initialized = True, rg_config = Some \<lparr>cfg_log_buffer_size = 2048, cfg_ring_buffer_size = 2\<rparr>,
     rg_loggers = [], rg_handlers = [], rg_logger = Map.empty, rg_handler = Map.empty, rg_files = Map.empty, rg_stderr = []\<rparr>"

definition sample_env :: "addr \<Rightarrow> env" where
  "sample_env p = \<lparr>env_ptr = Some p, env_name_ok = True, env_ring_ok = True, env_thread_ok = True, env_dup_ok = True,
     env_ctx_ok = True, env_can_open = (\<lambda>_. True), env_socket_fd = 3\<rparr>"

lemma regreach: "reachable reg_init (reg_step pton sha) s \<Longrightarrow> reg_step pton sha s c t \<Longrightarrow> reachable reg_init (reg_step pton sha) t"
  by (rule reach_step)

lemma sample_handler_ring: "lh_ring sample_handler \<noteq> None"
  by (simp add: sample_handler_def async_init_def)

lemma sample_registry_reachable: "reachable reg_init (reg_step pton sha) sample_registry"
proof -
  let ?e = "empty_registry"
  let ?h = "sample_handler\<lparr>lh_initialized := True\<rparr>"
  define s1 where "s1 = ?e\<lparr>rg_loggers := [10], rg_logger := [10 \<mapsto> lmk_init_logger ''app'']\<rparr>"
  define s2 where "s2 = s1\<lparr>rg_handlers := [20], rg_handler := [20 \<mapsto> ?h]\<rparr>"
  have 0: "reachable reg_init (reg_step pton sha) ?e"
    by (rule reach_init) (simp add: reg_init_def empty_registry_def)
  have "reg_step pton sha ?e (Get_logger (sample_env 10) (Some ''app'')) s1"
    by (simp add: reg_step_def fresh_env_def sample_env_def lmk_get_logger_def lmk_search_logger_by_name_def s1_def empty_registry_def)
  from regreach [OF 0 this] have 1: "reachable reg_init (reg_step pton sha) s1" .
  have h: "lmk_console_log_handler_init \<lparr>cfg_log_buffer_size = 2048, cfg_ring_buffer_size = 2\<rparr> True True
      (lmk_init_base_log_handler CONSOLE ''console'' True Console_ext) = sample_handler"
    by (simp add: lmk_console_log_handler_init_def sample_handler_def async_init_def ring_size_of_def)
  have "reg_step pton sha s1 (Get_console (sample_env 20)) s2"
    using sample_handler_ring
    by (simp add: reg_step_def fresh_env_def copies_ok_def sample_env_def lmk_get_console_log_handler_def lmk_search_log_handler_by_name_def
        s2_def s1_def empty_registry_def h publish_handler_def)
  from regreach [OF 1 this] have 2: "reachable reg_init (reg_step pton sha) s2" .
  have "lh_nr_logger_ref sample_handler = 0" by (simp add: sample_handler_def async_init_def lmk_init_base_log_handler_def)
  then have "reg_step pton sha s2 (Attach True (Some 10) (Some 20)) sample_registry"
    by (simp add: reg_step_def logger_ptr_def handler_ptr_def lmk_attach_log_handler_def s2_def s1_def empty_registry_def
        sample_registry_def sample_logger_def lmk_init_logger_def)
  from regreach [OF 2 this] show ?thesis .
qed

section \<open>Properties\<close>

text \<open>
  C28. Handlers outlive their references: the reference count of a live handler is the number of
  loggers it is attached to, and \<open>lmk_destroy_log_handler\<close> refuses, changing nothing, exactly when
  that number is not zero; otherwise the handler is gone from the registry and nothing else is.
\<close>

theorem destroy_handler_respects_references:
  assumes "reachable reg_init (reg_step pton sha) s" "rg_handler s q = Some h"
  shows "unat (lh_nr_logger_ref h) = card {p. \<exists>l. rg_logger s p = Some l \<and> q \<in> set (lg_refs l)} \<and>
    (\<exists>s'. if \<exists>p l. rg_logger s p = Some l \<and> q \<in> set (lg_refs l)
      then lmk_destroy_log_handler (Some q) s = Some (LMK_E_NG, s') \<and> s' = s
      else lmk_destroy_log_handler (Some q) s = Some (LMK_E_OK, s') \<and> rg_handlers s' = remove1 q (rg_handlers s) \<and>
        rg_handler s' = (rg_handler s)(q := None) \<and> rg_logger s' = rg_logger s \<and> rg_loggers s' = rg_loggers s)"
proof -
  have inv: "reg_inv s" by (rule reg.reachable_inv [OF assms(1)])
  note I = reg_invD [OF inv]
  have "{p. \<exists>l. rg_logger s p = Some l \<and> q \<in> set (lg_refs l)} =
      set (filter (\<lambda>p. \<exists>l. rg_logger s p = Some l \<and> q \<in> set (lg_refs l)) (rg_loggers s))" using I(10) by auto
  then have "card {p. \<exists>l. rg_logger s p = Some l \<and> q \<in> set (lg_refs l)} = ref_count s q"
    using I(3) unfolding ref_count_def by (simp only: distinct_card distinct_filter)
  then show ?thesis
    using nr_logger_ref_zero(2) [OF inv assms(2)] destroy_handler_effect [OF inv assms(2)] ref_count_zero [OF inv, of q]
    by (auto split: if_splits)
qed

theorem destroy_handler_respects_references_witness:
  "\<exists>h s'. rg_handler sample_registry 20 = Some h \<and> lmk_destroy_log_handler (Some 20) sample_registry = Some (LMK_E_NG, s') \<and>
    s' = sample_registry"
proof -
  have h: "rg_handler sample_registry 20 = Some (sample_handler\<lparr>lh_initialized := True, lh_nr_logger_ref := 1\<rparr>)"
    by (simp add: sample_registry_def)
  have "\<exists>p l. rg_logger sample_registry p = Some l \<and> 20 \<in> set (lg_refs l)"
    by (intro exI [of _ 10] exI [of _ sample_logger]) (simp add: sample_registry_def sample_logger_def)
  with destroy_handler_respects_references [OF sample_registry_reachable [of "\<lambda>_. None" "\<lambda>_. []"] h] h show ?thesis by auto
qed

text \<open>
  C29. \<open>lmk_get_logger\<close> is a lookup that creates on demand: it returns the logger that has the name,
  and asking again returns the same one and changes nothing; a logger it creates has level INFO
  and no handlers, and no existing logger or handler is touched.
\<close>

theorem get_logger_find_or_create:
  assumes "reachable reg_init (reg_step pton sha) s" "fresh_env e s" "length (rg_loggers s) + 1 < 2 ^ 32"
    and "lmk_get_logger e (Some n) s = Some (Some p, s')"
  shows "lg_name (the (rg_logger s' p)) = n \<and> p \<in> set (rg_loggers s') \<and>
    lmk_get_logger e' (Some n) s' = Some (Some p, s') \<and>
    (if p \<in> set (rg_loggers s) then s' = s
     else rg_logger s' = (rg_logger s)(p \<mapsto> \<lparr>lg_name = n, lg_log_level = LMK_LOG_LEVEL_INFO, lg_refs = [], lg_initialized = True\<rparr>) \<and>
       rg_handler s' = rg_handler s)"
proof -
  have inv: "reg_inv s" by (rule reg.reachable_inv [OF assms(1)])
  have len: "length (rg_loggers s') < 2 ^ 32"
    using inv by (cases rule: get_logger_cases [of s "Some n" e]) (use assms(3,4) in auto)
  have inv': "reg_inv s'" by (rule get_logger_inv [OF inv assms(2,4) len])
  have res: "lg_name (the (rg_logger s' p)) = n \<and> p \<in> set (rg_loggers s') \<and>
    (if p \<in> set (rg_loggers s) then s' = s
     else rg_logger s' = (rg_logger s)(p \<mapsto> lmk_init_logger n) \<and> rg_handler s' = rg_handler s)"
    using inv
  proof (cases rule: get_logger_cases [of s "Some n" e])
    case (new m x)
    then have "x \<notin> set (rg_loggers s)" using assms(2) by (auto simp: fresh_env_def)
    then show ?thesis using new(1,5) assms(4) by (auto simp: lmk_init_logger_def)
  qed (use assms(4) in auto)
  have "lmk_get_logger e' (Some n) s' = Some (Some p, s')"
    using inv'
  proof (cases rule: get_logger_cases [of s' "Some n" e'])
    case (found m x)
    then have "lg_name (the (rg_logger s' x)) = lg_name (the (rg_logger s' p))" using res by simp
    then have "x = p" using reg_invD(12) [OF inv'] res found(2) by (auto simp: distinct_map inj_on_def)
    then show ?thesis using found by simp
  next
    case (nomem m)
    then show ?thesis using res inv' search_logger [OF inv', of n]
      by (auto simp: lmk_get_logger_def split: option.splits if_splits dest: find_NoneD)
  qed (use res in auto)
  then show ?thesis using res by (auto simp: lmk_init_logger_def)
qed

theorem get_logger_find_or_create_witness:
  "\<exists>s'. lmk_get_logger (sample_env 11) (Some ''db'') sample_registry = Some (Some 11, s') \<and>
    lmk_get_logger (sample_env 12) (Some ''db'') s' = Some (Some 11, s')"
proof -
  have run: "\<exists>s'. lmk_get_logger (sample_env 11) (Some ''db'') sample_registry = Some (Some 11, s')"
    by (simp add: lmk_get_logger_def lmk_search_logger_by_name_def sample_registry_def sample_env_def sample_logger_def lmk_init_logger_def)
  then obtain s' where s': "lmk_get_logger (sample_env 11) (Some ''db'') sample_registry = Some (Some 11, s')" by blast
  have "fresh_env (sample_env 11) sample_registry" "length (rg_loggers sample_registry) + 1 < 2 ^ 32"
    by (simp_all add: fresh_env_def sample_env_def sample_registry_def)
  from get_logger_find_or_create [OF sample_registry_reachable [of "\<lambda>_. None" "\<lambda>_. []"] this s', of "sample_env 12"] s'
  show ?thesis by blast
qed


text \<open>
  C30. Shutdown of the registry: from every reachable state \<open>lmk_destroy\<close> returns, having destroyed
  every logger and every handler (no handler is still referenced when its turn comes, so the loop
  over the handlers cannot spin), freed the configuration and marked the library uninitialised.
\<close>

theorem lmk_destroy_clears_registry:
  assumes "reachable reg_init (reg_step pton sha) s"
  shows "\<exists>s'. lmk_destroy s = Some s' \<and> \<not> rg_initialized s' \<and> rg_config s' = None \<and> rg_loggers s' = [] \<and> rg_handlers s' = [] \<and>
    dom (rg_logger s') = {} \<and> dom (rg_handler s') = {}"
  by (rule destroy_effect [OF reg.reachable_inv [OF assms]])

theorem lmk_destroy_clears_registry_witness:
  "\<exists>s'. lmk_destroy sample_registry = Some s' \<and> \<not> rg_initialized s' \<and> rg_handlers s' = []"
  using lmk_destroy_clears_registry [OF sample_registry_reachable [of "\<lambda>_. None" "\<lambda>_. []"]] by blast

text \<open>
  C31. A log call reaches exactly the handlers it should: with a live logger and a message, every
  handler attached to the logger whose own level admits the message has its \<open>log_impl\<close> run once on
  the record (the message cut to 2047 characters), provided the logger's level admits it; every
  other handler, and the rest of the registry, is unchanged. A logger set to OFF logs nothing.
\<close>

theorem log_reaches_attached_handlers:
  assumes "reachable reg_init (reg_step pton sha) s" "rg_logger s p = Some l" "level_ok lv"
  shows "\<exists>hs. lmk_log_common old (Some p) fname lno lv (Some msg) s = Some (s\<lparr>rg_handler := hs\<rparr>) \<and> dom hs = dom (rg_handler s) \<and>
    (\<forall>q h. rg_handler s q = Some h \<longrightarrow>
      (if lg_log_level l \<le> lv \<and> q \<in> set (lg_refs l) \<and> lh_log_level h \<le> lv
       then handler_log_impl \<lparr>rec_log_level = lv, rec_data = take (LMK_LOG_MSG_MAX_SIZE - 1) msg @ [NUL],
              rec_data_len = min (length msg) (LMK_LOG_MSG_MAX_SIZE - 1), rec_line_no = lno, rec_file_name = fname\<rparr> h = hs q
       else hs q = Some h)) \<and>
    (lg_log_level l = LMK_LOG_LEVEL_OFF \<and> lv \<le> LMK_LOG_LEVEL_ERROR \<longrightarrow> hs = rg_handler s)"
proof -
  have inv: "reg_inv s" by (rule reg.reachable_inv [OF assms(1)])
  let ?d = "take (LMK_LOG_MSG_MAX_SIZE - 1) msg @ [NUL]" and ?n = "min (length msg) (LMK_LOG_MSG_MAX_SIZE - 1)"
  let ?r = "\<lparr>rec_log_level = lv, rec_data = ?d, rec_data_len = ?n, rec_line_no = lno, rec_file_name = fname\<rparr>"
  define hs where "hs = (if lv < lg_log_level l then rg_handler s
    else (\<lambda>q. if q \<in> set (lg_refs l) then map_option (log_step ?r) (rg_handler s q) else rg_handler s q))"
  have n: "nat (if int (length msg) \<ge> int LMK_LOG_MSG_MAX_SIZE then int LMK_LOG_MSG_MAX_SIZE - 1 else int (length msg)) = ?n"
    by (simp add: LMK_LOG_MSG_MAX_SIZE_def min_def)
  have "lmk_log_common old (Some p) fname lno lv (Some msg) s =
      (if lv < lg_log_level l then Some s else map_option snd (lmk_log_impl (Some p) fname lno lv (Some ?d) ?n s))"
    using assms(2) n by (simp add: lmk_log_common_def snprintf_def Let_def LMK_LOG_MSG_MAX_SIZE_def)
  then have run: "lmk_log_common old (Some p) fname lno lv (Some msg) s = Some (s\<lparr>rg_handler := hs\<rparr>)"
    using assms(3) by (simp add: hs_def log_impl_effect [OF inv assms(2)] del: One_nat_def)
  have d: "dom hs = dom (rg_handler s)" by (auto simp: hs_def dom_def)
  have step: "handler_log_impl ?r h = Some (log_step ?r h)" if "rg_handler s q = Some h" "lh_log_level h \<le> lv" for q h
  proof -
    have "handler_ok h" using reg_invD(9) [OF inv that(1)] by (simp add: reg_handler_ok_def)
    from async_log_impl_total [OF this, of ?r] that(2) show ?thesis by (auto simp: log_step_def handler_log_impl_async)
  qed
  have "if lg_log_level l \<le> lv \<and> q \<in> set (lg_refs l) \<and> lh_log_level h \<le> lv then handler_log_impl ?r h = hs q else hs q = Some h"
    if "rg_handler s q = Some h" for q h
    using step [OF that] that by (auto simp: hs_def log_step_def)
  moreover have "lg_log_level l = LMK_LOG_LEVEL_OFF \<and> lv \<le> LMK_LOG_LEVEL_ERROR \<longrightarrow> hs = rg_handler s"
    by (simp add: hs_def level_defs)
  ultimately show ?thesis using run d by blast
qed

theorem log_reaches_attached_handlers_witness:
  "\<exists>hs h. lmk_log_common [] (Some 10) ''app.c'' 7 4 (Some ''disk full'') sample_registry = Some (sample_registry\<lparr>rg_handler := hs\<rparr>) \<and>
    rg_handler sample_registry 20 = Some h \<and>
    hs 20 = handler_log_impl \<lparr>rec_log_level = 4, rec_data = ''disk full'' @ [NUL], rec_data_len = length ''disk full'', rec_line_no = 7,
       rec_file_name = ''app.c''\<rparr> h"
proof -
  let ?h = "sample_handler\<lparr>lh_initialized := True, lh_nr_logger_ref := 1\<rparr>"
  have l: "rg_logger sample_registry 10 = Some sample_logger" "level_ok 4" and h: "rg_handler sample_registry 20 = Some ?h"
    by (simp_all add: sample_registry_def level_ok_def level_defs)
  have lv: "lg_log_level sample_logger \<le> 4" "20 \<in> set (lg_refs sample_logger)" "lh_log_level ?h \<le> 4"
    by (simp_all add: sample_logger_def lmk_init_logger_def level_defs sample_handler_def async_init_def lmk_init_base_log_handler_def)
  from log_reaches_attached_handlers [OF sample_registry_reachable [of "\<lambda>_. None" "\<lambda>_. []"] l, of "[]" "''app.c''" 7 "''disk full''"]
  obtain hs where hs: "lmk_log_common [] (Some 10) ''app.c'' 7 4 (Some ''disk full'') sample_registry = Some (sample_registry\<lparr>rg_handler := hs\<rparr>)"
    "\<forall>q h. rg_handler sample_registry q = Some h \<longrightarrow>
      (if lg_log_level sample_logger \<le> 4 \<and> q \<in> set (lg_refs sample_logger) \<and> lh_log_level h \<le> 4
       then handler_log_impl \<lparr>rec_log_level = 4, rec_data = take (LMK_LOG_MSG_MAX_SIZE - 1) ''disk full'' @ [NUL],
              rec_data_len = min (length ''disk full'') (LMK_LOG_MSG_MAX_SIZE - 1), rec_line_no = 7, rec_file_name = ''app.c''\<rparr> h = hs q
       else hs q = Some h)" by blast
  have "hs 20 = handler_log_impl \<lparr>rec_log_level = 4, rec_data = ''disk full'' @ [NUL], rec_data_len = length ''disk full'', rec_line_no = 7,
       rec_file_name = ''app.c''\<rparr> ?h"
    using hs(2) [rule_format, OF h] lv by (simp add: LMK_LOG_MSG_MAX_SIZE_def)
  then show ?thesis using hs(1) h by blast
qed

text \<open>
  C32. Attaching and detaching are inverse: attaching a live handler that is not yet attached makes
  it a reference of the logger and counts it; detaching it then restores the registry exactly.
  Attaching it twice is the same as attaching it once.
\<close>

theorem attach_detach_inverse:
  assumes "reachable reg_init (reg_step pton sha) s" "rg_logger s p = Some l" "rg_handler s q = Some h" "q \<notin> set (lg_refs l)"
  shows "\<exists>s'. lmk_attach_log_handler True (Some p) (Some q) s = Some (LMK_E_OK, s') \<and>
    lmk_is_log_handler_attached p q s' = Some True \<and>
    lmk_attach_log_handler m (Some p) (Some q) s' = Some (LMK_E_OK, s') \<and>
    lmk_detach_log_handler (Some p) (Some q) s' = Some (LMK_E_OK, s)"
proof -
  have inv: "reg_inv s" by (rule reg.reachable_inv [OF assms(1)])
  have ini: "lh_initialized h" using reg_invD(9) [OF inv assms(3)] by (simp add: reg_handler_ok_def)
  let ?s = "s\<lparr>rg_logger := (rg_logger s)(p \<mapsto> l\<lparr>lg_refs := lg_refs l @ [q]\<rparr>),
    rg_handler := (rg_handler s)(q \<mapsto> h\<lparr>lh_nr_logger_ref := lh_nr_logger_ref h + 1\<rparr>)\<rparr>"
  have "(rg_logger s)(p \<mapsto> l) = rg_logger s" "(rg_handler s)(q \<mapsto> h) = rg_handler s" using assms(2,3) by auto
  then have "lmk_detach_log_handler (Some p) (Some q) ?s = Some (LMK_E_OK, s)"
    using assms(4) by (simp add: lmk_detach_log_handler_def remove1_append)
  then show ?thesis using assms(2-4) ini
    by (intro exI [of _ ?s]) (simp add: lmk_attach_log_handler_def lmk_is_log_handler_attached_def)
qed

definition detached_registry :: registry where
  "detached_registry = sample_registry\<lparr>rg_logger := [10 \<mapsto> lmk_init_logger ''app''],
     rg_handler := [20 \<mapsto> sample_handler\<lparr>lh_initialized := True\<rparr>]\<rparr>"

lemma detached_registry_reachable: "reachable reg_init (reg_step pton sha) detached_registry"
proof -
  have "lh_nr_logger_ref sample_handler = 0" by (simp add: sample_handler_def async_init_def lmk_init_base_log_handler_def)
  then have "(sample_handler\<lparr>lh_initialized := True, lh_nr_logger_ref := 0\<rparr>) = sample_handler\<lparr>lh_initialized := True\<rparr>" by simp
  then have "reg_step pton sha sample_registry (Detach (Some 10) (Some 20)) detached_registry"
    by (simp add: reg_step_def logger_ptr_def handler_ptr_def lmk_detach_log_handler_def detached_registry_def
        sample_registry_def sample_logger_def lmk_init_logger_def)
  from regreach [OF sample_registry_reachable this] show ?thesis .
qed

theorem attach_detach_inverse_witness:
  "\<exists>s'. lmk_attach_log_handler True (Some 10) (Some 20) detached_registry = Some (LMK_E_OK, s') \<and>
    lmk_detach_log_handler (Some 10) (Some 20) s' = Some (LMK_E_OK, detached_registry)"
proof -
  have "rg_logger detached_registry 10 = Some (lmk_init_logger ''app'')"
    "rg_handler detached_registry 20 = Some (sample_handler\<lparr>lh_initialized := True\<rparr>)" "20 \<notin> set (lg_refs (lmk_init_logger ''app''))"
    by (simp_all add: detached_registry_def lmk_init_logger_def)
  from attach_detach_inverse [OF detached_registry_reachable [of "\<lambda>_. None" "\<lambda>_. []"] this] show ?thesis by blast
qed

end
