(* ===== verification/Dump.thy ===== *)
theory Dump
  imports Registry_Invariant
begin

text \<open>
  \<open>lmk_dump_loggers\<close> (\<open>logmoko.c\<close>): the lines it prints, handlers first and then loggers with the
  handlers attached to them. \<open>ntop\<close> is \<open>inet_ntop\<close> on an IPv4 address. \<open>None\<close> is undefined behaviour
  (a dangling handler, a \<open>NULL\<close> name).
\<close>

definition LEVEL_1_SEPARATOR :: string where "LEVEL_1_SEPARATOR = replicate 4 (CHR '' '')"
definition LEVEL_2_SEPARATOR :: string where "LEVEL_2_SEPARATOR = replicate 8 (CHR '' '')"
definition LEVEL_3_SEPARATOR :: string where "LEVEL_3_SEPARATOR = replicate 12 (CHR '' '')"

definition dump_handler :: "(u32 \<Rightarrow> string) \<Rightarrow> lmk_log_handler \<Rightarrow> string list option" where
  "dump_handler ntop h = do {
     name \<leftarrow> lh_name h;
     Some ((LEVEL_2_SEPARATOR @ ''+-handler[name = '' @ name @ '', type = '' @
         lmk_get_log_handler_type_str (handler_type_code (lh_type h)) @ '', level = '' @ lmk_get_log_level_str (lh_log_level h) @
         '', logger-refs = '' @ dec_nat (unat (lh_nr_logger_ref h)) @ '']'') #
       (case lh_ext h of
          File_ext p \<Rightarrow> [LEVEL_3_SEPARATOR @ ''+-filename = '' @ (case fp_filename p of Some f \<Rightarrow> f | None \<Rightarrow> ''(none)'')]
        | Socket_ext p \<Rightarrow> map (\<lambda>(ip, port). LEVEL_3_SEPARATOR @ ''+-listener = '' @ ntop ip @ '':'' @ dec_nat (unat port)) (sk_log_servers p)
        | _ \<Rightarrow> [])) }"

definition dump_reference :: "registry \<Rightarrow> addr \<Rightarrow> string list option" where
  "dump_reference s q = do {
     h \<leftarrow> rg_handler s q;
     name \<leftarrow> lh_name h;
     Some [LEVEL_3_SEPARATOR @ ''+-attached handler[name = '' @ name @ '']''] }"

fun dump_each :: "(addr \<Rightarrow> string list option) \<Rightarrow> addr list \<Rightarrow> string list option" where
  "dump_each f [] = Some []"
| "dump_each f (p # ps) = do { ls \<leftarrow> f p; rest \<leftarrow> dump_each f ps; Some (ls @ rest) }"

definition dump_logger :: "registry \<Rightarrow> lmk_logger \<Rightarrow> string list option" where
  "dump_logger s l = do {
     refs \<leftarrow> dump_each (dump_reference s) (lg_refs l);
     Some ((LEVEL_2_SEPARATOR @ ''+-logger[name = '' @ lg_name l @ '', level = '' @ lmk_get_log_level_str (lg_log_level l) @ '']'') # refs) }"

definition lmk_dump_loggers :: "(u32 \<Rightarrow> string) \<Rightarrow> registry \<Rightarrow> string list option" where
  "lmk_dump_loggers ntop s =
     (if \<not> rg_initialized s then Some []
      else do {
        handlers \<leftarrow> (if rg_handlers s \<noteq> []
          then do {
            ls \<leftarrow> dump_each (\<lambda>q. do { h \<leftarrow> rg_handler s q; dump_handler ntop h }) (rg_handlers s);
            Some ((LEVEL_1_SEPARATOR @ ''+-[Log Handlers]'') # ls) }
          else Some []);
        loggers \<leftarrow> (if rg_loggers s \<noteq> []
          then do {
            ls \<leftarrow> dump_each (\<lambda>p. do { l \<leftarrow> rg_logger s p; dump_logger s l }) (rg_loggers s);
            Some ((LEVEL_1_SEPARATOR @ ''+-[Loggers]'') # ls) }
          else Some []);
        Some ([''[Logmoko Dump Begin]''] @ handlers @ loggers @ [''[Logmoko Dump End]'']) })"

section \<open>Lemmas\<close>

lemma dump_each_total: "(\<And>p. p \<in> set ps \<Longrightarrow> \<exists>ls. f p = Some ls) \<Longrightarrow> \<exists>ls. dump_each f ps = Some ls"
proof (induction ps)
  case (Cons p ps)
  obtain a where "f p = Some a" using Cons.prems [of p] by auto
  moreover obtain b where "dump_each f ps = Some b" using Cons by auto
  ultimately show ?case by simp
qed simp

text \<open>A registry that satisfies its invariant can always be printed.\<close>

lemma dump_total:
  assumes inv: "reg_inv s"
  shows "\<exists>ls. lmk_dump_loggers ntop s = Some ls"
proof -
  have h: "\<exists>h. rg_handler s q = Some h \<and> lh_name h \<noteq> None" if "q \<in> set (rg_handlers s)" for q
    using reg_inv_live(2) [OF inv that] reg_invD(9) [OF inv] by (auto simp: reg_handler_ok_def)
  then have "\<exists>ls. dump_each (\<lambda>q. do { h \<leftarrow> rg_handler s q; dump_handler ntop h }) (rg_handlers s) = Some ls"
    by (intro dump_each_total) (fastforce simp: dump_handler_def)
  moreover have "\<exists>ls. do { l \<leftarrow> rg_logger s p; dump_logger s l } = Some ls" if p: "p \<in> set (rg_loggers s)" for p
  proof -
    obtain l where l: "rg_logger s p = Some l" using reg_inv_live(1) [OF inv p] by blast
    then have "set (lg_refs l) \<subseteq> set (rg_handlers s)" using reg_invD(8) [OF inv] by (simp add: logger_ok_def)
    then have "\<exists>ls. dump_each (dump_reference s) (lg_refs l) = Some ls"
      using h by (intro dump_each_total) (fastforce simp: dump_reference_def)
    then show ?thesis using l by (auto simp: dump_logger_def)
  qed
  then have "\<exists>ls. dump_each (\<lambda>p. do { l \<leftarrow> rg_logger s p; dump_logger s l }) (rg_loggers s) = Some ls"
    by (rule dump_each_total)
  ultimately show ?thesis by (auto simp: lmk_dump_loggers_def)
qed

end
