(* ===== verification/Config_Parser.thy ===== *)
theory Config_Parser
  imports Format
begin

text \<open>
  The parser of configuration files (\<open>logmoko_config_file.c\<close>, first half): the structs it fills,
  trimming, levels, reading lines into a buffer of \<open>LMK_CFG_LINE_MAX\<close> bytes, section headers and
  keys. A fixed array of \<open>char\<close> is the string it holds, an array with its counter is a list, and the
  pointers \<open>cur_handler\<close> and \<open>cur_logger\<close> are indices into the two lists (\<open>None\<close> for \<open>NULL\<close>).
\<close>

section \<open>Data\<close>

definition LMK_CFG_MAX_LISTENERS :: nat where "LMK_CFG_MAX_LISTENERS = 16"
definition LMK_CFG_MAX_HANDLERS :: nat where "LMK_CFG_MAX_HANDLERS = 32"
definition LMK_CFG_MAX_LOGGERS :: nat where "LMK_CFG_MAX_LOGGERS = 64"
definition LMK_CFG_MAX_HANDLERS_PER_LOGGER :: nat where "LMK_CFG_MAX_HANDLERS_PER_LOGGER = 16"
definition LMK_CFG_LINE_MAX :: nat where "LMK_CFG_LINE_MAX = 512"

record lmk_cfg_listener =
  cl_host :: string
  cl_port :: int

record lmk_cfg_handler =
  ch_name :: string
  ch_type :: int
  ch_level :: int
  ch_filename :: string
  ch_listeners :: "lmk_cfg_listener list"
  ch_max_file_size :: int
  ch_max_backup_files :: int
  ch_format :: string
  ch_ident :: string
  ch_facility :: string
  ch_psk :: string

record lmk_cfg_logger =
  cg_name :: string
  cg_level :: int
  cg_handler_names :: "string list"

record lmk_cfg =
  cf_log_buffer_size :: int
  cf_ring_buffer_size :: int
  cf_handlers :: "lmk_cfg_handler list"
  cf_loggers :: "lmk_cfg_logger list"

text \<open>\<open>memset(&cfg, 0, sizeof(cfg))\<close>.\<close>

definition zero_cfg :: lmk_cfg where
  "zero_cfg = \<lparr>cf_log_buffer_size = 0, cf_ring_buffer_size = 0, cf_handlers = [], cf_loggers = []\<rparr>"

text \<open>A zeroed entry with its name, and with the level and type that stand for ``not given''.\<close>

definition new_cfg_handler :: "string \<Rightarrow> lmk_cfg_handler" where
  "new_cfg_handler hname = \<lparr>ch_name = strncpy_into 64 hname, ch_type = -1, ch_level = -1, ch_filename = [], ch_listeners = [],
     ch_max_file_size = 0, ch_max_backup_files = 0, ch_format = [], ch_ident = [], ch_facility = [], ch_psk = []\<rparr>"

definition new_cfg_logger :: "string \<Rightarrow> lmk_cfg_logger" where
  "new_cfg_logger lname = \<lparr>cg_name = strncpy_into 64 lname, cg_level = -1, cg_handler_names = []\<rparr>"

section \<open>Lines and words\<close>

definition lmk_cfg_trim :: "string \<Rightarrow> string" where
  "lmk_cfg_trim s = (let s = dropWhile isspace s in if s = [] then s else rev (dropWhile isspace (rev s)))"

definition lmk_cfg_parse_level :: "string \<Rightarrow> int" where
  "lmk_cfg_parse_level s =
     (if strcaseeq s ''trace'' then LMK_LOG_LEVEL_TRACE
      else if strcaseeq s ''debug'' then LMK_LOG_LEVEL_DEBUG
      else if strcaseeq s ''info'' then LMK_LOG_LEVEL_INFO
      else if strcaseeq s ''warn'' then LMK_LOG_LEVEL_WARN
      else if strcaseeq s ''error'' then LMK_LOG_LEVEL_ERROR
      else if strcaseeq s ''off'' then LMK_LOG_LEVEL_OFF
      else -1)"

text \<open>\<open>fgets(line, n + 1, fp)\<close>: up to \<open>n\<close> bytes, ending after a newline; what it reads and what is left.\<close>

fun fgets :: "nat \<Rightarrow> string \<Rightarrow> string \<times> string" where
  "fgets 0 s = ([], s)"
| "fgets (Suc n) [] = ([], [])"
| "fgets (Suc n) (c # s) = (if c = CHR 0x0A then ([c], s) else map_prod ((#) c) id (fgets n s))"

lemma fgets_split: "fst (fgets n s) @ snd (fgets n s) = s"
  by (induction n s rule: fgets.induct) auto

lemma fgets_shorter: "s \<noteq> [] \<Longrightarrow> length (snd (fgets (Suc n) s)) < length s"
proof (induction "Suc n" s arbitrary: n rule: fgets.induct)
  case (3 n c s)
  have "length (snd (fgets n s)) \<le> length s" by (metis fgets_split length_append le_add2)
  then show ?case by simp
qed simp

text \<open>The buffers the loop \<open>while (fgets(line, sizeof(line), fp))\<close> sees, as C strings.\<close>

function config_lines :: "string \<Rightarrow> string list" where
  "config_lines s =
     (if s = [] then []
      else let (line, rest) = fgets (LMK_CFG_LINE_MAX - 1) s in cstr line # config_lines rest)"
  by auto
termination
proof (relation "measure length")
  fix s x line rest
  assume a: "s \<noteq> []" "x = fgets (LMK_CFG_LINE_MAX - 1) s" "(line, rest) = x"
  have "LMK_CFG_LINE_MAX - 1 = Suc 510" by (simp add: LMK_CFG_LINE_MAX_def)
  then show "(rest, s) \<in> measure length" using fgets_shorter [OF a(1), of 510] a(2,3) by (metis in_measure snd_conv)
qed simp

declare config_lines.simps [simp del]

text \<open>\<open>!strncasecmp(s, prefix, strlen(prefix))\<close>, and \<open>strrchr\<close>.\<close>

definition starts_with_case :: "string \<Rightarrow> string \<Rightarrow> bool" where
  "starts_with_case prefix s \<longleftrightarrow> strcaseeq (take (length prefix) s) prefix"

definition split_at_last :: "char \<Rightarrow> string \<Rightarrow> (string \<times> string) option" where
  "split_at_last c s = map_option (\<lambda>(b, a). (rev a, rev b)) (split_at_char c (rev s))"

section \<open>The parser\<close>

datatype cfg_section = LMK_SEC_NONE | LMK_SEC_GLOBAL | LMK_SEC_HANDLER | LMK_SEC_LOGGER

record parse_state =
  ps_cfg :: lmk_cfg
  ps_section :: cfg_section
  ps_cur_handler :: "nat option"
  ps_cur_logger :: "nat option"

definition parse_section :: "string \<Rightarrow> parse_state \<Rightarrow> parse_state" where
  "parse_section sec_name st =
     (let cfg = ps_cfg st; st = st\<lparr>ps_cur_handler := None, ps_cur_logger := None\<rparr>
      in if strcaseeq sec_name ''global'' then st\<lparr>ps_section := LMK_SEC_GLOBAL\<rparr>
         else if starts_with_case ''handler:'' sec_name then
           (let hname = lmk_cfg_trim (drop 8 sec_name);
                st = (if hname \<noteq> [] \<and> length (cf_handlers cfg) < LMK_CFG_MAX_HANDLERS
                      then st\<lparr>ps_cfg := cfg\<lparr>cf_handlers := cf_handlers cfg @ [new_cfg_handler hname]\<rparr>,
                              ps_cur_handler := Some (length (cf_handlers cfg))\<rparr>
                      else st)
            in st\<lparr>ps_section := LMK_SEC_HANDLER\<rparr>)
         else if starts_with_case ''logger:'' sec_name then
           (let lname = lmk_cfg_trim (drop 7 sec_name);
                st = (if lname \<noteq> [] \<and> length (cf_loggers cfg) < LMK_CFG_MAX_LOGGERS
                      then st\<lparr>ps_cfg := cfg\<lparr>cf_loggers := cf_loggers cfg @ [new_cfg_logger lname]\<rparr>,
                              ps_cur_logger := Some (length (cf_loggers cfg))\<rparr>
                      else st)
            in st\<lparr>ps_section := LMK_SEC_LOGGER\<rparr>)
         else st\<lparr>ps_section := LMK_SEC_NONE\<rparr>)"

definition set_global_key :: "string \<Rightarrow> string \<Rightarrow> lmk_cfg \<Rightarrow> lmk_cfg" where
  "set_global_key key val cfg =
     (if strcaseeq key ''log_buffer_size'' then cfg\<lparr>cf_log_buffer_size := atoi val\<rparr>
      else if strcaseeq key ''ring_buffer_size'' then cfg\<lparr>cf_ring_buffer_size := atoi val\<rparr>
      else cfg)"

definition parse_type :: "string \<Rightarrow> lmk_cfg_handler \<Rightarrow> lmk_cfg_handler" where
  "parse_type val h =
     (if strcaseeq val ''console'' then h\<lparr>ch_type := handler_type_code CONSOLE\<rparr>
      else if strcaseeq val ''file'' then h\<lparr>ch_type := handler_type_code FILE\<rparr>
      else if strcaseeq val ''socket'' then h\<lparr>ch_type := handler_type_code SOCKET\<rparr>
      else if strcaseeq val ''syslog'' then h\<lparr>ch_type := handler_type_code SYSLOG\<rparr>
      else h)"

definition parse_listener :: "string \<Rightarrow> lmk_cfg_handler \<Rightarrow> lmk_cfg_handler" where
  "parse_listener val h =
     (if length (ch_listeners h) < LMK_CFG_MAX_LISTENERS then
        (case split_at_last (CHR '':'') val of
           None \<Rightarrow> h
         | Some (host, port) \<Rightarrow>
             (let host_len = length host; host_len = (if host_len \<ge> 64 then 64 - 1 else host_len)
              in h\<lparr>ch_listeners := ch_listeners h @ [\<lparr>cl_host = take host_len val, cl_port = atoi port\<rparr>]\<rparr>))
      else h)"

definition set_handler_key :: "string \<Rightarrow> string \<Rightarrow> lmk_cfg_handler \<Rightarrow> lmk_cfg_handler" where
  "set_handler_key key val h =
     (if strcaseeq key ''type'' then parse_type val h
      else if strcaseeq key ''level'' then h\<lparr>ch_level := lmk_cfg_parse_level val\<rparr>
      else if strcaseeq key ''filename'' then h\<lparr>ch_filename := strncpy_into 256 val\<rparr>
      else if strcaseeq key ''ident'' then h\<lparr>ch_ident := strncpy_into 64 val\<rparr>
      else if strcaseeq key ''facility'' then h\<lparr>ch_facility := strncpy_into 32 val\<rparr>
      else if strcaseeq key ''format'' then h\<lparr>ch_format := strncpy_into 32 val\<rparr>
      else if strcaseeq key ''max_file_size'' then h\<lparr>ch_max_file_size := atol val\<rparr>
      else if strcaseeq key ''max_backup_files'' then h\<lparr>ch_max_backup_files := atoi val\<rparr>
      else if strcaseeq key ''psk'' then h\<lparr>ch_psk := strncpy_into 256 val\<rparr>
      else if strcaseeq key ''listener'' then parse_listener val h
      else h)"

text \<open>The loop over the tokens of a \<open>handlers\<close> value.\<close>

fun add_handler_names :: "string list \<Rightarrow> lmk_cfg_logger \<Rightarrow> lmk_cfg_logger" where
  "add_handler_names [] l = l"
| "add_handler_names (tok # toks) l =
     (if length (cg_handler_names l) < LMK_CFG_MAX_HANDLERS_PER_LOGGER then
        (let hname = lmk_cfg_trim tok
         in add_handler_names toks
              (if hname \<noteq> [] then l\<lparr>cg_handler_names := cg_handler_names l @ [strncpy_into 64 hname]\<rparr> else l))
      else l)"

definition set_logger_key :: "string \<Rightarrow> string \<Rightarrow> lmk_cfg_logger \<Rightarrow> lmk_cfg_logger" where
  "set_logger_key key val l =
     (if strcaseeq key ''level'' then l\<lparr>cg_level := lmk_cfg_parse_level val\<rparr>
      else if strcaseeq key ''handlers'' then add_handler_names (strtok_all (CHR '','') [] val) l
      else l)"

definition parse_key :: "string \<Rightarrow> string \<Rightarrow> parse_state \<Rightarrow> parse_state" where
  "parse_key key val st =
     (let cfg = ps_cfg st
      in case ps_section st of
           LMK_SEC_GLOBAL \<Rightarrow> st\<lparr>ps_cfg := set_global_key key val cfg\<rparr>
         | LMK_SEC_HANDLER \<Rightarrow>
             (case ps_cur_handler st of
                None \<Rightarrow> st
              | Some i \<Rightarrow> st\<lparr>ps_cfg := cfg\<lparr>cf_handlers := (cf_handlers cfg)[i := set_handler_key key val (cf_handlers cfg ! i)]\<rparr>\<rparr>)
         | LMK_SEC_LOGGER \<Rightarrow>
             (case ps_cur_logger st of
                None \<Rightarrow> st
              | Some i \<Rightarrow> st\<lparr>ps_cfg := cfg\<lparr>cf_loggers := (cf_loggers cfg)[i := set_logger_key key val (cf_loggers cfg ! i)]\<rparr>\<rparr>)
         | LMK_SEC_NONE \<Rightarrow> st)"

text \<open>The body of the loop.\<close>

definition parse_line :: "string \<Rightarrow> parse_state \<Rightarrow> parse_state" where
  "parse_line line st =
     (case lmk_cfg_trim line of
        [] \<Rightarrow> st
      | c # s \<Rightarrow>
          if c = CHR ''#'' \<or> c = CHR '';'' then st
          else if c = CHR ''['' then
            (case split_at_char (CHR '']'') s of
               None \<Rightarrow> st
             | Some (name, _) \<Rightarrow> parse_section (lmk_cfg_trim name) st)
          else
            (case split_at_char (CHR ''='') (c # s) of
               None \<Rightarrow> st
             | Some (key, val) \<Rightarrow> parse_key (lmk_cfg_trim key) (lmk_cfg_trim val) st))"

definition parse_start :: "lmk_cfg \<Rightarrow> parse_state" where
  "parse_start cfg = \<lparr>ps_cfg = cfg, ps_section = LMK_SEC_NONE, ps_cur_handler = None, ps_cur_logger = None\<rparr>"

text \<open>\<open>contents\<close> is \<open>None\<close> if the file cannot be opened.\<close>

definition lmk_cfg_parse_file :: "string option \<Rightarrow> lmk_cfg \<Rightarrow> int \<times> lmk_cfg" where
  "lmk_cfg_parse_file contents cfg =
     (case contents of
        None \<Rightarrow> (LMK_E_NG, cfg)
      | Some bytes \<Rightarrow> (LMK_E_OK, ps_cfg (fold parse_line (config_lines bytes) (parse_start cfg))))"

section \<open>Bounds\<close>

text \<open>What the arrays of the structs can hold.\<close>

definition cfg_level_ok :: "int \<Rightarrow> bool" where
  "cfg_level_ok l \<longleftrightarrow> l = -1 \<or> LMK_IS_VALID_LOG_LEVEL l"

definition cfg_handler_ok :: "lmk_cfg_handler \<Rightarrow> bool" where
  "cfg_handler_ok h \<longleftrightarrow> ch_name h \<noteq> [] \<and> length (ch_name h) < 64 \<and> ch_type h \<in> {-1, 0, 1, 2, 3} \<and> cfg_level_ok (ch_level h) \<and>
     length (ch_filename h) < 256 \<and> length (ch_listeners h) \<le> LMK_CFG_MAX_LISTENERS \<and>
     list_all (\<lambda>l. length (cl_host l) < 64 \<and> int_range (cl_port l)) (ch_listeners h) \<and>
     long_range (ch_max_file_size h) \<and> int_range (ch_max_backup_files h) \<and>
     length (ch_format h) < 32 \<and> length (ch_ident h) < 64 \<and> length (ch_facility h) < 32 \<and> length (ch_psk h) < 256"

definition cfg_logger_ok :: "lmk_cfg_logger \<Rightarrow> bool" where
  "cfg_logger_ok l \<longleftrightarrow> cg_name l \<noteq> [] \<and> length (cg_name l) < 64 \<and> cfg_level_ok (cg_level l) \<and>
     length (cg_handler_names l) \<le> LMK_CFG_MAX_HANDLERS_PER_LOGGER \<and>
     list_all (\<lambda>n. n \<noteq> [] \<and> length n < 64) (cg_handler_names l)"

definition cfg_ok :: "lmk_cfg \<Rightarrow> bool" where
  "cfg_ok cfg \<longleftrightarrow> int_range (cf_log_buffer_size cfg) \<and> int_range (cf_ring_buffer_size cfg) \<and>
     length (cf_handlers cfg) \<le> LMK_CFG_MAX_HANDLERS \<and> list_all cfg_handler_ok (cf_handlers cfg) \<and>
     length (cf_loggers cfg) \<le> LMK_CFG_MAX_LOGGERS \<and> list_all cfg_logger_ok (cf_loggers cfg)"

text \<open>\<open>cur_handler\<close> and \<open>cur_logger\<close> point to entries in use.\<close>

definition parse_ok :: "parse_state \<Rightarrow> bool" where
  "parse_ok st \<longleftrightarrow> cfg_ok (ps_cfg st) \<and>
     (\<forall>i. ps_cur_handler st = Some i \<longrightarrow> i < length (cf_handlers (ps_cfg st))) \<and>
     (\<forall>i. ps_cur_logger st = Some i \<longrightarrow> i < length (cf_loggers (ps_cfg st)))"

lemma parse_level_ok: "cfg_level_ok (lmk_cfg_parse_level s)"
  by (simp add: cfg_level_ok_def lmk_cfg_parse_level_def LMK_IS_VALID_LOG_LEVEL_def level_defs)

lemma strncpy_into_nonempty: "1 < n \<Longrightarrow> s \<noteq> [] \<Longrightarrow> strncpy_into n s \<noteq> []"
  by (simp add: strncpy_into_def)

lemma new_entries_ok:
  "n \<noteq> [] \<Longrightarrow> cfg_handler_ok (new_cfg_handler n)" "n \<noteq> [] \<Longrightarrow> cfg_logger_ok (new_cfg_logger n)"
  using length_strncpy_into [of 64 n]
  by (simp_all add: cfg_handler_ok_def new_cfg_handler_def cfg_logger_ok_def new_cfg_logger_def cfg_level_ok_def strncpy_into_nonempty
      int_range_def long_range_def)

lemma set_handler_key_ok:
  assumes "cfg_handler_ok h"
  shows "cfg_handler_ok (set_handler_key key val h)"
proof -
  have "cfg_handler_ok (parse_type val h)" using assms by (simp add: cfg_handler_ok_def parse_type_def)
  moreover have "cfg_handler_ok (parse_listener val h)"
    using assms by (auto simp: cfg_handler_ok_def parse_listener_def Let_def atoi_range split: option.splits)
  ultimately show ?thesis
    using assms length_strncpy_into [of 256 val] length_strncpy_into [of 64 val] length_strncpy_into [of 32 val]
    by (simp add: set_handler_key_def cfg_handler_ok_def parse_level_ok atoi_range)
qed

lemma add_handler_names_ok: "cfg_logger_ok l \<Longrightarrow> cfg_logger_ok (add_handler_names toks l)"
proof (induction toks l rule: add_handler_names.induct)
  case (2 tok toks l)
  let ?l = "if lmk_cfg_trim tok \<noteq> [] then l\<lparr>cg_handler_names := cg_handler_names l @ [strncpy_into 64 (lmk_cfg_trim tok)]\<rparr> else l"
  show ?case
  proof (cases "length (cg_handler_names l) < LMK_CFG_MAX_HANDLERS_PER_LOGGER")
    case True
    then have "cfg_logger_ok ?l"
      using 2(2) length_strncpy_into [of 64 "lmk_cfg_trim tok"] by (simp add: cfg_logger_ok_def strncpy_into_nonempty)
    then show ?thesis using 2(1) True by (simp add: Let_def)
  qed (use 2(2) in simp)
qed simp

lemma set_logger_key_ok: "cfg_logger_ok l \<Longrightarrow> cfg_logger_ok (set_logger_key key val l)"
  by (simp add: set_logger_key_def add_handler_names_ok) (simp add: cfg_logger_ok_def parse_level_ok)

lemma list_all_update: "list_all P xs \<Longrightarrow> P x \<Longrightarrow> list_all P (xs[i := x])"
  using set_update_subset_insert [of xs i x] by (auto simp: list_all_iff)

lemma list_all_at: "list_all P xs \<Longrightarrow> i < length xs \<Longrightarrow> P (xs ! i)"
  by (simp add: list_all_length)

lemma parse_section_ok: "parse_ok st \<Longrightarrow> parse_ok (parse_section name st)"
  by (simp add: parse_ok_def parse_section_def cfg_ok_def Let_def new_entries_ok)

lemma parse_key_ok:
  assumes ok: "parse_ok st"
  shows "parse_ok (parse_key key val st)"
proof (cases "ps_section st")
  case LMK_SEC_GLOBAL
  then show ?thesis using ok by (simp add: parse_key_def set_global_key_def parse_ok_def cfg_ok_def Let_def atoi_range)
next
  case LMK_SEC_HANDLER
  then show ?thesis
    using ok by (auto simp: parse_key_def parse_ok_def cfg_ok_def Let_def list_all_update list_all_at set_handler_key_ok split: option.splits)
next
  case LMK_SEC_LOGGER
  then show ?thesis
    using ok by (auto simp: parse_key_def parse_ok_def cfg_ok_def Let_def list_all_update list_all_at set_logger_key_ok split: option.splits)
qed (use ok in \<open>simp add: parse_key_def Let_def\<close>)

lemma parse_line_ok: "parse_ok st \<Longrightarrow> parse_ok (parse_line line st)"
  by (auto simp: parse_line_def parse_section_ok parse_key_ok split: list.splits option.splits)

lemma parse_lines_ok: "parse_ok st \<Longrightarrow> parse_ok (fold parse_line ls st)"
  by (induction ls arbitrary: st) (simp_all add: parse_line_ok)

lemma parse_start_ok: "parse_ok (parse_start zero_cfg)"
  by (simp add: parse_ok_def parse_start_def cfg_ok_def zero_cfg_def int_range_def)

lemma parse_file_ok: "cfg_ok (snd (lmk_cfg_parse_file contents zero_cfg))"
  using parse_lines_ok [OF parse_start_ok] parse_start_ok
  by (auto simp: lmk_cfg_parse_file_def parse_ok_def parse_start_def split: option.splits)

lemma length_fgets: "length (fst (fgets n s)) \<le> n"
  by (induction n s rule: fgets.induct) auto

lemma length_cstr_le: "length (cstr s) \<le> length s"
  by (simp add: cstr_def length_takeWhile_le)

lemma config_lines_fit: "line \<in> set (config_lines s) \<Longrightarrow> length line < LMK_CFG_LINE_MAX"
proof (induction s rule: config_lines.induct)
  case (1 s)
  obtain l r where lr: "fgets (LMK_CFG_LINE_MAX - 1) s = (l, r)" by (cases "fgets (LMK_CFG_LINE_MAX - 1) s")
  have "length (cstr l) < LMK_CFG_LINE_MAX"
    using length_fgets [of "LMK_CFG_LINE_MAX - 1" s] length_cstr_le [of l] lr by (simp add: LMK_CFG_LINE_MAX_def)
  then show ?case using 1(1) [OF _ lr [symmetric]] 1(2) lr by (auto simp: config_lines.simps [of s] split: if_splits)
qed

section \<open>Printing a configuration\<close>

text \<open>A configuration in the file format, one key per line.\<close>

definition key_line :: "string \<times> string \<Rightarrow> string" where
  "key_line kv = fst kv @ CHR ''='' # snd kv"

definition emit_if :: "bool \<Rightarrow> 'a \<Rightarrow> 'a list" where
  "emit_if b x = (if b then [x] else [])"

definition handler_keys :: "lmk_cfg_handler \<Rightarrow> (string \<times> string) list" where
  "handler_keys h =
     emit_if (ch_type h \<ge> 0) (''type'', lmk_get_log_handler_type_str (ch_type h)) @
     emit_if (ch_level h \<noteq> -1) (''level'', lmk_get_log_level_str (ch_level h)) @
     [(''filename'', ch_filename h), (''ident'', ch_ident h), (''facility'', ch_facility h), (''format'', ch_format h),
      (''max_file_size'', dec_int (ch_max_file_size h)), (''max_backup_files'', dec_int (ch_max_backup_files h)),
      (''psk'', ch_psk h)] @
     map (\<lambda>l. (''listener'', cl_host l @ CHR '':'' # dec_int (cl_port l))) (ch_listeners h)"

fun join :: "char \<Rightarrow> string list \<Rightarrow> string" where
  "join c [] = []"
| "join c [x] = x"
| "join c (x # y # xs) = x @ c # join c (y # xs)"

definition logger_keys :: "lmk_cfg_logger \<Rightarrow> (string \<times> string) list" where
  "logger_keys l = emit_if (cg_level l \<noteq> -1) (''level'', lmk_get_log_level_str (cg_level l)) @
     [(''handlers'', join (CHR '','') (cg_handler_names l))]"

definition handler_lines :: "lmk_cfg_handler \<Rightarrow> string list" where
  "handler_lines h = (''[handler:'' @ ch_name h @ '']'') # map key_line (handler_keys h)"

definition logger_lines :: "lmk_cfg_logger \<Rightarrow> string list" where
  "logger_lines l = (''[logger:'' @ cg_name l @ '']'') # map key_line (logger_keys l)"

definition global_lines :: "lmk_cfg \<Rightarrow> string list" where
  "global_lines cfg = [''[global]'', key_line (''log_buffer_size'', dec_int (cf_log_buffer_size cfg)),
     key_line (''ring_buffer_size'', dec_int (cf_ring_buffer_size cfg))]"

definition cfg_text_lines :: "lmk_cfg \<Rightarrow> string list" where
  "cfg_text_lines cfg = global_lines cfg @ concat (map handler_lines (cf_handlers cfg)) @ concat (map logger_lines (cf_loggers cfg))"

definition print_cfg :: "lmk_cfg \<Rightarrow> string" where
  "print_cfg cfg = concat (map (\<lambda>l. l @ [CHR 0x0A]) (cfg_text_lines cfg))"

text \<open>The strings that can be written into a file: no line break, no \<open>NUL\<close>, no white space at the
  ends; a name in a section header has no bracket, a name in a list no comma; a line fits into the
  buffer of the parser.\<close>

definition trimmed :: "string \<Rightarrow> bool" where
  "trimmed s \<longleftrightarrow> s \<noteq> [] \<and> \<not> isspace (hd s) \<and> \<not> isspace (last s)"

definition clean :: "string \<Rightarrow> bool" where
  "clean s \<longleftrightarrow> CHR 0x0A \<notin> set s \<and> NUL \<notin> set s \<and> (s = [] \<or> trimmed s)"

definition clean_handler :: "lmk_cfg_handler \<Rightarrow> bool" where
  "clean_handler h \<longleftrightarrow> list_all clean [ch_name h, ch_filename h, ch_ident h, ch_facility h, ch_format h, ch_psk h] \<and>
     CHR '']'' \<notin> set (ch_name h) \<and> list_all (\<lambda>l. clean (cl_host l)) (ch_listeners h)"

definition clean_logger :: "lmk_cfg_logger \<Rightarrow> bool" where
  "clean_logger l \<longleftrightarrow> clean (cg_name l) \<and> CHR '']'' \<notin> set (cg_name l) \<and>
     list_all (\<lambda>n. clean n \<and> CHR '','' \<notin> set n) (cg_handler_names l)"

definition printable :: "lmk_cfg \<Rightarrow> bool" where
  "printable cfg \<longleftrightarrow> cfg_ok cfg \<and> list_all clean_handler (cf_handlers cfg) \<and> list_all clean_logger (cf_loggers cfg) \<and>
     list_all (\<lambda>l. length l < LMK_CFG_LINE_MAX - 1) (cfg_text_lines cfg)"

subsection \<open>Lines\<close>

lemma fgets_line: "CHR 0x0A \<notin> set l \<Longrightarrow> length l < n \<Longrightarrow> fgets n (l @ CHR 0x0A # rest) = (l @ [CHR 0x0A], rest)"
proof (induction l arbitrary: n)
  case Nil
  then show ?case by (cases n) auto
next
  case (Cons c l)
  then obtain m where "n = Suc m" by (cases n) auto
  then show ?case using Cons by auto
qed

lemma config_lines_concat:
  assumes "list_all (\<lambda>l. CHR 0x0A \<notin> set l \<and> NUL \<notin> set l \<and> length l < LMK_CFG_LINE_MAX - 1) ls"
  shows "config_lines (concat (map (\<lambda>l. l @ [CHR 0x0A]) ls)) = map (\<lambda>l. l @ [CHR 0x0A]) ls"
  using assms
proof (induction ls)
  case Nil
  then show ?case by (simp add: config_lines.simps)
next
  case (Cons l ls)
  let ?rest = "concat (map (\<lambda>l. l @ [CHR 0x0A]) ls)"
  have "fgets (LMK_CFG_LINE_MAX - 1) (l @ CHR 0x0A # ?rest) = (l @ [CHR 0x0A], ?rest)" using Cons.prems by (intro fgets_line) auto
  then show ?case using Cons by (simp add: config_lines.simps [of "l @ CHR 0x0A # ?rest"])
qed

lemma isspace_newline [simp]: "isspace (CHR 0x0A)" "isspace (CHR '' '')"
  by (simp_all add: isspace_def)

lemma trimmed_dropWhile: "trimmed s \<Longrightarrow> dropWhile isspace (s @ t) = s @ t" "trimmed s \<Longrightarrow> dropWhile isspace (rev s) = rev s"
  by (auto simp: trimmed_def dropWhile_eq_self_iff hd_rev)

lemma trim_trimmed: "trimmed s \<Longrightarrow> lmk_cfg_trim s = s"
  using trimmed_dropWhile(1) [of s "[]"] trimmed_dropWhile(2) [of s] by (simp add: lmk_cfg_trim_def)

lemma trim_line: "trimmed s \<Longrightarrow> lmk_cfg_trim (s @ [CHR 0x0A]) = s"
  using trimmed_dropWhile(1) [of s "[CHR 0x0A]"] trimmed_dropWhile(2) [of s] by (simp add: lmk_cfg_trim_def)

lemma trim_clean [simp]: "clean s \<Longrightarrow> lmk_cfg_trim s = s"
  by (auto simp: clean_def trim_trimmed) (simp add: lmk_cfg_trim_def)

lemma parse_section_line:
  assumes "clean name" "name \<noteq> []" "CHR '']'' \<notin> set name"
  shows "parse_line (CHR ''['' # name @ '']'' @ [CHR 0x0A]) st = parse_section name st"
proof -
  have "trimmed (CHR ''['' # name @ '']'')" by (simp add: trimmed_def isspace_def)
  from trim_line [OF this] show ?thesis
    using assms by (simp add: parse_line_def split_at_char_append)
qed

definition key_ok :: "string \<Rightarrow> bool" where
  "key_ok key \<longleftrightarrow> clean key \<and> key \<noteq> [] \<and> CHR ''='' \<notin> set key \<and> hd key \<notin> set ''#;[''"

lemma parse_key_line:
  assumes "key_ok (fst kv)" "clean (snd kv)"
  shows "parse_line (key_line kv @ [CHR 0x0A]) st = parse_key (fst kv) (snd kv) st"
proof -
  obtain key val where kv: "kv = (key, val)" by (cases kv)
  have "trimmed (key @ CHR ''='' # val)"
    using assms kv by (auto simp: trimmed_def key_ok_def clean_def isspace_def)
  from trim_line [OF this] have t: "lmk_cfg_trim (key_line kv @ [CHR 0x0A]) = key @ CHR ''='' # val" by (simp add: key_line_def kv)
  obtain c s where cs: "key = c # s" using assms kv by (cases key) (auto simp: key_ok_def)
  have "split_at_char (CHR ''='') (key @ CHR ''='' # val) = Some (key, val)"
    using assms kv by (intro split_at_char_append) (simp add: key_ok_def)
  then show ?thesis using assms kv cs t by (simp add: parse_line_def key_ok_def)
qed

subsection \<open>Keys of a section\<close>

definition kv_ok :: "string \<times> string \<Rightarrow> bool" where
  "kv_ok kv \<longleftrightarrow> key_ok (fst kv) \<and> clean (snd kv)"

lemma parse_handler_keys:
  assumes "list_all kv_ok kvs" "ps_section st = LMK_SEC_HANDLER" "ps_cur_handler st = Some i" "i < length (cf_handlers (ps_cfg st))"
  shows "fold parse_line (map (\<lambda>kv. key_line kv @ [CHR 0x0A]) kvs) st =
    st\<lparr>ps_cfg := (ps_cfg st)\<lparr>cf_handlers := (cf_handlers (ps_cfg st))
       [i := fold (\<lambda>kv. set_handler_key (fst kv) (snd kv)) kvs (cf_handlers (ps_cfg st) ! i)]\<rparr>\<rparr>"
  using assms
proof (induction kvs arbitrary: st)
  case (Cons kv kvs)
  then have "parse_line (key_line kv @ [CHR 0x0A]) st = parse_key (fst kv) (snd kv) st"
    by (intro parse_key_line) (auto simp: kv_ok_def)
  then show ?case using Cons by (simp add: parse_key_def Let_def)
qed simp

lemma parse_logger_keys:
  assumes "list_all kv_ok kvs" "ps_section st = LMK_SEC_LOGGER" "ps_cur_logger st = Some i" "i < length (cf_loggers (ps_cfg st))"
  shows "fold parse_line (map (\<lambda>kv. key_line kv @ [CHR 0x0A]) kvs) st =
    st\<lparr>ps_cfg := (ps_cfg st)\<lparr>cf_loggers := (cf_loggers (ps_cfg st))
       [i := fold (\<lambda>kv. set_logger_key (fst kv) (snd kv)) kvs (cf_loggers (ps_cfg st) ! i)]\<rparr>\<rparr>"
  using assms
proof (induction kvs arbitrary: st)
  case (Cons kv kvs)
  then have "parse_line (key_line kv @ [CHR 0x0A]) st = parse_key (fst kv) (snd kv) st"
    by (intro parse_key_line) (auto simp: kv_ok_def)
  then show ?case using Cons by (simp add: parse_key_def Let_def)
qed simp

lemma strcaseeq_keys [simp]:
  "strcaseeq s s"
  by (simp add: strcaseeq_def)

definition lower_chars :: string where
  "lower_chars = ''abcdefghijklmnopqrstuvwxyz_''"

lemma tolower_lower: "c \<in> set lower_chars \<Longrightarrow> tolower c = c"
proof -
  have "list_all (\<lambda>c. tolower c = c) lower_chars" by code_simp
  then show "c \<in> set lower_chars \<Longrightarrow> tolower c = c" by (simp add: list_all_iff)
qed

lemma strcaseeq_lower:
  "set a \<subseteq> set lower_chars \<Longrightarrow> set b \<subseteq> set lower_chars \<Longrightarrow> strcaseeq a b \<longleftrightarrow> a = b"
proof -
  assume a: "set a \<subseteq> set lower_chars" and b: "set b \<subseteq> set lower_chars"
  have "map tolower a = a" using a by (intro map_idI tolower_lower) blast
  moreover have "map tolower b = b" using b by (intro map_idI tolower_lower) blast
  ultimately show ?thesis by (simp add: strcaseeq_def)
qed

definition cfg_keys :: "string list" where
  "cfg_keys = [''type'', ''level'', ''filename'', ''ident'', ''facility'', ''format'', ''max_file_size'', ''max_backup_files'',
     ''psk'', ''listener'', ''handlers'', ''log_buffer_size'', ''ring_buffer_size'']"

lemma strcaseeq_key: "a \<in> set cfg_keys \<Longrightarrow> b \<in> set cfg_keys \<Longrightarrow> strcaseeq a b \<longleftrightarrow> a = b"
proof -
  have "list_all (list_all (\<lambda>c. List.member lower_chars c)) cfg_keys" by code_simp
  then have "set a \<subseteq> set lower_chars" if "a \<in> set cfg_keys" for a using that by (auto simp: list_all_iff List.member_iff)
  then show "a \<in> set cfg_keys \<Longrightarrow> b \<in> set cfg_keys \<Longrightarrow> strcaseeq a b \<longleftrightarrow> a = b" by (intro strcaseeq_lower)
qed

lemma set_handler_key_simps:
  "set_handler_key ''type'' v h = parse_type v h"
  "set_handler_key ''level'' v h = h\<lparr>ch_level := lmk_cfg_parse_level v\<rparr>"
  "set_handler_key ''filename'' v h = h\<lparr>ch_filename := strncpy_into 256 v\<rparr>"
  "set_handler_key ''ident'' v h = h\<lparr>ch_ident := strncpy_into 64 v\<rparr>"
  "set_handler_key ''facility'' v h = h\<lparr>ch_facility := strncpy_into 32 v\<rparr>"
  "set_handler_key ''format'' v h = h\<lparr>ch_format := strncpy_into 32 v\<rparr>"
  "set_handler_key ''max_file_size'' v h = h\<lparr>ch_max_file_size := atol v\<rparr>"
  "set_handler_key ''max_backup_files'' v h = h\<lparr>ch_max_backup_files := atoi v\<rparr>"
  "set_handler_key ''psk'' v h = h\<lparr>ch_psk := strncpy_into 256 v\<rparr>"
  "set_handler_key ''listener'' v h = parse_listener v h"
  by (simp_all add: set_handler_key_def strcaseeq_key cfg_keys_def)

lemma set_logger_key_simps:
  "set_logger_key ''level'' v l = l\<lparr>cg_level := lmk_cfg_parse_level v\<rparr>"
  "set_logger_key ''handlers'' v l = add_handler_names (strtok_all (CHR '','') [] v) l"
  by (simp_all add: set_logger_key_def strcaseeq_key cfg_keys_def)

lemma set_global_key_simps:
  "set_global_key ''log_buffer_size'' v c = c\<lparr>cf_log_buffer_size := atoi v\<rparr>"
  "set_global_key ''ring_buffer_size'' v c = c\<lparr>cf_ring_buffer_size := atoi v\<rparr>"
  by (simp_all add: set_global_key_def strcaseeq_key cfg_keys_def)

lemma key_ok_simps:
  "key_ok ''type''" "key_ok ''level''" "key_ok ''filename''" "key_ok ''ident''" "key_ok ''facility''" "key_ok ''format''"
  "key_ok ''max_file_size''" "key_ok ''max_backup_files''" "key_ok ''psk''" "key_ok ''listener''" "key_ok ''handlers''"
  "key_ok ''log_buffer_size''" "key_ok ''ring_buffer_size''"
  by (simp_all add: key_ok_def clean_def trimmed_def isspace_def)

text \<open>The words of the file format.\<close>

lemma valid_level_cases: "LMK_IS_VALID_LOG_LEVEL l \<Longrightarrow> l \<in> {0, 1, 2, 3, 4, 5}"
  by (auto simp: LMK_IS_VALID_LOG_LEVEL_def level_defs)

lemma parse_level_words:
  "lmk_cfg_parse_level ''TRACE'' = 0" "lmk_cfg_parse_level ''DEBUG'' = 1" "lmk_cfg_parse_level ''INFO'' = 2"
  "lmk_cfg_parse_level ''WARN'' = 3" "lmk_cfg_parse_level ''ERROR'' = 4" "lmk_cfg_parse_level ''OFF'' = 5"
  by code_simp+

lemma parse_level_str: "LMK_IS_VALID_LOG_LEVEL l \<Longrightarrow> lmk_cfg_parse_level (lmk_get_log_level_str l) = l"
  using valid_level_cases [of l]
  by (auto simp: lmk_get_log_level_str_def g_log_level_str_def level_defs parse_level_words)

lemma parse_type_words:
  "parse_type ''CONSOLE'' h = h\<lparr>ch_type := 0\<rparr>" "parse_type ''FILE'' h = h\<lparr>ch_type := 1\<rparr>"
  "parse_type ''SOCKET'' h = h\<lparr>ch_type := 2\<rparr>" "parse_type ''SYSLOG'' h = h\<lparr>ch_type := 3\<rparr>"
  by (simp_all add: parse_type_def strcaseeq_def tolower_def)

lemma parse_type_str: "t \<in> {0, 1, 2, 3} \<Longrightarrow> parse_type (lmk_get_log_handler_type_str t) h = h\<lparr>ch_type := t\<rparr>"
  by (auto simp: lmk_get_log_handler_type_str_def g_log_hnd_type_str_def parse_type_words)

lemma word_clean: "set s \<subseteq> set ''ABCDEFGHIJKLMNOPQRSTUVWXYZ'' \<Longrightarrow> clean s"
proof -
  assume s: "set s \<subseteq> set ''ABCDEFGHIJKLMNOPQRSTUVWXYZ''"
  have "\<not> isspace c" if "c \<in> set s" for c using that s by (auto simp: isspace_def)
  moreover have "CHR 0x0A \<notin> set s" "NUL \<notin> set s" using s by auto
  ultimately show ?thesis by (cases "s = []") (simp_all add: clean_def trimmed_def)
qed

lemma words_clean: "clean (lmk_get_log_level_str l)" "clean (lmk_get_log_handler_type_str t)"
proof -
  have "nat l \<in> {0, 1, 2, 3, 4, 5}" if "0 \<le> l" "l \<le> 5" using that by auto
  then have "lmk_get_log_level_str l \<in> set g_log_level_str"
    by (auto simp: lmk_get_log_level_str_def g_log_level_str_def level_defs)
  then show "clean (lmk_get_log_level_str l)"
    by (intro word_clean) (auto simp: g_log_level_str_def)
  have "nat t \<in> {0, 1, 2, 3}" if "0 \<le> t" "t \<le> 3" using that by auto
  then have "lmk_get_log_handler_type_str t \<in> insert ''UNKNOWN'' (set g_log_hnd_type_str)"
    by (auto simp: lmk_get_log_handler_type_str_def g_log_hnd_type_str_def)
  then show "clean (lmk_get_log_handler_type_str t)"
    by (intro word_clean) (auto simp: g_log_hnd_type_str_def)
qed

lemma dec_int_chars: "c \<in> set (dec_int i) \<Longrightarrow> is_digit c \<or> c = CHR ''-''"
  using dec_nat_digits by (auto simp: dec_int_def list_all_iff split: if_splits)

lemma digits_not: "\<not> is_digit (CHR '':'')" "\<not> is_digit (CHR 0x0A)" "\<not> is_digit NUL"
  by (simp_all add: is_digit_def)

lemma digit_not_space: "is_digit c \<Longrightarrow> \<not> isspace c"
  by (auto simp: is_digit_def isspace_def)

lemma dec_int_clean: "clean (dec_int i)" "CHR '':'' \<notin> set (dec_int i)" "dec_int i \<noteq> []" "\<not> isspace (last (dec_int i))"
proof -
  have ns: "\<not> isspace c" if "c \<in> set (dec_int i)" for c
    using dec_int_chars [OF that] digit_not_space by (auto simp: isspace_def)
  show ne: "dec_int i \<noteq> []" by (simp add: dec_int_def)
  show "\<not> isspace (last (dec_int i))" using ns ne by simp
  show "clean (dec_int i)"
    using ns ne dec_int_chars [of _ i] digits_not by (auto simp: clean_def trimmed_def)
  show "CHR '':'' \<notin> set (dec_int i)" using dec_int_chars [of _ i] digits_not by auto
qed

lemma strncpy_into_id: "length s < n \<Longrightarrow> strncpy_into n s = s"
  by (simp add: strncpy_into_def)

subsection \<open>Sections\<close>

lemma parse_listener_printed:
  assumes "length (ch_listeners h) < LMK_CFG_MAX_LISTENERS" "length (cl_host l) < 64" "int_range (cl_port l)"
  shows "parse_listener (cl_host l @ CHR '':'' # dec_int (cl_port l)) h = h\<lparr>ch_listeners := ch_listeners h @ [l]\<rparr>"
proof -
  have "split_at_char (CHR '':'') (rev (dec_int (cl_port l)) @ CHR '':'' # rev (cl_host l)) =
      Some (rev (dec_int (cl_port l)), rev (cl_host l))"
    using dec_int_clean(2) by (intro split_at_char_append) simp
  then show ?thesis using assms by (simp add: parse_listener_def split_at_last_def atoi_dec_int)
qed

lemma parse_listeners_printed:
  assumes "length (ch_listeners h) + length ls \<le> LMK_CFG_MAX_LISTENERS" "list_all (\<lambda>l. length (cl_host l) < 64 \<and> int_range (cl_port l)) ls"
  shows "fold (\<lambda>kv. set_handler_key (fst kv) (snd kv)) (map (\<lambda>l. (''listener'', cl_host l @ CHR '':'' # dec_int (cl_port l))) ls) h =
    h\<lparr>ch_listeners := ch_listeners h @ ls\<rparr>"
  using assms by (induction ls arbitrary: h) (simp_all add: set_handler_key_simps parse_listener_printed)

lemma fold_emit_if: "fold f (emit_if b x) a = (if b then f x a else a)"
  by (simp add: emit_if_def)

lemma handler_keys_printed:
  assumes "cfg_handler_ok h"
  shows "fold (\<lambda>kv. set_handler_key (fst kv) (snd kv)) (handler_keys h) (new_cfg_handler (ch_name h)) = h"
proof -
  let ?f = "fold (\<lambda>kv. set_handler_key (fst kv) (snd kv))"
  have ty: "?f (emit_if (ch_type h \<ge> 0) (''type'', lmk_get_log_handler_type_str (ch_type h))) g = g\<lparr>ch_type := ch_type h\<rparr>"
    if "ch_type g = -1" for g
    using assms that parse_type_str [of "ch_type h" g]
    by (auto simp: fold_emit_if set_handler_key_simps cfg_handler_ok_def)
  have lv: "?f (emit_if (ch_level h \<noteq> -1) (''level'', lmk_get_log_level_str (ch_level h))) g = g\<lparr>ch_level := ch_level h\<rparr>"
    if "ch_level g = -1" for g
    using assms that parse_level_str [of "ch_level h"]
    by (auto simp: fold_emit_if set_handler_key_simps cfg_handler_ok_def cfg_level_ok_def)
  have "length (ch_listeners h) \<le> LMK_CFG_MAX_LISTENERS" "list_all (\<lambda>l. length (cl_host l) < 64 \<and> int_range (cl_port l)) (ch_listeners h)"
    using assms by (simp_all add: cfg_handler_ok_def)
  then show ?thesis
    using assms unfolding handler_keys_def fold_append o_def
    by (subst ty) (auto simp: new_cfg_handler_def lv set_handler_key_simps parse_listeners_printed strncpy_into_id cfg_handler_ok_def
        atoi_dec_int atol_dec_int
        intro!: lmk_cfg_handler.equality)
qed

lemma clean_listener: "clean host \<Longrightarrow> clean (host @ CHR '':'' # dec_int port)"
  using dec_int_clean [of port] by (auto simp: clean_def trimmed_def isspace_def)

lemma handler_keys_clean: "clean_handler h \<Longrightarrow> list_all kv_ok (handler_keys h)"
  by (auto simp: handler_keys_def clean_handler_def kv_ok_def key_ok_simps words_clean dec_int_clean clean_listener emit_if_def list_all_iff)

lemma starts_with_case_prefix: "starts_with_case p (p @ s)"
  by (simp add: starts_with_case_def)

lemma section_names:
  "\<not> strcaseeq (''handler:'' @ n) ''global''" "\<not> strcaseeq (''logger:'' @ n) ''global''" "\<not> starts_with_case ''handler:'' (''logger:'' @ n)"
  by (auto simp: starts_with_case_def strcaseeq_def tolower_def)

lemma clean_section: "clean n \<Longrightarrow> n \<noteq> [] \<Longrightarrow> \<not> isspace c \<and> c \<noteq> NUL \<Longrightarrow> set p \<subseteq> set lower_chars \<union> {CHR '':''} \<Longrightarrow> clean (c # p @ n)"
proof -
  assume n: "clean n" "n \<noteq> []" "\<not> isspace c \<and> c \<noteq> NUL" "set p \<subseteq> set lower_chars \<union> {CHR '':''}"
  have "c \<noteq> CHR 0x0A" using n(3) by auto
  then show ?thesis using n by (auto simp: clean_def trimmed_def lower_chars_def)
qed

lemma parse_handler_section:
  assumes "cfg_handler_ok h" "clean_handler h" "length (cf_handlers (ps_cfg st)) < LMK_CFG_MAX_HANDLERS"
  shows "fold parse_line (map (\<lambda>l. l @ [CHR 0x0A]) (handler_lines h)) st =
    \<lparr>ps_cfg = (ps_cfg st)\<lparr>cf_handlers := cf_handlers (ps_cfg st) @ [h]\<rparr>, ps_section = LMK_SEC_HANDLER,
     ps_cur_handler = Some (length (cf_handlers (ps_cfg st))), ps_cur_logger = None\<rparr>"
proof -
  let ?cfg = "ps_cfg st"
  let ?st = "st\<lparr>ps_cfg := ?cfg\<lparr>cf_handlers := cf_handlers ?cfg @ [new_cfg_handler (ch_name h)]\<rparr>, ps_section := LMK_SEC_HANDLER,
    ps_cur_handler := Some (length (cf_handlers ?cfg)), ps_cur_logger := None\<rparr>"
  have name: "clean (ch_name h)" "ch_name h \<noteq> []" "CHR '']'' \<notin> set (ch_name h)"
    using assms(1,2) by (simp_all add: clean_handler_def cfg_handler_ok_def)
  have "clean (''handler:'' @ ch_name h)"
    using clean_section [OF name(1,2), of "CHR ''h''" "''andler:''"] by (simp add: lower_chars_def isspace_def)
  then have "parse_line (''[handler:'' @ ch_name h @ '']'' @ [CHR 0x0A]) st = parse_section (''handler:'' @ ch_name h) st"
    using parse_section_line [of "''handler:'' @ ch_name h" st] name(3) by simp
  also have "\<dots> = ?st"
    using section_names(1) [of "ch_name h"] starts_with_case_prefix [of "''handler:''" "ch_name h"] assms(3) name
    by (simp add: parse_section_def Let_def)
  finally have sec: "parse_line (''[handler:'' @ ch_name h @ '']'' @ [CHR 0x0A]) st = ?st" .
  have "fold parse_line (map (\<lambda>kv. key_line kv @ [CHR 0x0A]) (handler_keys h)) ?st =
      ?st\<lparr>ps_cfg := ?cfg\<lparr>cf_handlers := cf_handlers ?cfg @ [h]\<rparr>\<rparr>"
    using parse_handler_keys [OF handler_keys_clean [OF assms(2)], of ?st "length (cf_handlers ?cfg)"]
      handler_keys_printed [OF assms(1)] by simp
  with sec show ?thesis by (simp add: handler_lines_def o_def)
qed

lemma strtok_all_prefix: "sep \<notin> set x \<Longrightarrow> strtok_all sep acc (x @ rest) = strtok_all sep (acc @ x) rest"
  by (induction x arbitrary: acc) auto

lemma strtok_join: "list_all (\<lambda>n. n \<noteq> [] \<and> sep \<notin> set n) ns \<Longrightarrow> strtok_all sep [] (join sep ns) = ns"
proof (induction sep ns rule: join.induct)
  case (2 c x)
  then show ?case using strtok_all_prefix [of c x "[]" "[]"] by simp
next
  case (3 c x y xs)
  then show ?case using strtok_all_prefix [of c x "[]" "c # join c (y # xs)"] by simp
qed simp

lemma add_names_printed:
  assumes "list_all (\<lambda>n. n \<noteq> [] \<and> length n < 64 \<and> clean n) ns" "length (cg_handler_names l) + length ns \<le> LMK_CFG_MAX_HANDLERS_PER_LOGGER"
  shows "add_handler_names ns l = l\<lparr>cg_handler_names := cg_handler_names l @ ns\<rparr>"
  using assms by (induction ns arbitrary: l) (simp_all add: Let_def strncpy_into_id)

lemma clean_join: "list_all clean ns \<Longrightarrow> list_all (\<lambda>n. n \<noteq> []) ns \<Longrightarrow> clean (join (CHR '','') ns) \<and> (ns \<noteq> [] \<longrightarrow> join (CHR '','') ns \<noteq> [])"
proof (induction "CHR '',''" ns rule: join.induct)
  case (3 x y xs)
  then show ?case by (auto simp: clean_def trimmed_def isspace_def)
qed (simp_all add: clean_def)

lemma logger_keys_printed:
  assumes "cfg_logger_ok l" "clean_logger l"
  shows "fold (\<lambda>kv. set_logger_key (fst kv) (snd kv)) (logger_keys l) (new_cfg_logger (cg_name l)) = l"
proof -
  let ?ns = "cg_handler_names l"
  have "strtok_all (CHR '','') [] (join (CHR '','') ?ns) = ?ns"
    using assms by (intro strtok_join) (auto simp: cfg_logger_ok_def clean_logger_def list_all_iff)
  moreover have "add_handler_names ?ns g = g\<lparr>cg_handler_names := ?ns\<rparr>" if "cg_handler_names g = []" for g
    using assms that by (subst add_names_printed) (auto simp: cfg_logger_ok_def clean_logger_def list_all_iff)
  ultimately show ?thesis
    using assms(1) parse_level_str [of "cg_level l"]
    by (auto simp: logger_keys_def fold_emit_if set_logger_key_simps new_cfg_logger_def cfg_logger_ok_def cfg_level_ok_def strncpy_into_id
        intro!: lmk_cfg_logger.equality)
qed

lemma logger_keys_clean:
  assumes "cfg_logger_ok l" "clean_logger l"
  shows "list_all kv_ok (logger_keys l)"
proof -
  have "clean (join (CHR '','') (cg_handler_names l))"
    using assms clean_join [of "cg_handler_names l"] by (auto simp: cfg_logger_ok_def clean_logger_def list_all_iff)
  then show ?thesis by (simp add: logger_keys_def kv_ok_def key_ok_simps words_clean emit_if_def)
qed

lemma parse_logger_section:
  assumes "cfg_logger_ok l" "clean_logger l" "length (cf_loggers (ps_cfg st)) < LMK_CFG_MAX_LOGGERS"
  shows "fold parse_line (map (\<lambda>l. l @ [CHR 0x0A]) (logger_lines l)) st =
    \<lparr>ps_cfg = (ps_cfg st)\<lparr>cf_loggers := cf_loggers (ps_cfg st) @ [l]\<rparr>, ps_section = LMK_SEC_LOGGER,
     ps_cur_handler = None, ps_cur_logger = Some (length (cf_loggers (ps_cfg st)))\<rparr>"
proof -
  let ?cfg = "ps_cfg st"
  let ?st = "st\<lparr>ps_cfg := ?cfg\<lparr>cf_loggers := cf_loggers ?cfg @ [new_cfg_logger (cg_name l)]\<rparr>, ps_section := LMK_SEC_LOGGER,
    ps_cur_handler := None, ps_cur_logger := Some (length (cf_loggers ?cfg))\<rparr>"
  have name: "clean (cg_name l)" "cg_name l \<noteq> []" "CHR '']'' \<notin> set (cg_name l)"
    using assms(1,2) by (simp_all add: clean_logger_def cfg_logger_ok_def)
  have "clean (''logger:'' @ cg_name l)"
    using clean_section [OF name(1,2), of "CHR ''l''" "''ogger:''"] by (simp add: lower_chars_def isspace_def)
  then have "parse_line (''[logger:'' @ cg_name l @ '']'' @ [CHR 0x0A]) st = parse_section (''logger:'' @ cg_name l) st"
    using parse_section_line [of "''logger:'' @ cg_name l" st] name(3) by simp
  also have "\<dots> = ?st"
    using section_names(2,3) [of "cg_name l"] starts_with_case_prefix [of "''logger:''" "cg_name l"] assms(3) name
    by (simp add: parse_section_def Let_def)
  finally have sec: "parse_line (''[logger:'' @ cg_name l @ '']'' @ [CHR 0x0A]) st = ?st" .
  have "fold parse_line (map (\<lambda>kv. key_line kv @ [CHR 0x0A]) (logger_keys l)) ?st =
      ?st\<lparr>ps_cfg := ?cfg\<lparr>cf_loggers := cf_loggers ?cfg @ [l]\<rparr>\<rparr>"
    using parse_logger_keys [OF logger_keys_clean [OF assms(1,2)], of ?st "length (cf_loggers ?cfg)"]
      logger_keys_printed [OF assms(1,2)] by simp
  with sec show ?thesis by (simp add: logger_lines_def o_def)
qed

lemma parse_handler_sections:
  assumes "list_all cfg_handler_ok hs" "list_all clean_handler hs" "length (cf_handlers (ps_cfg st)) + length hs \<le> LMK_CFG_MAX_HANDLERS"
  shows "ps_cfg (fold parse_line (map (\<lambda>l. l @ [CHR 0x0A]) (concat (map handler_lines hs))) st) =
    (ps_cfg st)\<lparr>cf_handlers := cf_handlers (ps_cfg st) @ hs\<rparr>"
  using assms by (induction hs arbitrary: st) (simp_all add: parse_handler_section)

lemma parse_logger_sections:
  assumes "list_all cfg_logger_ok ls" "list_all clean_logger ls" "length (cf_loggers (ps_cfg st)) + length ls \<le> LMK_CFG_MAX_LOGGERS"
  shows "ps_cfg (fold parse_line (map (\<lambda>l. l @ [CHR 0x0A]) (concat (map logger_lines ls))) st) =
    (ps_cfg st)\<lparr>cf_loggers := cf_loggers (ps_cfg st) @ ls\<rparr>"
  using assms by (induction ls arbitrary: st) (simp_all add: parse_logger_section)

lemma parse_global_section:
  assumes "int_range (cf_log_buffer_size cfg)" "int_range (cf_ring_buffer_size cfg)"
  shows "ps_cfg (fold parse_line (map (\<lambda>l. l @ [CHR 0x0A]) (global_lines cfg)) (parse_start zero_cfg)) =
    zero_cfg\<lparr>cf_log_buffer_size := cf_log_buffer_size cfg, cf_ring_buffer_size := cf_ring_buffer_size cfg\<rparr>"
proof -
  have "clean ''global''" by (simp add: clean_def trimmed_def isspace_def)
  then have "parse_line (''[global]'' @ [CHR 0x0A]) (parse_start zero_cfg) = (parse_start zero_cfg)\<lparr>ps_section := LMK_SEC_GLOBAL\<rparr>"
    using parse_section_line [of "''global''" "parse_start zero_cfg"] by (simp add: parse_section_def parse_start_def)
  moreover have "parse_line (key_line (k, dec_int i) @ [CHR 0x0A]) st = parse_key k (dec_int i) st" if "key_ok k" for k i st
    using parse_key_line [of "(k, dec_int i)" st] that dec_int_clean by simp
  ultimately show ?thesis
    using assms by (simp add: global_lines_def key_ok_simps parse_key_def set_global_key_simps parse_start_def Let_def atoi_dec_int)
qed

lemma key_line_chars: "kv_ok kv \<Longrightarrow> CHR 0x0A \<notin> set (key_line kv) \<and> NUL \<notin> set (key_line kv)"
  by (auto simp: key_line_def kv_ok_def key_ok_def clean_def)

lemma printed_lines_chars:
  assumes "printable cfg"
  shows "list_all (\<lambda>l. CHR 0x0A \<notin> set l \<and> NUL \<notin> set l) (cfg_text_lines cfg)"
proof -
  have "list_all (\<lambda>l. CHR 0x0A \<notin> set l \<and> NUL \<notin> set l) (handler_lines h)" if "h \<in> set (cf_handlers cfg)" for h
  proof -
    have "clean_handler h" using assms that by (auto simp: printable_def list_all_iff)
    moreover from this have "clean (ch_name h)" by (simp add: clean_handler_def)
    ultimately show ?thesis
      using handler_keys_clean [of h] key_line_chars by (auto simp: handler_lines_def list_all_iff clean_def)
  qed
  moreover have "list_all (\<lambda>l. CHR 0x0A \<notin> set l \<and> NUL \<notin> set l) (logger_lines l)" if "l \<in> set (cf_loggers cfg)" for l
  proof -
    have "clean_logger l" "cfg_logger_ok l" using assms that by (auto simp: printable_def cfg_ok_def list_all_iff)
    moreover from this have "clean (cg_name l)" by (simp add: clean_logger_def)
    ultimately show ?thesis
      using logger_keys_clean [of l] key_line_chars by (auto simp: logger_lines_def list_all_iff clean_def)
  qed
  moreover have "list_all (\<lambda>l. CHR 0x0A \<notin> set l \<and> NUL \<notin> set l) (global_lines cfg)"
    using dec_int_clean(1) by (auto simp: global_lines_def key_line_def clean_def)
  ultimately show ?thesis by (auto simp: cfg_text_lines_def list_all_iff)
qed

lemma parse_print:
  assumes "printable cfg"
  shows "lmk_cfg_parse_file (Some (print_cfg cfg)) zero_cfg = (LMK_E_OK, cfg)"
proof -
  have lines: "config_lines (print_cfg cfg) = map (\<lambda>l. l @ [CHR 0x0A]) (cfg_text_lines cfg)"
    using printed_lines_chars [OF assms] assms unfolding print_cfg_def
    by (intro config_lines_concat) (auto simp: printable_def list_all_iff)
  have ok: "list_all cfg_handler_ok (cf_handlers cfg)" "list_all clean_handler (cf_handlers cfg)" "list_all cfg_logger_ok (cf_loggers cfg)"
    "list_all clean_logger (cf_loggers cfg)" "length (cf_handlers cfg) \<le> LMK_CFG_MAX_HANDLERS" "length (cf_loggers cfg) \<le> LMK_CFG_MAX_LOGGERS"
    using assms by (simp_all add: printable_def cfg_ok_def)
  define st1 where "st1 = fold parse_line (map (\<lambda>l. l @ [CHR 0x0A]) (global_lines cfg)) (parse_start zero_cfg)"
  define st2 where "st2 = fold parse_line (map (\<lambda>l. l @ [CHR 0x0A]) (concat (map handler_lines (cf_handlers cfg)))) st1"
  have 1: "ps_cfg st1 = zero_cfg\<lparr>cf_log_buffer_size := cf_log_buffer_size cfg, cf_ring_buffer_size := cf_ring_buffer_size cfg\<rparr>"
    unfolding st1_def by (rule parse_global_section) (use assms in \<open>simp_all add: printable_def cfg_ok_def\<close>)
  have 2: "ps_cfg st2 = (ps_cfg st1)\<lparr>cf_handlers := cf_handlers cfg\<rparr>"
    using parse_handler_sections [OF ok(1,2), of st1] ok(5) by (simp add: st2_def 1 zero_cfg_def)
  have "ps_cfg (fold parse_line (map (\<lambda>l. l @ [CHR 0x0A]) (concat (map logger_lines (cf_loggers cfg)))) st2) =
      (ps_cfg st2)\<lparr>cf_loggers := cf_loggers cfg\<rparr>"
    using parse_logger_sections [OF ok(3,4), of st2] ok(6) by (simp add: 2 1 zero_cfg_def)
  also have "\<dots> = cfg" by (simp add: 2 1 zero_cfg_def)
  finally show ?thesis by (simp add: lmk_cfg_parse_file_def lines cfg_text_lines_def st1_def st2_def)
qed

section \<open>Properties\<close>

text \<open>
  C33. The parser stays inside its arrays on every input, well-formed or not: each buffer \<open>fgets\<close>
  fills holds a string shorter than \<open>LMK_CFG_LINE_MAX\<close>, after every line the current handler and
  logger are entries in use, and the configuration never exceeds 32 handlers, 64 loggers, 16
  listeners per handler and 16 handler names per logger, with every string shorter than its array,
  every name non-empty, every type and level valid or marked as not given, and every number in the
  range of its C type.
\<close>

theorem config_parser_bounds:
  "list_all (\<lambda>line. length line < LMK_CFG_LINE_MAX) (config_lines bytes) \<and>
   (\<forall>n. parse_ok (fold parse_line (take n (config_lines bytes)) (parse_start zero_cfg))) \<and>
   cfg_ok (snd (lmk_cfg_parse_file (Some bytes) zero_cfg))"
  using config_lines_fit parse_lines_ok [OF parse_start_ok] parse_file_ok by (auto simp: list_all_iff)

text \<open>
  C34. Parsing inverts printing: a configuration whose strings can be written on a line (no line
  breaks or surrounding white space, no bracket in a section name, no comma in a handler name) and
  fit the parser's arrays and line buffer, and whose numbers are in the range of their C types, is read back exactly from its text in the documented file
  format: sizes, sections in order, levels and types from their words, numbers, listeners with
  their last colon, and comma-separated handler names.
\<close>

theorem config_parse_print:
  assumes "printable cfg"
  shows "lmk_cfg_parse_file (Some (print_cfg cfg)) zero_cfg = (LMK_E_OK, cfg)"
  by (rule parse_print [OF assms])

definition sample_cfg :: lmk_cfg where
  "sample_cfg = \<lparr>cf_log_buffer_size = 4096, cf_ring_buffer_size = 256,
     cf_handlers = [(new_cfg_handler ''net'')\<lparr>ch_type := 2, ch_level := 3, ch_psk := ''a=b c'',
       ch_listeners := [\<lparr>cl_host = ''10.0.0.1'', cl_port = 9000\<rparr>]\<rparr>, new_cfg_handler ''disk''],
     cf_loggers = [\<lparr>cg_name = ''app'', cg_level = 1, cg_handler_names = [''net'', ''disk'']\<rparr>]\<rparr>"

lemma length_dec_nat: "n < 10 ^ Suc k \<Longrightarrow> length (dec_nat n) \<le> Suc k"
proof (induction k arbitrary: n)
  case 0
  then show ?case by (simp add: dec_nat.simps)
next
  case (Suc k)
  have "n div 10 < 10 ^ Suc k" using Suc.prems by (auto intro: div_less_iff_less_mult [THEN iffD2])
  then show ?case using Suc.IH [of "n div 10"] by (subst dec_nat.simps) simp
qed

lemma length_dec_int: "\<bar>i\<bar> < 10 ^ 10 \<Longrightarrow> length (dec_int i) \<le> 11"
proof -
  assume "\<bar>i\<bar> < 10 ^ 10"
  then have "nat \<bar>i\<bar> < 10 ^ Suc 9" by simp
  from length_dec_nat [OF this] show ?thesis by (auto simp: dec_int_def)
qed

lemma sample_cfg_lines: "list_all (\<lambda>l. length l < LMK_CFG_LINE_MAX - 1) (cfg_text_lines sample_cfg)"
  using length_dec_int [of 4096] length_dec_int [of 256] length_dec_int [of 9000] length_dec_int [of 0]
  by (simp add: cfg_text_lines_def global_lines_def handler_lines_def logger_lines_def handler_keys_def logger_keys_def key_line_def
      sample_cfg_def new_cfg_handler_def strncpy_into_def emit_if_def LMK_CFG_LINE_MAX_def lmk_get_log_handler_type_str_def
      g_log_hnd_type_str_def lmk_get_log_level_str_def g_log_level_str_def level_defs)

theorem config_parse_print_witness:
  "printable sample_cfg \<and> lmk_cfg_parse_file (Some (print_cfg sample_cfg)) zero_cfg = (LMK_E_OK, sample_cfg)"
proof -
  have "cfg_ok sample_cfg"
    by (simp add: cfg_ok_def sample_cfg_def cfg_handler_ok_def cfg_logger_ok_def new_cfg_handler_def strncpy_into_def cfg_level_ok_def
        LMK_IS_VALID_LOG_LEVEL_def level_defs LMK_CFG_MAX_HANDLERS_def LMK_CFG_MAX_LOGGERS_def LMK_CFG_MAX_LISTENERS_def
        LMK_CFG_MAX_HANDLERS_PER_LOGGER_def int_range_def long_range_def)
  moreover have "list_all clean_handler (cf_handlers sample_cfg)" "list_all clean_logger (cf_loggers sample_cfg)"
    by (simp_all add: sample_cfg_def clean_handler_def clean_logger_def clean_def trimmed_def isspace_def new_cfg_handler_def strncpy_into_def)
  ultimately have p: "printable sample_cfg" using sample_cfg_lines by (simp add: printable_def)
  show ?thesis using config_parse_print [OF p] p by simp
qed

end
