(* ===== verification/Config_File.thy ===== *)
theory Config_File
  imports Config_Parser Registry_Invariant
begin

text \<open>
  Initialisation and the application of a configuration (\<open>logmoko_config_file.c\<close>, second half,
  \<open>logmoko_config.c\<close> and \<open>lmk_init\<close> of \<open>logmoko.c\<close>). \<open>sys k s\<close> is what the system answers to the
  \<open>k\<close>-th of the calls that allocate, made when the registry is \<open>s\<close>; the counter is threaded through.
  A configuration file is read from the files of the registry; one that is absent cannot be opened.
  \<open>pton\<close> and \<open>sha\<close> are \<open>inet_pton\<close> and SHA-256.
\<close>

section \<open>Application\<close>

definition LMK_CFG_DEFAULT_RING_BUFFER_SIZE :: u32 where "LMK_CFG_DEFAULT_RING_BUFFER_SIZE = 1024"
definition LMK_CFG_DEFAULT_LOG_BUFFER_SIZE :: u32 where "LMK_CFG_DEFAULT_LOG_BUFFER_SIZE = 2048"

type_synonym system = "nat \<Rightarrow> registry \<Rightarrow> env"
type_synonym machine = "nat \<times> registry"

text \<open>\<open>s[0] ? s : NULL\<close>.\<close>

definition or_null :: "string \<Rightarrow> string option" where
  "or_null s = (if s = [] then None else Some s)"

text \<open>Whether an allocation that is not a handler or a logger succeeds.\<close>

definition malloc_ok :: "env \<Rightarrow> bool" where
  "malloc_ok e \<longleftrightarrow> env_ptr e \<noteq> None"

fun attach_listeners :: "system \<Rightarrow> (string \<Rightarrow> u32 option) \<Rightarrow> addr option \<Rightarrow> lmk_cfg_listener list \<Rightarrow> machine \<Rightarrow> machine option" where
  "attach_listeners sys pton handler [] (k, s) = Some (k, s)"
| "attach_listeners sys pton handler (l # ls) (k, s) = do {
     s' \<leftarrow> update_handler handler (lmk_attach_log_listener pton (malloc_ok (sys k s)) (Some (cl_host l)) (cl_port l)) s;
     attach_listeners sys pton handler ls (Suc k, s') }"

text \<open>The branch on the type: the handler, or \<open>NULL\<close>, and the settings only its type has.\<close>

definition make_handler ::
  "system \<Rightarrow> (string \<Rightarrow> u32 option) \<Rightarrow> (string \<Rightarrow> bytes) \<Rightarrow> lmk_cfg_handler \<Rightarrow> machine \<Rightarrow> (addr option \<times> machine) option" where
  "make_handler sys pton sha ch m =
     (case m of (k, s) \<Rightarrow>
        if ch_type ch = handler_type_code CONSOLE then do {
          (handler, s) \<leftarrow> lmk_get_console_log_handler (sys k s) s;
          Some (handler, Suc k, s) }
        else if ch_type ch = handler_type_code FILE then do {
          (handler, s) \<leftarrow> lmk_get_file_log_handler (sys k s) (Some (ch_name ch)) (or_null (ch_filename ch)) s;
          s \<leftarrow> (if ch_max_file_size ch > 0 \<or> ch_max_backup_files ch > 0
               then update_handler handler (lmk_set_log_rotation
                 (if ch_max_file_size ch > 0 then ch_max_file_size ch else LMK_DEFAULT_MAX_FILE_SIZE)
                 (if ch_max_backup_files ch > 0 then ch_max_backup_files ch else LMK_DEFAULT_MAX_BACKUP_FILES)) s
               else Some s);
          Some (handler, Suc k, s) }
        else if ch_type ch = handler_type_code SYSLOG then do {
          (handler, s) \<leftarrow> lmk_get_syslog_log_handler (sys k s) (Some (ch_name ch)) (or_null (ch_ident ch))
            (lmk_parse_syslog_facility (or_null (ch_facility ch))) s;
          Some (handler, Suc k, s) }
        else if ch_type ch = handler_type_code SOCKET then do {
          (handler, s) \<leftarrow> lmk_get_socket_log_handler (sys k s) (Some (ch_name ch)) s;
          s \<leftarrow> (if ch_psk ch \<noteq> [] then update_handler handler (lmk_set_socket_psk sha (Some (ch_psk ch))) s else Some s);
          m \<leftarrow> attach_listeners sys pton handler (ch_listeners ch) (Suc k, s);
          Some (handler, m) }
        else Some (None, k, s))"

definition apply_handler ::
  "system \<Rightarrow> (string \<Rightarrow> u32 option) \<Rightarrow> (string \<Rightarrow> bytes) \<Rightarrow> lmk_cfg_handler \<Rightarrow> machine \<Rightarrow> machine option" where
  "apply_handler sys pton sha ch m =
     (if ch_type ch < 0 then Some m
      else do {
        (handler, k, s) \<leftarrow> make_handler sys pton sha ch m;
        s \<leftarrow> (if ch_level ch \<noteq> -1 then update_handler handler (lmk_set_handler_log_level (ch_level ch)) s else Some s);
        s \<leftarrow> (if ch_format ch \<noteq> []
             then update_handler handler (lmk_set_log_format (lmk_get_format_fn (Some (ch_format ch)))) s else Some s);
        Some (k, s) })"

fun attach_names :: "system \<Rightarrow> addr option \<Rightarrow> string list \<Rightarrow> machine \<Rightarrow> machine option" where
  "attach_names sys logger [] (k, s) = Some (k, s)"
| "attach_names sys logger (n # ns) (k, s) = do {
     handler \<leftarrow> lmk_search_log_handler_by_name (Some n) s;
     case handler of
       None \<Rightarrow> attach_names sys logger ns (k, s)
     | Some q \<Rightarrow> do {
         (rc, s') \<leftarrow> lmk_attach_log_handler (malloc_ok (sys k s)) logger (Some q) s;
         attach_names sys logger ns (Suc k, s') } }"

definition apply_logger :: "system \<Rightarrow> lmk_cfg_logger \<Rightarrow> machine \<Rightarrow> machine option" where
  "apply_logger sys cl m =
     (case m of (k, s) \<Rightarrow> do {
        (logger, s) \<leftarrow> lmk_get_logger (sys k s) (Some (cg_name cl)) s;
        case logger of
          None \<Rightarrow> Some (Suc k, s)
        | Some p \<Rightarrow> do {
            s \<leftarrow> (if cg_level cl \<noteq> -1 then lmk_set_log_level (Some p) (cg_level cl) s else Some s);
            attach_names sys (Some p) (cg_handler_names cl) (Suc k, s) } })"

text \<open>A loop of fallible steps.\<close>

fun each :: "('a \<Rightarrow> 's \<Rightarrow> 's option) \<Rightarrow> 'a list \<Rightarrow> 's \<Rightarrow> 's option" where
  "each f [] s = Some s"
| "each f (x # xs) s = do { s \<leftarrow> f x s; each f xs s }"

text \<open>The sizes: what the file gives if it is positive, else the default. \<open>None\<close> is a \<open>NULL\<close>
  configuration.\<close>

definition apply_sizes :: "lmk_cfg \<Rightarrow> registry \<Rightarrow> registry option" where
  "apply_sizes cfg s = do {
     c \<leftarrow> rg_config s;
     Some (s\<lparr>rg_config := Some (c\<lparr>
       cfg_log_buffer_size := (if cf_log_buffer_size cfg > 0 then of_int (cf_log_buffer_size cfg) else LMK_CFG_DEFAULT_LOG_BUFFER_SIZE),
       cfg_ring_buffer_size := (if cf_ring_buffer_size cfg > 0 then of_int (cf_ring_buffer_size cfg) else LMK_CFG_DEFAULT_RING_BUFFER_SIZE)\<rparr>)\<rparr>) }"

definition lmk_cfg_apply ::
  "system \<Rightarrow> (string \<Rightarrow> u32 option) \<Rightarrow> (string \<Rightarrow> bytes) \<Rightarrow> lmk_cfg \<Rightarrow> machine \<Rightarrow> machine option" where
  "lmk_cfg_apply sys pton sha cfg m =
     (case m of (k, s) \<Rightarrow> do {
        s \<leftarrow> apply_sizes cfg s;
        m \<leftarrow> each (apply_handler sys pton sha) (cf_handlers cfg) (k, s);
        each (apply_logger sys) (cf_loggers cfg) m })"

definition lmk_parse_and_apply ::
  "system \<Rightarrow> (string \<Rightarrow> u32 option) \<Rightarrow> (string \<Rightarrow> bytes) \<Rightarrow> string \<Rightarrow> machine \<Rightarrow> (int \<times> machine) option" where
  "lmk_parse_and_apply sys pton sha path m =
     (let (rc, cfg) = lmk_cfg_parse_file (rg_files (snd m) path) zero_cfg
      in if rc \<noteq> LMK_E_OK then Some (LMK_E_NG, m)
         else do { m \<leftarrow> lmk_cfg_apply sys pton sha cfg m; Some (LMK_E_OK, m) })"

section \<open>Initialisation\<close>

text \<open>\<open>env_path\<close> is \<open>getenv("LMK_CONFIG_FILE")\<close>.\<close>

definition lmk_apply_auto_config ::
  "system \<Rightarrow> (string \<Rightarrow> u32 option) \<Rightarrow> (string \<Rightarrow> bytes) \<Rightarrow> string option \<Rightarrow> machine \<Rightarrow> (int \<times> machine) option" where
  "lmk_apply_auto_config sys pton sha env_path m =
     (case env_path of
        Some path \<Rightarrow> lmk_parse_and_apply sys pton sha path m
      | None \<Rightarrow> lmk_parse_and_apply sys pton sha ''logmoko.conf'' m)"

definition lmk_create_config :: "env \<Rightarrow> lmk_config option" where
  "lmk_create_config e = (if malloc_ok e then Some \<lparr>cfg_log_buffer_size = 0, cfg_ring_buffer_size = 0\<rparr> else None)"

text \<open>The last lines of \<open>lmk_init\<close>: sizes that are still zero get their defaults.\<close>

definition default_sizes :: "lmk_config \<Rightarrow> lmk_config" where
  "default_sizes c =
     (let c = (if cfg_log_buffer_size c \<le> 0 then c\<lparr>cfg_log_buffer_size := LMK_CFG_DEFAULT_LOG_BUFFER_SIZE\<rparr> else c)
      in if cfg_ring_buffer_size c \<le> 0 then c\<lparr>cfg_ring_buffer_size := LMK_CFG_DEFAULT_RING_BUFFER_SIZE\<rparr> else c)"

definition lmk_init ::
  "system \<Rightarrow> (string \<Rightarrow> u32 option) \<Rightarrow> (string \<Rightarrow> bytes) \<Rightarrow> string option \<Rightarrow> machine \<Rightarrow> machine option" where
  "lmk_init sys pton sha env_path m =
     (case m of (k, s) \<Rightarrow>
        if rg_initialized s then Some (k, s)
        else
          let s' = s\<lparr>rg_loggers := [], rg_handlers := [], rg_config := lmk_create_config (sys k s)\<rparr>
          in if rg_config s' = None
             then Some (Suc k, s'\<lparr>rg_stderr := rg_stderr s' @ [''Unable to allocate config'', ''Unable to initialize'' @ [CHR 0x0A]]\<rparr>)
             else do {
               (rc, k, s) \<leftarrow> lmk_apply_auto_config sys pton sha env_path (Suc k, s'\<lparr>rg_initialized := True\<rparr>);
               c \<leftarrow> rg_config s;
               Some (k, s\<lparr>rg_config := Some (default_sizes c)\<rparr>) })"

definition lmk_init_from_file ::
  "system \<Rightarrow> (string \<Rightarrow> u32 option) \<Rightarrow> (string \<Rightarrow> bytes) \<Rightarrow> string option \<Rightarrow> string option \<Rightarrow> machine \<Rightarrow> (int \<times> machine) option" where
  "lmk_init_from_file sys pton sha env_path path m = do {
     m \<leftarrow> lmk_init sys pton sha env_path m;
     case path of
       None \<Rightarrow> lmk_apply_auto_config sys pton sha env_path m
     | Some path \<Rightarrow> do {
         (rc, k, s) \<leftarrow> lmk_parse_and_apply sys pton sha path m;
         if rc \<noteq> LMK_E_OK
         then Some (LMK_E_NG, k, s\<lparr>rg_stderr := rg_stderr s @ [''logmoko: unable to open config file: '' @ path @ [CHR 0x0A]]\<rparr>)
         else Some (LMK_E_OK, k, s) } }"

section \<open>What application does\<close>

text \<open>\<open>malloc\<close> returns unused addresses or \<open>NULL\<close>; the strings a new handler owns can always be copied
  (where they cannot, the code goes on with a \<open>NULL\<close> name or file name, which is undefined); no
  allocation and no \<open>pthread_create\<close> fails.\<close>

definition allocator :: "system \<Rightarrow> bool" where
  "allocator sys \<longleftrightarrow> (\<forall>k s. fresh_env (sys k s) s)"

definition strings_copied :: "system \<Rightarrow> bool" where
  "strings_copied sys \<longleftrightarrow> (\<forall>k s. copies_ok (sys k s))"

definition ample :: "system \<Rightarrow> bool" where
  "ample sys \<longleftrightarrow> allocator sys \<and> strings_copied sys \<and>
     (\<forall>k s. env_ptr (sys k s) \<noteq> None \<and> env_ring_ok (sys k s) \<and> env_thread_ok (sys k s))"

abbreviation hname :: "registry \<Rightarrow> addr \<Rightarrow> string option" where
  "hname s q \<equiv> lh_name (the (rg_handler s q))"

definition names :: "registry \<Rightarrow> string option set" where
  "names s = hname s ` set (rg_handlers s)"

text \<open>The name a handler section leads to, and whether it leads to a handler at all.\<close>

definition section_name :: "lmk_cfg_handler \<Rightarrow> string" where
  "section_name ch = (if ch_type ch = handler_type_code CONSOLE then ''console'' else ch_name ch)"

definition makes_handler :: "lmk_cfg_handler \<Rightarrow> bool" where
  "makes_handler ch \<longleftrightarrow> ch_type ch \<in> {0, 1, 2, 3} \<and> (ch_type ch = handler_type_code FILE \<longrightarrow> ch_filename ch \<noteq> [])"

text \<open>Loggers and sizes stay as they are; handlers are only added, with names from \<open>N\<close>, and keep their
  names; those with other names do not change at all.\<close>

definition grows :: "string set \<Rightarrow> registry \<Rightarrow> registry \<Rightarrow> bool" where
  "grows N s s' \<longleftrightarrow> reg_inv s' \<and> rg_loggers s' = rg_loggers s \<and> rg_logger s' = rg_logger s \<and> rg_config s' = rg_config s \<and>
     (\<exists>qs. rg_handlers s' = rg_handlers s @ qs) \<and>
     (\<forall>q\<in>set (rg_handlers s). hname s' q = hname s q \<and> (hname s q \<notin> Some ` N \<longrightarrow> rg_handler s' q = rg_handler s q)) \<and>
     names s' \<subseteq> names s \<union> Some ` N"

text \<open>A pointer that is \<open>NULL\<close> or to a live handler with a name from \<open>N\<close>.\<close>

definition points :: "string set \<Rightarrow> addr option \<Rightarrow> registry \<Rightarrow> bool" where
  "points N q s \<longleftrightarrow> (\<forall>a. q = Some a \<longrightarrow> a \<in> set (rg_handlers s) \<and> hname s a \<in> Some ` N)"

lemma points_ptr: "points N q s \<Longrightarrow> handler_ptr q s"
  by (simp add: points_def handler_ptr_def)

lemma grows_refl: "reg_inv s \<Longrightarrow> grows N s s"
  by (simp add: grows_def)

lemma grows_trans:
  assumes "grows N s s'" "grows N s' s''"
  shows "grows N s s''"
proof -
  have "set (rg_handlers s) \<subseteq> set (rg_handlers s')" using assms(1) by (auto simp: grows_def)
  then have "\<forall>q\<in>set (rg_handlers s). hname s'' q = hname s q \<and> (hname s q \<notin> Some ` N \<longrightarrow> rg_handler s'' q = rg_handler s q)"
    using assms unfolding grows_def by (metis subset_iff)
  then show ?thesis using assms unfolding grows_def by auto
qed

lemma grows_mono: "grows M s s' \<Longrightarrow> M \<subseteq> N \<Longrightarrow> grows N s s'"
  unfolding grows_def by blast

lemma grows_points: "grows N s s' \<Longrightarrow> points N q s \<Longrightarrow> points N q s'"
  unfolding grows_def points_def by auto

lemma grows_inv: "grows N s s' \<Longrightarrow> reg_inv s'"
  by (simp add: grows_def)

lemma grows_names: "grows N s s' \<Longrightarrow> names s \<subseteq> names s'"
proof -
  assume "grows N s s'"
  then have "set (rg_handlers s) \<subseteq> set (rg_handlers s')" "\<forall>q\<in>set (rg_handlers s). hname s' q = hname s q"
    by (auto simp: grows_def)
  then show ?thesis by (force simp: names_def)
qed

definition in_place :: "(lmk_log_handler \<Rightarrow> lmk_log_handler) \<Rightarrow> bool" where
  "in_place f \<longleftrightarrow> (\<forall>h. same_handler h (f h))"

lemma setters_in_place:
  "in_place (lmk_set_handler_log_level l)" "in_place (lmk_set_log_format fn)" "in_place (lmk_set_log_rotation a b)"
  "in_place (lmk_set_socket_psk sha p)" "in_place (lmk_attach_log_listener pton m host port)"
  using setter_same [of _ _ _ "Set_level l"] setter_same [of _ _ _ "Set_format fn"] setter_same [of _ _ _ "Set_rotation a b"]
    setter_same [of _ _ sha "Set_psk p"] setter_same [of _ pton _ "Attach_listener m host port"]
  by (simp_all add: in_place_def)

lemma update_grows:
  assumes inv: "reg_inv s" and q: "points N q s" and same: "in_place f"
  shows "\<exists>s'. update_handler q f s = Some s' \<and> grows N s s' \<and> points N q s'"
proof -
  obtain s' where s': "update_handler q f s = Some s'" "reg_inv s'"
    using update_handler_inv [OF inv points_ptr [OF q]] same by (auto simp: in_place_def)
  show ?thesis
  proof (cases q)
    case None
    then show ?thesis using s' inv q by (auto simp: update_handler_def grows_refl)
  next
    case (Some a)
    then have a: "a \<in> set (rg_handlers s)" "hname s a \<in> Some ` N" using q by (simp_all add: points_def)
    then obtain h where h: "rg_handler s a = Some h" using reg_inv_live(2) [OF inv] by blast
    then have e: "s' = s\<lparr>rg_handler := (rg_handler s)(a \<mapsto> f h)\<rparr>" using s'(1) Some by (simp add: update_handler_def)
    have "\<forall>x. hname s' x = hname s x" using e h same by (simp add: in_place_def same_handler_def)
    moreover from this e a have "\<forall>x. hname s x \<notin> Some ` N \<longrightarrow> rg_handler s' x = rg_handler s x" by auto
    ultimately have "grows N s s'" using s'(2) e by (simp add: grows_def names_def)
    then show ?thesis using s'(1) grows_points q by blast
  qed
qed

lemma constructs_grows:
  assumes inv: "reg_inv s" "fresh_env e s" and c: "constructs e n s res" and n: "n \<in> N"
  shows "\<exists>r s'. res = Some (r, s') \<and> grows N s s' \<and> points N r s' \<and>
    (env_ptr e \<noteq> None \<and> env_ring_ok e \<and> env_thread_ok e \<longrightarrow> Some n \<in> names s')"
proof (cases "find (\<lambda>q. hname s q = Some n) (rg_handlers s)")
  case (Some q)
  then have "res = Some (Some q, s)" "q \<in> set (rg_handlers s)" "hname s q = Some n"
    using c find_SomeD [OF Some] by (simp_all add: constructs_def)
  then show ?thesis using n grows_refl [OF inv(1)] by (auto simp: points_def names_def intro!: rev_image_eqI)
next
  case None
  show ?thesis
  proof (cases "env_ptr e")
    case (Some p)
    then obtain h fs where h: "fresh_handler n h" "env_ring_ok e \<and> env_thread_ok e \<longrightarrow> lh_ring h \<noteq> None"
      and res: "res = Some (publish_handler p h (s\<lparr>rg_files := fs\<rparr>))"
      using c None unfolding constructs_def by (simp only: option.case) metis
    obtain r s' where rs: "publish_handler p h (s\<lparr>rg_files := fs\<rparr>) = (r, s')" by fastforce
    have "reg_inv s'" using constructs_inv [OF inv] c res rs by simp
    moreover have "p \<notin> set (rg_handlers s)" using inv(2) Some by (simp add: fresh_env_def)
    moreover have "lh_name h = Some n" using h(1) by (simp add: fresh_handler_def)
    ultimately have "grows N s s' \<and> points N r s' \<and> (lh_ring h \<noteq> None \<longrightarrow> Some n \<in> names s')"
      using rs n by (auto simp: publish_handler_def grows_def points_def names_def split: if_splits)
    then show ?thesis using res rs h(2) by auto
  next
    case 2: None
    then show ?thesis using c None grows_refl [OF inv(1)] by (auto simp: constructs_def points_def)
  qed
qed

lemma allocator_fresh: "allocator sys \<Longrightarrow> fresh_env (sys k s) s"
  by (simp add: allocator_def)

lemma strings_copied_ok: "strings_copied sys \<Longrightarrow> copies_ok (sys k s)"
  by (simp add: strings_copied_def)

lemma attach_listeners_grows:
  assumes "reg_inv s" "points N q s"
  shows "\<exists>k' s'. attach_listeners sys pton q ls (k, s) = Some (k', s') \<and> grows N s s' \<and> points N q s'"
  using assms
proof (induction ls arbitrary: k s)
  case Nil
  then show ?case by (simp add: grows_refl)
next
  case (Cons l ls)
  from update_grows [OF Cons.prems setters_in_place(5)] obtain s1 where
    s1: "update_handler q (lmk_attach_log_listener pton (malloc_ok (sys k s)) (Some (cl_host l)) (cl_port l)) s = Some s1"
    "grows N s s1" "points N q s1" by blast
  from Cons.IH [OF grows_inv [OF s1(2)] s1(3), of "Suc k"] show ?case
    using s1 grows_trans [OF s1(2)] by auto
qed

lemma update_if_grows:
  assumes "reg_inv s" "points N q s" "in_place f"
  shows "\<exists>s'. (if b then update_handler q f s else Some s) = Some s' \<and> grows N s s' \<and> points N q s'"
  using update_grows [OF assms] assms(1,2) grows_refl by auto

text \<open>The three kinds of sections that do more than one call or differ in their calls.\<close>

definition section_made :: "string set \<Rightarrow> system \<Rightarrow> lmk_cfg_handler \<Rightarrow> registry \<Rightarrow> (addr option \<times> machine) option \<Rightarrow> bool" where
  "section_made N sys ch s res \<longleftrightarrow> (\<exists>r k' s'. res = Some (r, k', s') \<and> grows N s s' \<and> points N r s' \<and>
     (ample sys \<and> makes_handler ch \<longrightarrow> Some (section_name ch) \<in> names s'))"

lemma section_constructs:
  assumes inv: "reg_inv s" and sys: "allocator sys" "strings_copied sys" and "constructs (sys k s) n s res" "n \<in> N"
  shows "\<exists>r s1. res = Some (r, s1) \<and> grows N s s1 \<and> points N r s1 \<and> (ample sys \<longrightarrow> Some n \<in> names s1)"
proof -
  have "env_ptr (sys k s) \<noteq> None \<and> env_ring_ok (sys k s) \<and> env_thread_ok (sys k s)" if "ample sys"
    using that unfolding ample_def by blast
  with constructs_grows [OF inv allocator_fresh [OF sys(1)] assms(4,5)] show ?thesis by blast
qed

lemma file_constructs_grows:
  assumes inv: "reg_inv s" and sys: "allocator sys" "strings_copied sys" and "makes_handler ch \<longrightarrow> ch_name ch \<in> N" "ch_type ch = 1"
  shows "\<exists>r s1. lmk_get_file_log_handler (sys k s) (Some (ch_name ch)) (or_null (ch_filename ch)) s = Some (r, s1) \<and> grows N s s1 \<and>
    points N r s1 \<and> (ample sys \<and> makes_handler ch \<longrightarrow> Some (ch_name ch) \<in> names s1)"
proof (cases "ch_filename ch = []")
  case True
  then show ?thesis using assms(5) grows_refl [OF inv]
    by (simp add: or_null_def lmk_get_file_log_handler_def points_def makes_handler_def)
next
  case False
  then have "ch_name ch \<in> N" and f: "or_null (ch_filename ch) = Some (ch_filename ch)"
    using assms(4,5) by (simp_all add: makes_handler_def or_null_def)
  from section_constructs [OF inv sys get_file_constructs [OF inv strings_copied_ok [OF sys(2), of k s], of "ch_name ch" "ch_filename ch"] this(1)]
  show ?thesis unfolding f by blast
qed

lemma make_file_grows:
  assumes inv: "reg_inv s" and sys: "allocator sys" "strings_copied sys" and N: "makes_handler ch \<longrightarrow> section_name ch \<in> N" and ty: "ch_type ch = 1"
  shows "section_made N sys ch s (make_handler sys pton sha ch (k, s))"
proof -
  have n: "section_name ch = ch_name ch" using ty by (simp add: section_name_def)
  from file_constructs_grows [OF inv sys N [unfolded n] ty, of k] obtain r s1 where
    s1: "lmk_get_file_log_handler (sys k s) (Some (ch_name ch)) (or_null (ch_filename ch)) s = Some (r, s1)"
    "grows N s s1" "points N r s1" "ample sys \<and> makes_handler ch \<longrightarrow> Some (ch_name ch) \<in> names s1" by blast
  let ?sz = "if ch_max_file_size ch > 0 then ch_max_file_size ch else LMK_DEFAULT_MAX_FILE_SIZE"
  let ?nb = "if ch_max_backup_files ch > 0 then ch_max_backup_files ch else LMK_DEFAULT_MAX_BACKUP_FILES"
  from update_if_grows [OF grows_inv [OF s1(2)] s1(3) setters_in_place(3), of "ch_max_file_size ch > 0 \<or> ch_max_backup_files ch > 0" ?sz ?nb]
  obtain s2 where s2: "(if ch_max_file_size ch > 0 \<or> ch_max_backup_files ch > 0
      then update_handler r (lmk_set_log_rotation ?sz ?nb) s1 else Some s1) = Some s2" "grows N s1 s2" "points N r s2" by blast
  have "make_handler sys pton sha ch (k, s) = Some (r, Suc k, s2)"
    unfolding make_handler_def prod.case using ty s1(1) s2(1) by (simp only: handler_type_code.simps) simp
  then show ?thesis
    using n s2(3) grows_trans [OF s1(2) s2(2)] s1(4) grows_names [OF s2(2)] by (auto simp: section_made_def)
qed

lemma make_socket_grows:
  assumes inv: "reg_inv s" and sys: "allocator sys" "strings_copied sys" and N: "makes_handler ch \<longrightarrow> section_name ch \<in> N" and ty: "ch_type ch = 2"
  shows "section_made N sys ch s (make_handler sys pton sha ch (k, s))"
proof -
  have n: "section_name ch = ch_name ch" "ch_name ch \<in> N" using N ty by (simp_all add: section_name_def makes_handler_def)
  from section_constructs [OF inv sys get_socket_constructs [OF inv strings_copied_ok [OF sys(2), of k s]] n(2)] obtain r s1 where
    s1: "lmk_get_socket_log_handler (sys k s) (Some (ch_name ch)) s = Some (r, s1)" "grows N s s1" "points N r s1"
    "ample sys \<longrightarrow> Some (ch_name ch) \<in> names s1" by blast
  from update_if_grows [OF grows_inv [OF s1(2)] s1(3) setters_in_place(4), of "ch_psk ch \<noteq> []" sha "Some (ch_psk ch)"] obtain s2 where
    s2: "(if ch_psk ch \<noteq> [] then update_handler r (lmk_set_socket_psk sha (Some (ch_psk ch))) s1 else Some s1) = Some s2"
    "grows N s1 s2" "points N r s2" by blast
  from attach_listeners_grows [OF grows_inv [OF s2(2)] s2(3), of sys pton "ch_listeners ch" "Suc k"] obtain k3 s3 where
    s3: "attach_listeners sys pton r (ch_listeners ch) (Suc k, s2) = Some (k3, s3)" "grows N s2 s3" "points N r s3" by blast
  have "make_handler sys pton sha ch (k, s) = Some (r, k3, s3)" using ty s1(1) s2(1) s3(1) by (simp add: make_handler_def)
  moreover have "ample sys \<longrightarrow> Some (ch_name ch) \<in> names s3" using s1(4) grows_names [OF s2(2)] grows_names [OF s3(2)] by blast
  ultimately show ?thesis using n s3(3) grows_trans [OF grows_trans [OF s1(2) s2(2)] s3(2)] by (simp add: section_made_def)
qed

lemma make_handler_grows:
  assumes inv: "reg_inv s" and sys: "allocator sys" "strings_copied sys" and N: "makes_handler ch \<longrightarrow> section_name ch \<in> N"
  shows "section_made N sys ch s (make_handler sys pton sha ch (k, s))"
proof -
  note copies = strings_copied_ok [OF sys(2), of k s]
  consider "ch_type ch = 0" | "ch_type ch = 1" | "ch_type ch = 3" | "ch_type ch = 2" | "ch_type ch \<notin> {0, 1, 2, 3}" by blast
  then show ?thesis
  proof cases
    case 1
    then have "''console'' \<in> N" using N by (simp add: section_name_def makes_handler_def)
    from section_constructs [OF inv sys get_console_constructs [OF inv copies] this] show ?thesis
      using 1 by (auto simp: section_made_def make_handler_def section_name_def)
  next
    case 3
    then have "ch_name ch \<in> N" using N by (simp add: section_name_def makes_handler_def)
    from section_constructs [OF inv sys get_syslog_constructs [OF inv copies, of "ch_name ch" "or_null (ch_ident ch)"
          "lmk_parse_syslog_facility (or_null (ch_facility ch))"] this] show ?thesis
      using 3 by (auto simp: section_made_def make_handler_def section_name_def)
  next
    case 5
    then show ?thesis using grows_refl [OF inv] by (simp add: section_made_def make_handler_def points_def makes_handler_def)
  qed (use make_file_grows [OF inv sys N] make_socket_grows [OF inv sys N] in blast)+
qed

lemma apply_handler_grows:
  assumes inv: "reg_inv s" and sys: "allocator sys" "strings_copied sys" and N: "makes_handler ch \<longrightarrow> section_name ch \<in> N"
  shows "\<exists>k' s'. apply_handler sys pton sha ch (k, s) = Some (k', s') \<and> grows N s s' \<and>
    (ample sys \<and> makes_handler ch \<longrightarrow> Some (section_name ch) \<in> names s')"
proof (cases "ch_type ch < 0")
  case True
  then show ?thesis using grows_refl [OF inv] by (auto simp: apply_handler_def makes_handler_def)
next
  case False
  from make_handler_grows [OF assms] obtain r k1 s1 where
    s1: "make_handler sys pton sha ch (k, s) = Some (r, k1, s1)" "grows N s s1" "points N r s1"
    "ample sys \<and> makes_handler ch \<longrightarrow> Some (section_name ch) \<in> names s1" unfolding section_made_def by blast
  from update_if_grows [OF grows_inv [OF s1(2)] s1(3) setters_in_place(1), of "ch_level ch \<noteq> -1" "ch_level ch"] obtain s2 where
    s2: "(if ch_level ch \<noteq> -1 then update_handler r (lmk_set_handler_log_level (ch_level ch)) s1 else Some s1) = Some s2"
    "grows N s1 s2" "points N r s2" by blast
  from update_if_grows [OF grows_inv [OF s2(2)] s2(3) setters_in_place(2), of "ch_format ch \<noteq> []" "lmk_get_format_fn (Some (ch_format ch))"]
  obtain s3 where
    s3: "(if ch_format ch \<noteq> [] then update_handler r (lmk_set_log_format (lmk_get_format_fn (Some (ch_format ch)))) s2 else Some s2) = Some s3"
    "grows N s2 s3" by blast
  have "apply_handler sys pton sha ch (k, s) = Some (k1, s3)" using False s1(1) s2(1) s3(1) by (simp add: apply_handler_def)
  then show ?thesis
    using grows_trans [OF grows_trans [OF s1(2) s2(2)] s3(2)] s1(4) grows_names [OF s2(2)] grows_names [OF s3(2)] by blast
qed

lemma apply_handlers_grows:
  assumes "reg_inv s" "allocator sys" "strings_copied sys" "section_name ` {ch \<in> set chs. makes_handler ch} \<subseteq> N"
  shows "\<exists>k' s'. each (apply_handler sys pton sha) chs (k, s) = Some (k', s') \<and> grows N s s' \<and>
    (ample sys \<longrightarrow> (\<forall>ch\<in>set chs. makes_handler ch \<longrightarrow> Some (section_name ch) \<in> names s'))"
  using assms(1,4)
proof (induction chs arbitrary: k s)
  case Nil
  then show ?case by (simp add: grows_refl)
next
  case (Cons ch chs)
  have ch: "makes_handler ch \<longrightarrow> section_name ch \<in> N" "section_name ` {ch \<in> set chs. makes_handler ch} \<subseteq> N" using Cons.prems(2) by auto
  from apply_handler_grows [OF Cons.prems(1) assms(2,3) ch(1)] obtain k1 s1 where
    s1: "apply_handler sys pton sha ch (k, s) = Some (k1, s1)" "grows N s s1"
    "ample sys \<and> makes_handler ch \<longrightarrow> Some (section_name ch) \<in> names s1" by blast
  from Cons.IH [OF grows_inv [OF s1(2)] ch(2), of k1] obtain k2 s2 where
    s2: "each (apply_handler sys pton sha) chs (k1, s1) = Some (k2, s2)" "grows N s1 s2"
    "ample sys \<longrightarrow> (\<forall>ch\<in>set chs. makes_handler ch \<longrightarrow> Some (section_name ch) \<in> names s2)" by blast
  then show ?case using s1 grows_trans [OF s1(2) s2(2)] grows_names [OF s2(2)] by (auto 0 3)
qed

text \<open>Attaching the handlers a logger section names: those that exist, and no others. Nothing of a handler
  changes but its count of references.\<close>

definition only_refs :: "registry \<Rightarrow> registry \<Rightarrow> bool" where
  "only_refs s s' \<longleftrightarrow> rg_config s' = rg_config s \<and> (\<forall>x. hname s' x = hname s x) \<and>
     (\<forall>x h. rg_handler s x = Some h \<longrightarrow> (\<exists>r. rg_handler s' x = Some (h\<lparr>lh_nr_logger_ref := r\<rparr>)))"

lemma handler_refs: "\<exists>r. h = h\<lparr>lh_nr_logger_ref := r\<rparr>"
  by (metis lmk_log_handler.surjective lmk_log_handler.update_convs(5))

lemma only_refs_frame: "rg_config s' = rg_config s \<Longrightarrow> rg_handler s' = rg_handler s \<Longrightarrow> only_refs s s'"
  unfolding only_refs_def using handler_refs by metis

lemma only_refs_refl: "only_refs s s"
  by (simp add: only_refs_frame)

lemma only_refs_trans: "only_refs s s' \<Longrightarrow> only_refs s' s'' \<Longrightarrow> only_refs s s''"
  unfolding only_refs_def by fastforce

lemma attach_effect:
  assumes inv: "reg_inv s" and l: "rg_logger s p = Some l" and q: "q \<in> set (rg_handlers s)"
  shows "\<exists>rc s' l'. lmk_attach_log_handler m (Some p) (Some q) s = Some (rc, s') \<and> reg_inv s' \<and>
    rg_loggers s' = rg_loggers s \<and> rg_handlers s' = rg_handlers s \<and> only_refs s s' \<and>
    rg_logger s' = (rg_logger s)(p \<mapsto> l') \<and> l' = l\<lparr>lg_refs := lg_refs l'\<rparr> \<and>
    (m \<longrightarrow> set (lg_refs l') = insert q (set (lg_refs l)))"
proof -
  obtain h where h: "rg_handler s q = Some h" using reg_inv_live(2) [OF inv q] by blast
  then have i: "lh_initialized h" using reg_invD(9) [OF inv] by (auto simp: reg_handler_ok_def)
  show ?thesis
  proof (cases "m \<and> q \<notin> set (lg_refs l)")
    case True
    define l' where "l' = l\<lparr>lg_refs := lg_refs l @ [q]\<rparr>"
    define s' where "s' = s\<lparr>rg_logger := (rg_logger s)(p \<mapsto> l'), rg_handler := (rg_handler s)(q \<mapsto> h\<lparr>lh_nr_logger_ref := lh_nr_logger_ref h + 1\<rparr>)\<rparr>"
    have run: "lmk_attach_log_handler m (Some p) (Some q) s = Some (LMK_E_OK, s')"
      using True l h i by (simp add: lmk_attach_log_handler_def s'_def l'_def)
    have refs: "only_refs s s'" using h by (auto simp: only_refs_def s'_def intro: handler_refs)
    show ?thesis using run attach_inv [OF inv run] refs by (intro exI [of _ LMK_E_OK] exI [of _ s'] exI [of _ l']) (simp add: s'_def l'_def)
  next
    case False
    then obtain rc where run: "lmk_attach_log_handler m (Some p) (Some q) s = Some (rc, s)"
      using l h i by (cases "q \<in> set (lg_refs l)") (simp_all add: lmk_attach_log_handler_def)
    show ?thesis using run False inv l by (intro exI [of _ rc] exI [of _ s] exI [of _ l]) (auto simp: map_upd_triv only_refs_refl)
  qed
qed

text \<open>The handlers of a registry that some name of the list calls for.\<close>

definition called :: "registry \<Rightarrow> string list \<Rightarrow> addr set" where
  "called s ns = {q \<in> set (rg_handlers s). \<exists>n\<in>set ns. hname s q = Some n}"

lemma called_Cons:
  assumes "reg_inv s"
  shows "called s (n # ns) = (case find (\<lambda>q. hname s q = Some n) (rg_handlers s) of None \<Rightarrow> {} | Some q \<Rightarrow> {q}) \<union> called s ns"
proof (cases "find (\<lambda>q. hname s q = Some n) (rg_handlers s)")
  case None
  have "\<forall>q\<in>set (rg_handlers s). hname s q \<noteq> Some n" using find_NoneD [OF None] .
  then show ?thesis using None by (auto simp: called_def)
next
  case (Some q)
  then have q: "q \<in> set (rg_handlers s)" "hname s q = Some n" using find_SomeD [OF Some] by blast+
  have "x = q" if "x \<in> set (rg_handlers s)" "hname s x = Some n" for x
    using that q reg_invD(13) [OF assms] by (auto simp: distinct_map inj_on_def)
  then have "{x \<in> set (rg_handlers s). hname s x = Some n} = {q}" using q by blast
  moreover have "called s (n # ns) = {x \<in> set (rg_handlers s). hname s x = Some n} \<union> called s ns"
    unfolding called_def by auto
  ultimately show ?thesis using Some by simp
qed

lemma attach_names_effect:
  assumes "reg_inv s" "rg_logger s p = Some l"
  shows "\<exists>k' s' l'. attach_names sys (Some p) ns (k, s) = Some (k', s') \<and> reg_inv s' \<and>
    rg_loggers s' = rg_loggers s \<and> rg_handlers s' = rg_handlers s \<and> only_refs s s' \<and>
    rg_logger s' = (rg_logger s)(p \<mapsto> l') \<and> l' = l\<lparr>lg_refs := lg_refs l'\<rparr> \<and>
    (ample sys \<longrightarrow> set (lg_refs l') = set (lg_refs l) \<union> called s ns)"
  using assms
proof (induction ns arbitrary: k s l)
  case Nil
  then show ?case by (intro exI [of _ k] exI [of _ s] exI [of _ l]) (simp add: map_upd_triv called_def only_refs_refl)
next
  case (Cons n ns)
  note inv = Cons.prems(1)
  show ?case
  proof (cases "find (\<lambda>q. hname s q = Some n) (rg_handlers s)")
    case None
    then show ?thesis using Cons.IH [OF Cons.prems, of k] by (simp add: search_handler [OF inv] called_Cons [OF inv])
  next
    case (Some q)
    then have q: "q \<in> set (rg_handlers s)" using find_SomeD [OF Some] by blast
    from attach_effect [OF Cons.prems q, of "malloc_ok (sys k s)"] obtain rc s1 l1 where
      s1: "lmk_attach_log_handler (malloc_ok (sys k s)) (Some p) (Some q) s = Some (rc, s1)" "reg_inv s1"
      "rg_loggers s1 = rg_loggers s" "rg_handlers s1 = rg_handlers s" "only_refs s s1"
      "rg_logger s1 = (rg_logger s)(p \<mapsto> l1)" "l1 = l\<lparr>lg_refs := lg_refs l1\<rparr>"
      "malloc_ok (sys k s) \<longrightarrow> set (lg_refs l1) = insert q (set (lg_refs l))" by blast
    have c: "called s1 ns = called s ns" using s1(4,5) by (simp add: called_def only_refs_def)
    have "rg_logger s1 p = Some l1" using s1(6) by simp
    from Cons.IH [OF s1(2) this, of "Suc k"] obtain k2 s2 l2 where
      s2: "attach_names sys (Some p) ns (Suc k, s1) = Some (k2, s2)" "reg_inv s2" "rg_loggers s2 = rg_loggers s1"
      "rg_handlers s2 = rg_handlers s1" "only_refs s1 s2" "rg_logger s2 = (rg_logger s1)(p \<mapsto> l2)"
      "l2 = l1\<lparr>lg_refs := lg_refs l2\<rparr>" "ample sys \<longrightarrow> set (lg_refs l2) = set (lg_refs l1) \<union> called s1 ns" by blast
    have run: "attach_names sys (Some p) (n # ns) (k, s) = Some (k2, s2)"
      using Some s1(1) s2(1) by (simp add: search_handler [OF inv])
    have l2: "l2 = l\<lparr>lg_refs := lg_refs l2\<rparr>" using s1(7) s2(7) by (metis lmk_logger.update_convs(3) lmk_logger.cases_scheme)
    have "set (lg_refs l2) = set (lg_refs l) \<union> called s (n # ns)" if "ample sys"
      using s1(8) s2(8) that Some by (auto simp: called_Cons [OF inv] c ample_def malloc_ok_def)
    then show ?thesis using run s2 s1 l2 only_refs_trans [OF s1(5) s2(5)] by (intro exI [of _ k2] exI [of _ s2] exI [of _ l2]) simp
  qed
qed

text \<open>A logger as its section asks for it.\<close>

definition configured :: "registry \<Rightarrow> lmk_cfg_logger \<Rightarrow> lmk_logger \<Rightarrow> bool" where
  "configured s cl l \<longleftrightarrow> lg_name l = cg_name cl \<and>
     lg_log_level l = (if cg_level cl = -1 then LMK_LOG_LEVEL_INFO else cg_level cl) \<and>
     set (lg_refs l) = called s (cg_handler_names cl)"

definition unused_name :: "registry \<Rightarrow> string \<Rightarrow> bool" where
  "unused_name s n \<longleftrightarrow> (\<forall>p\<in>set (rg_loggers s). lg_name (the (rg_logger s p)) \<noteq> n)"

text \<open>The registry after a logger section, seen from outside the loggers.\<close>

definition same_handlers :: "registry \<Rightarrow> registry \<Rightarrow> bool" where
  "same_handlers s s' \<longleftrightarrow> reg_inv s' \<and> rg_handlers s' = rg_handlers s \<and> only_refs s s'"

lemma same_handlers_called: "same_handlers s s' \<Longrightarrow> called s' = called s"
  by (simp add: same_handlers_def only_refs_def called_def fun_eq_iff)

lemma same_handlers_refl: "reg_inv s \<Longrightarrow> same_handlers s s"
  by (simp add: same_handlers_def only_refs_refl)

lemma same_handlers_trans: "same_handlers s s' \<Longrightarrow> same_handlers s' s'' \<Longrightarrow> same_handlers s s''"
  unfolding same_handlers_def using only_refs_trans by auto

lemma set_level_effect:
  assumes inv: "reg_inv s" and l: "rg_logger s p = Some l" and ok: "cfg_level_ok lv"
  shows "\<exists>s'. (if lv \<noteq> -1 then lmk_set_log_level (Some p) lv s else Some s) = Some s' \<and> same_handlers s s' \<and>
    rg_loggers s' = rg_loggers s \<and> rg_logger s' = (rg_logger s)(p \<mapsto> l\<lparr>lg_log_level := if lv = -1 then lg_log_level l else lv\<rparr>)"
proof (cases "lv = -1")
  case True
  then show ?thesis using inv l by (simp add: same_handlers_refl map_upd_triv)
next
  case False
  then have "lv \<ge> LMK_LOG_LEVEL_TRACE \<and> lv \<le> LMK_LOG_LEVEL_OFF" using ok by (simp add: cfg_level_ok_def LMK_IS_VALID_LOG_LEVEL_def)
  then have run: "lmk_set_log_level (Some p) lv s = Some (s\<lparr>rg_logger := (rg_logger s)(p \<mapsto> l\<lparr>lg_log_level := lv\<rparr>)\<rparr>)"
    using l by (simp add: lmk_set_log_level_def)
  then show ?thesis using False set_log_level_inv [OF inv run] by (simp add: same_handlers_def only_refs_frame)
qed

lemma get_logger_result:
  assumes inv: "reg_inv s" and e: "fresh_env e s" and small: "length (rg_loggers s) + 1 < 2 ^ 32"
  shows "\<exists>r s'. lmk_get_logger e (Some n) s = Some (r, s') \<and> same_handlers s s' \<and> length (rg_loggers s') \<le> Suc (length (rg_loggers s)) \<and>
    (\<forall>p. r = Some p \<longrightarrow> (\<exists>l. rg_logger s' p = Some l)) \<and>
    (env_ptr e \<noteq> None \<and> env_name_ok e \<and> unused_name s n \<longrightarrow>
      (\<exists>p. r = Some p \<and> p \<notin> set (rg_loggers s) \<and> rg_loggers s' = rg_loggers s @ [p] \<and> rg_logger s' = (rg_logger s)(p \<mapsto> lmk_init_logger n)))"
  using inv
proof (cases rule: get_logger_cases [of s "Some n" e])
  case (found m p)
  then show ?thesis using inv reg_inv_live(1) [OF inv] by (auto simp: same_handlers_def only_refs_refl unused_name_def)
next
  case (nomem m)
  have "env_ptr e = None \<or> \<not> env_name_ok e \<or> \<not> unused_name s n"
  proof (rule ccontr)
    assume "\<not> (env_ptr e = None \<or> \<not> env_name_ok e \<or> \<not> unused_name s n)"
    then obtain p where p: "env_ptr e = Some p" "unused_name s n" "env_name_ok e" by auto
    moreover have "find (\<lambda>p. lg_name (the (rg_logger s p)) = n) (rg_loggers s) = None"
      using p(2) by (auto simp: unused_name_def find_None_iff)
    ultimately show False using nomem p search_logger [OF inv, of n] by (simp add: lmk_get_logger_def)
  qed
  then show ?thesis using nomem inv by (auto simp: same_handlers_refl)
next
  case (new m p)
  let ?s = "s\<lparr>rg_loggers := rg_loggers s @ [p], rg_logger := (rg_logger s)(p \<mapsto> lmk_init_logger n)\<rparr>"
  have run: "lmk_get_logger e (Some n) s = Some (Some p, ?s)" using new by simp
  have "reg_inv ?s" by (rule get_logger_inv [OF inv e run]) (use small in simp)
  moreover have "p \<notin> set (rg_loggers s)" using e new(2) by (simp add: fresh_env_def)
  ultimately show ?thesis using run by (simp add: same_handlers_def only_refs_frame)
qed (use inv in simp_all)

lemma ample_ptr: "ample sys \<Longrightarrow> env_ptr (sys k s) \<noteq> None \<and> env_name_ok (sys k s)"
  by (simp add: ample_def strings_copied_def copies_ok_def)

lemma apply_logger_effect:
  assumes inv: "reg_inv s" and sys: "allocator sys" and small: "length (rg_loggers s) + 1 < 2 ^ 32" and lv: "cfg_level_ok (cg_level cl)"
  shows "\<exists>k' s'. apply_logger sys cl (k, s) = Some (k', s') \<and> same_handlers s s' \<and> length (rg_loggers s') \<le> Suc (length (rg_loggers s)) \<and>
    (ample sys \<and> unused_name s (cg_name cl) \<longrightarrow>
      (\<exists>p l. p \<notin> set (rg_loggers s) \<and> rg_loggers s' = rg_loggers s @ [p] \<and> rg_logger s' = (rg_logger s)(p \<mapsto> l) \<and> configured s cl l))"
proof -
  let ?new = "ample sys \<and> unused_name s (cg_name cl)"
  from get_logger_result [OF inv allocator_fresh [OF sys, of k s] small, of "cg_name cl"] obtain r s1 where
    s1: "lmk_get_logger (sys k s) (Some (cg_name cl)) s = Some (r, s1)" "same_handlers s s1" "length (rg_loggers s1) \<le> Suc (length (rg_loggers s))"
    and live: "\<And>p. r = Some p \<Longrightarrow> \<exists>l. rg_logger s1 p = Some l"
    and new: "?new \<Longrightarrow> \<exists>p. r = Some p \<and> p \<notin> set (rg_loggers s) \<and> rg_loggers s1 = rg_loggers s @ [p] \<and>
        rg_logger s1 = (rg_logger s)(p \<mapsto> lmk_init_logger (cg_name cl))"
    using ample_ptr [of sys k s] by blast
  show ?thesis
  proof (cases r)
    case None
    then show ?thesis using s1 new by (auto simp: apply_logger_def)
  next
    case (Some p)
    obtain l1 where l1: "rg_logger s1 p = Some l1" using live [OF Some] by blast
    have inv1: "reg_inv s1" using s1(2) by (simp add: same_handlers_def)
    from set_level_effect [OF inv1 l1 lv] obtain s2 where
      s2: "(if cg_level cl \<noteq> -1 then lmk_set_log_level (Some p) (cg_level cl) s1 else Some s1) = Some s2" "same_handlers s1 s2"
      "rg_loggers s2 = rg_loggers s1"
      "rg_logger s2 = (rg_logger s1)(p \<mapsto> l1\<lparr>lg_log_level := if cg_level cl = -1 then lg_log_level l1 else cg_level cl\<rparr>)" by blast
    let ?l2 = "l1\<lparr>lg_log_level := if cg_level cl = -1 then lg_log_level l1 else cg_level cl\<rparr>"
    have inv2: "reg_inv s2" and l2: "rg_logger s2 p = Some ?l2" using s2 by (simp_all add: same_handlers_def)
    from attach_names_effect [OF inv2 l2, of sys "cg_handler_names cl" "Suc k"] obtain k3 s3 l3 where
      s3: "attach_names sys (Some p) (cg_handler_names cl) (Suc k, s2) = Some (k3, s3)" "same_handlers s2 s3" "rg_loggers s3 = rg_loggers s2"
      "rg_logger s3 = (rg_logger s2)(p \<mapsto> l3)" "l3 = ?l2\<lparr>lg_refs := lg_refs l3\<rparr>"
      "ample sys \<longrightarrow> set (lg_refs l3) = set (lg_refs ?l2) \<union> called s2 (cg_handler_names cl)"
      unfolding same_handlers_def by blast
    have run: "apply_logger sys cl (k, s) = Some (k3, s3)" using Some s1(1) s2(1) s3(1) by (simp add: apply_logger_def)
    have same: "same_handlers s s3" using same_handlers_trans [OF same_handlers_trans [OF s1(2) s2(2)] s3(2)] .
    have "called s2 = called s" using same_handlers_called [OF same_handlers_trans [OF s1(2) s2(2)]] .
    then have "\<exists>p l. p \<notin> set (rg_loggers s) \<and> rg_loggers s3 = rg_loggers s @ [p] \<and> rg_logger s3 = (rg_logger s)(p \<mapsto> l) \<and> configured s cl l" if ?new
    proof -
      have p: "p \<notin> set (rg_loggers s)" "rg_loggers s1 = rg_loggers s @ [p]" "rg_logger s1 = (rg_logger s)(p \<mapsto> lmk_init_logger (cg_name cl))"
        using new [OF that] Some by auto
      then have "l1 = lmk_init_logger (cg_name cl)" using l1 by simp
      then have "lg_name l3 = cg_name cl" "lg_log_level l3 = (if cg_level cl = -1 then LMK_LOG_LEVEL_INFO else cg_level cl)"
        by (subst s3(5), simp add: lmk_init_logger_def)+
      moreover have "set (lg_refs l3) = called s (cg_handler_names cl)"
        using s3(6) that \<open>called s2 = called s\<close> \<open>l1 = _\<close> by (simp add: lmk_init_logger_def)
      ultimately show ?thesis using p s2(3,4) s3(3,4) by (intro exI [of _ p] exI [of _ l3]) (simp add: configured_def)
    qed
    then show ?thesis using run same s1(3) s2(3) s3(3) by (intro exI [of _ k3] exI [of _ s3]) simp
  qed
qed

lemma apply_loggers_safe:
  assumes "reg_inv s" "allocator sys" "length (rg_loggers s) + length cls < 2 ^ 32" "list_all (\<lambda>cl. cfg_level_ok (cg_level cl)) cls"
  shows "\<exists>k' s'. each (apply_logger sys) cls (k, s) = Some (k', s') \<and> same_handlers s s'"
  using assms(1,3,4)
proof (induction cls arbitrary: k s)
  case Nil
  then show ?case by (simp add: same_handlers_refl)
next
  case (Cons cl cls)
  have "length (rg_loggers s) + 1 < 2 ^ 32" "cfg_level_ok (cg_level cl)" using Cons.prems by simp_all
  from apply_logger_effect [OF Cons.prems(1) assms(2) this, of k] obtain k1 s1 where
    s1: "apply_logger sys cl (k, s) = Some (k1, s1)" "same_handlers s s1" "length (rg_loggers s1) \<le> Suc (length (rg_loggers s))" by blast
  have "reg_inv s1" "length (rg_loggers s1) + length cls < 2 ^ 32" "list_all (\<lambda>cl. cfg_level_ok (cg_level cl)) cls"
    using s1(2,3) Cons.prems by (simp_all add: same_handlers_def)
  from Cons.IH [OF this, of k1] show ?case using s1(1) same_handlers_trans [OF s1(2)] by auto
qed

lemma apply_loggers_effect:
  assumes "reg_inv s" "ample sys" "length (rg_loggers s) + length cls < 2 ^ 32" "list_all (\<lambda>cl. cfg_level_ok (cg_level cl)) cls"
    and "distinct (map cg_name cls)" "list_all (\<lambda>cl. unused_name s (cg_name cl)) cls"
  shows "\<exists>k' s'. each (apply_logger sys) cls (k, s) = Some (k', s') \<and> same_handlers s s' \<and>
    (\<forall>p l. rg_logger s p = Some l \<longrightarrow> rg_logger s' p = Some l) \<and>
    list_all (\<lambda>cl. \<exists>p l. rg_logger s' p = Some l \<and> configured s cl l) cls"
  using assms(1,3-)
proof (induction cls arbitrary: k s)
  case Nil
  then show ?case by (simp add: same_handlers_refl)
next
  case (Cons cl cls)
  have sys: "allocator sys" using assms(2) by (simp add: ample_def)
  have "length (rg_loggers s) + 1 < 2 ^ 32" "cfg_level_ok (cg_level cl)" "unused_name s (cg_name cl)" using Cons.prems by simp_all
  with apply_logger_effect [OF Cons.prems(1) sys this(1,2), of k] assms(2) obtain k1 s1 p l where
    s1: "apply_logger sys cl (k, s) = Some (k1, s1)" "same_handlers s s1" "p \<notin> set (rg_loggers s)" "rg_loggers s1 = rg_loggers s @ [p]"
    "rg_logger s1 = (rg_logger s)(p \<mapsto> l)" "configured s cl l" by blast
  have "reg_inv s1" "length (rg_loggers s1) + length cls < 2 ^ 32" using s1(2,4) Cons.prems by (simp_all add: same_handlers_def)
  moreover have "list_all (\<lambda>cl. unused_name s1 (cg_name cl)) cls"
    using Cons.prems(4,5) s1(3-6) by (auto simp: list_all_iff unused_name_def configured_def)
  ultimately obtain k2 s2 where
    s2: "each (apply_logger sys) cls (k1, s1) = Some (k2, s2)" "same_handlers s1 s2" "\<forall>p l. rg_logger s1 p = Some l \<longrightarrow> rg_logger s2 p = Some l"
    "list_all (\<lambda>cl. \<exists>p l. rg_logger s2 p = Some l \<and> configured s1 cl l) cls"
    using Cons.IH [of s1 k1] Cons.prems by auto
  have "configured s1 = configured s" using same_handlers_called [OF s1(2)] by (simp add: configured_def fun_eq_iff)
  moreover have "rg_logger s p = None" using s1(3) reg_invD(4) [OF Cons.prems(1)] by auto
  then have "rg_logger s1 q = Some m" if "rg_logger s q = Some m" for q m using that s1(5) by (cases "q = p") auto
  then have "\<forall>q m. rg_logger s q = Some m \<longrightarrow> rg_logger s2 q = Some m" using s2(3) by blast
  moreover have "rg_logger s2 p = Some l" using s2(3) s1(5) by simp
  ultimately show ?case
    using s1(1,6) s2(1,4) same_handlers_trans [OF s1(2) s2(2)] by (intro exI [of _ k2] exI [of _ s2]) auto
qed

text \<open>A handler as its section asks for it: type, name, level (\<open>TRACE\<close> if none is given), format, and the
  settings of its type. A listener without a positive port is left out.\<close>

definition listed_servers :: "(string \<Rightarrow> u32 option) \<Rightarrow> lmk_cfg_listener list \<Rightarrow> sockaddr list" where
  "listed_servers pton ls =
     map (\<lambda>l. ((case pton (cl_host l) of Some a \<Rightarrow> a | None \<Rightarrow> 0), of_int (cl_port l))) (filter (\<lambda>l. cl_port l > 0) ls)"

definition ext_configured :: "(string \<Rightarrow> u32 option) \<Rightarrow> (string \<Rightarrow> bytes) \<Rightarrow> lmk_cfg_handler \<Rightarrow> handler_ext \<Rightarrow> bool" where
  "ext_configured pton sha ch x \<longleftrightarrow>
     (case x of
        Console_ext \<Rightarrow> True
      | File_ext p \<Rightarrow> fp_filename p = Some (ch_filename ch) \<and>
          fp_max_file_size p = (if ch_max_file_size ch > 0 then ch_max_file_size ch else LMK_DEFAULT_MAX_FILE_SIZE) \<and>
          fp_max_backup_files p = (if ch_max_backup_files ch > 0 then ch_max_backup_files ch else LMK_DEFAULT_MAX_BACKUP_FILES)
      | Socket_ext p \<Rightarrow> sk_log_servers p = listed_servers pton (ch_listeners ch) \<and> sk_psk_enabled p = (ch_psk ch \<noteq> []) \<and>
          (ch_psk ch \<noteq> [] \<longrightarrow> sk_psk_key p = derive_key sha (ch_psk ch))
      | Syslog_ext p \<Rightarrow> sy_ident p = strncpy_into 64 (ch_ident ch) \<and>
          sy_facility p = lmk_parse_syslog_facility (or_null (ch_facility ch)))"

fun ext_type :: "handler_ext \<Rightarrow> handler_type" where
  "ext_type Console_ext = CONSOLE"
| "ext_type (File_ext p) = FILE"
| "ext_type (Socket_ext p) = SOCKET"
| "ext_type (Syslog_ext p) = SYSLOG"

definition handler_configured :: "(string \<Rightarrow> u32 option) \<Rightarrow> (string \<Rightarrow> bytes) \<Rightarrow> lmk_cfg_handler \<Rightarrow> lmk_log_handler \<Rightarrow> bool" where
  "handler_configured pton sha ch h \<longleftrightarrow> handler_type_code (lh_type h) = ch_type ch \<and> ext_type (lh_ext h) = lh_type h \<and>
     lh_name h = Some (section_name ch) \<and>
     lh_log_level h = (if ch_level ch = -1 then LMK_LOG_LEVEL_TRACE else ch_level ch) \<and>
     lh_format_fn h = (if ch_format ch = [] then None else lmk_get_format_fn (Some (ch_format ch))) \<and>
     ext_configured pton sha ch (lh_ext h)"

text \<open>What a constructor makes of a name that is not taken, when nothing fails.\<close>

definition base_handler :: "string \<Rightarrow> handler_type \<Rightarrow> handler_ext \<Rightarrow> lmk_log_handler \<Rightarrow> bool" where
  "base_handler n ty x h \<longleftrightarrow> lh_type h = ty \<and> lh_name h = Some n \<and> lh_log_level h = LMK_LOG_LEVEL_TRACE \<and> lh_format_fn h = None \<and> lh_ext h = x"

definition made :: "string \<Rightarrow> handler_type \<Rightarrow> handler_ext \<Rightarrow> (addr option \<times> registry) option \<Rightarrow> bool" where
  "made n ty x res \<longleftrightarrow> (\<exists>p s' h. res = Some (Some p, s') \<and> rg_handler s' p = Some h \<and> base_handler n ty x h)"

lemma name_not_found: "Some n \<notin> names s \<Longrightarrow> find (\<lambda>q. hname s q = Some n) (rg_handlers s) = None"
  by (auto simp: names_def find_None_iff image_iff)

lemma ample_env:
  assumes "ample sys"
  obtains p where "env_ptr (sys k s) = Some p" "env_name_ok (sys k s)" "env_dup_ok (sys k s)" "env_ring_ok (sys k s)" "env_thread_ok (sys k s)"
  using assms unfolding ample_def strings_copied_def copies_ok_def by blast

lemma publish_made:
  "base_handler n ty x h \<Longrightarrow> lh_ring h \<noteq> None \<Longrightarrow> made n ty x (Some (publish_handler p h s))"
  by (simp add: made_def publish_handler_def base_handler_def)

lemma async_init_base:
  "base_handler n ty x (async_init cfg True True (lmk_init_base_log_handler ty n True y)\<lparr>lh_ext := x\<rparr>)"
  "lh_ring (async_init cfg True True h) \<noteq> None" "(async_init cfg m t (lmk_init_base_log_handler ty n True x))\<lparr>lh_ext := x\<rparr> =
    async_init cfg m t (lmk_init_base_log_handler ty n True x)"
  by (simp_all add: base_handler_def async_init_def lmk_init_base_log_handler_def Let_def)

lemma get_console_made:
  assumes inv: "reg_inv s" and sys: "ample sys" and n: "Some ''console'' \<notin> names s"
  shows "made ''console'' CONSOLE Console_ext (lmk_get_console_log_handler (sys k s) s)"
proof -
  obtain p where e: "env_ptr (sys k s) = Some p" "env_name_ok (sys k s)" "env_ring_ok (sys k s)" "env_thread_ok (sys k s)" using ample_env [OF sys] by metis
  obtain cfg where cfg: "rg_config s = Some cfg" using reg_invD(2) [OF inv] by blast
  have "made ''console'' CONSOLE Console_ext (Some (publish_handler p (async_init cfg True True (lmk_init_base_log_handler CONSOLE ''console'' True Console_ext)) s))"
    using async_init_base(1) [of "''console''" CONSOLE Console_ext cfg Console_ext, unfolded async_init_base(3)] async_init_base(2) by (rule publish_made)
  then show ?thesis
    using e cfg name_not_found [OF n] by (simp add: lmk_get_console_log_handler_def search_handler [OF inv] lmk_console_log_handler_init_def)
qed

lemma get_syslog_made:
  assumes inv: "reg_inv s" and sys: "ample sys" and n: "Some n \<notin> names s"
  shows "made n SYSLOG (Syslog_ext \<lparr>sy_ident = (case ident of None \<Rightarrow> [] | Some i \<Rightarrow> strncpy_into 64 i), sy_facility = facility\<rparr>)
    (lmk_get_syslog_log_handler (sys k s) (Some n) ident facility s)"
proof -
  obtain p where e: "env_ptr (sys k s) = Some p" "env_name_ok (sys k s)" "env_ring_ok (sys k s)" "env_thread_ok (sys k s)" using ample_env [OF sys] by metis
  obtain cfg where cfg: "rg_config s = Some cfg" using reg_invD(2) [OF inv] by blast
  let ?x = "Syslog_ext \<lparr>sy_ident = (case ident of None \<Rightarrow> [] | Some i \<Rightarrow> strncpy_into 64 i), sy_facility = facility\<rparr>"
  have "made n SYSLOG ?x (Some (publish_handler p (async_init cfg True True (lmk_init_base_log_handler SYSLOG n True ?x)) s))"
    using async_init_base(1) [of n SYSLOG ?x cfg ?x, unfolded async_init_base(3)] async_init_base(2) by (rule publish_made)
  then show ?thesis
    using e cfg name_not_found [OF n] by (simp add: lmk_get_syslog_log_handler_def search_handler [OF inv] lmk_syslog_log_handler_init_def)
qed

lemma get_socket_made:
  assumes inv: "reg_inv s" and sys: "ample sys" and n: "Some n \<notin> names s"
  shows "\<exists>sp. sk_log_servers sp = [] \<and> \<not> sk_psk_enabled sp \<and> made n SOCKET (Socket_ext sp) (lmk_get_socket_log_handler (sys k s) (Some n) s)"
proof -
  obtain p where e: "env_ptr (sys k s) = Some p" "env_name_ok (sys k s)" "env_ring_ok (sys k s)" "env_thread_ok (sys k s)" using ample_env [OF sys] by metis
  obtain cfg where cfg: "rg_config s = Some cfg" using reg_invD(2) [OF inv] by blast
  define sp where "sp = \<lparr>sk_log_servers = [], sk_sockd = snd (lmk_open_udp_socket (env_socket_fd (sys k s)) 0), sk_psk_enabled = False,
    sk_psk_key = replicate 32 NUL, sk_cipher_ctx = env_ctx_ok (sys k s)\<rparr>"
  have "made n SOCKET (Socket_ext sp) (Some (publish_handler p ((async_init cfg True True (lmk_init_base_log_handler SOCKET n True y))\<lparr>lh_ext := Socket_ext sp\<rparr>) s))" for y
    by (rule publish_made [OF async_init_base(1)]) (use async_init_base(2) in simp)
  then have "made n SOCKET (Socket_ext sp) (lmk_get_socket_log_handler (sys k s) (Some n) s)"
    using e cfg name_not_found [OF n] by (simp add: lmk_get_socket_log_handler_def search_handler [OF inv] lmk_socket_log_handler_init_def sp_def)
  then show ?thesis by (intro exI [of _ sp]) (simp add: sp_def)
qed

lemma get_file_made:
  assumes inv: "reg_inv s" and sys: "ample sys" and n: "Some n \<notin> names s"
  shows "\<exists>fp. fp_filename fp = Some f \<and> fp_max_file_size fp = LMK_DEFAULT_MAX_FILE_SIZE \<and> fp_max_backup_files fp = LMK_DEFAULT_MAX_BACKUP_FILES \<and>
    made n FILE (File_ext fp) (lmk_get_file_log_handler (sys k s) (Some n) (Some f) s)"
proof -
  obtain p where e: "env_ptr (sys k s) = Some p" "env_name_ok (sys k s)" "env_dup_ok (sys k s)" "env_ring_ok (sys k s)" "env_thread_ok (sys k s)"
    using ample_env [OF sys] by metis
  obtain cfg where cfg: "rg_config s = Some cfg" using reg_invD(2) [OF inv] by blast
  define fp0 where "fp0 = \<lparr>fp_filename = Some f, fp_log_fp = None, fp_max_file_size = LMK_DEFAULT_MAX_FILE_SIZE,
    fp_max_backup_files = LMK_DEFAULT_MAX_BACKUP_FILES, fp_current_file_size = 0\<rparr>"
  let ?h = "lmk_init_base_log_handler FILE n True (File_ext fp0)"
  obtain fp fs where init: "lmk_file_log_handler_init (env_can_open (sys k s)) cfg True True fp0 ?h (rg_files s) =
      Some ((async_init cfg True True ?h)\<lparr>lh_ext := File_ext fp\<rparr>, fs)"
    and fp: "fp_filename fp = Some f" "fp_max_file_size fp = LMK_DEFAULT_MAX_FILE_SIZE" "fp_max_backup_files fp = LMK_DEFAULT_MAX_BACKUP_FILES"
    by (simp add: lmk_file_log_handler_init_def fp0_def Let_def split_beta)
  have "made n FILE (File_ext fp) (Some (publish_handler p ((async_init cfg True True ?h)\<lparr>lh_ext := File_ext fp\<rparr>) (s\<lparr>rg_files := fs\<rparr>)))"
    by (rule publish_made [OF async_init_base(1)]) (use async_init_base(2) in simp)
  then show ?thesis
    using e cfg name_not_found [OF n] fp init
    by (intro exI [of _ fp]) (simp add: lmk_get_file_log_handler_def search_handler [OF inv] flip: fp0_def)
qed

lemma update_some: "rg_handler s p = Some h \<Longrightarrow> update_handler (Some p) f s = Some (s\<lparr>rg_handler := (rg_handler s)(p \<mapsto> f h)\<rparr>)"
  by (simp add: update_handler_def)

lemma update_if_some:
  assumes "rg_handler s p = Some h"
  shows "\<exists>s'. (if b then update_handler (Some p) f s else Some s) = Some s' \<and> rg_handler s' p = Some (if b then f h else h)"
  using assms by (simp add: update_handler_def)

lemma attach_listeners_made:
  assumes "rg_handler s p = Some h" "lh_ext h = Socket_ext sp" "ample sys"
  shows "\<exists>k' s'. attach_listeners sys pton (Some p) ls (k, s) = Some (k', s') \<and>
    rg_handler s' p = Some (h\<lparr>lh_ext := Socket_ext (sp\<lparr>sk_log_servers := sk_log_servers sp @ listed_servers pton ls\<rparr>)\<rparr>)"
  using assms(1,2)
proof (induction ls arbitrary: k s h sp)
  case Nil
  then show ?case by (simp add: listed_servers_def)
next
  case (Cons l ls)
  have m: "malloc_ok (sys k s)" using ample_ptr [OF assms(3)] by (simp add: malloc_ok_def)
  let ?sp = "sp\<lparr>sk_log_servers := sk_log_servers sp @ listed_servers pton [l]\<rparr>"
  let ?h = "h\<lparr>lh_ext := Socket_ext ?sp\<rparr>"
  have "lmk_attach_log_listener pton True (Some (cl_host l)) (cl_port l) h = ?h"
    using Cons.prems(2) by (simp add: lmk_attach_log_listener_def listed_servers_def)
  then have "update_handler (Some p) (lmk_attach_log_listener pton True (Some (cl_host l)) (cl_port l)) s =
      Some (s\<lparr>rg_handler := (rg_handler s)(p \<mapsto> ?h)\<rparr>)" using update_some [OF Cons.prems(1)] by simp
  moreover have "listed_servers pton (l # ls) = listed_servers pton [l] @ listed_servers pton ls" by (simp add: listed_servers_def)
  ultimately show ?case using Cons.IH [of "s\<lparr>rg_handler := (rg_handler s)(p \<mapsto> ?h)\<rparr>" ?h ?sp "Suc k"] m by simp
qed

text \<open>The handler after the branch on the type, before the level and the format are set.\<close>

definition typed :: "(string \<Rightarrow> u32 option) \<Rightarrow> (string \<Rightarrow> bytes) \<Rightarrow> lmk_cfg_handler \<Rightarrow> lmk_log_handler \<Rightarrow> bool" where
  "typed pton sha ch h \<longleftrightarrow> handler_type_code (lh_type h) = ch_type ch \<and> ext_type (lh_ext h) = lh_type h \<and>
     lh_name h = Some (section_name ch) \<and> lh_log_level h = LMK_LOG_LEVEL_TRACE \<and> lh_format_fn h = None \<and>
     ext_configured pton sha ch (lh_ext h)"

definition branch_made :: "(string \<Rightarrow> u32 option) \<Rightarrow> (string \<Rightarrow> bytes) \<Rightarrow> lmk_cfg_handler \<Rightarrow> (addr option \<times> machine) option \<Rightarrow> bool" where
  "branch_made pton sha ch res \<longleftrightarrow> (\<exists>p k' s' h. res = Some (Some p, k', s') \<and> rg_handler s' p = Some h \<and> typed pton sha ch h)"

lemma make_console_made:
  assumes "reg_inv s" "ample sys" "Some (section_name ch) \<notin> names s" "ch_type ch = 0"
  shows "branch_made pton sha ch (make_handler sys pton sha ch (k, s))"
proof -
  have "Some ''console'' \<notin> names s" using assms(3,4) by (simp add: section_name_def)
  from get_console_made [OF assms(1,2) this, of k] obtain p s' h where
    "lmk_get_console_log_handler (sys k s) s = Some (Some p, s')" "rg_handler s' p = Some h" "base_handler ''console'' CONSOLE Console_ext h"
    unfolding made_def by blast
  then show ?thesis using assms(4)
    by (simp add: branch_made_def make_handler_def typed_def base_handler_def section_name_def ext_configured_def)
qed

lemma make_file_made:
  assumes "reg_inv s" "ample sys" "Some (section_name ch) \<notin> names s" "ch_type ch = 1" "ch_filename ch \<noteq> []"
  shows "branch_made pton sha ch (make_handler sys pton sha ch (k, s))"
proof -
  have n: "section_name ch = ch_name ch" "or_null (ch_filename ch) = Some (ch_filename ch)"
    using assms(4,5) by (simp_all add: section_name_def or_null_def)
  from get_file_made [OF assms(1,2) assms(3) [unfolded n], of "ch_filename ch" k] obtain fp p s' h where
    fp: "fp_filename fp = Some (ch_filename ch)" "fp_max_file_size fp = LMK_DEFAULT_MAX_FILE_SIZE" "fp_max_backup_files fp = LMK_DEFAULT_MAX_BACKUP_FILES" and
    h: "lmk_get_file_log_handler (sys k s) (Some (ch_name ch)) (Some (ch_filename ch)) s = Some (Some p, s')" "rg_handler s' p = Some h"
    "base_handler (ch_name ch) FILE (File_ext fp) h" unfolding made_def by blast
  then show ?thesis using assms(4) n
    by (simp add: branch_made_def make_handler_def update_some lmk_set_log_rotation_def typed_def base_handler_def ext_configured_def)
qed

lemma make_syslog_made:
  assumes "reg_inv s" "ample sys" "Some (section_name ch) \<notin> names s" "ch_type ch = 3"
  shows "branch_made pton sha ch (make_handler sys pton sha ch (k, s))"
proof -
  have n: "section_name ch = ch_name ch" using assms(4) by (simp add: section_name_def)
  let ?f = "lmk_parse_syslog_facility (or_null (ch_facility ch))"
  from get_syslog_made [OF assms(1,2) assms(3) [unfolded n], of "or_null (ch_ident ch)" ?f k] obtain p s' h where
    "lmk_get_syslog_log_handler (sys k s) (Some (ch_name ch)) (or_null (ch_ident ch)) ?f s = Some (Some p, s')" "rg_handler s' p = Some h"
    "base_handler (ch_name ch) SYSLOG (Syslog_ext \<lparr>sy_ident = (case or_null (ch_ident ch) of None \<Rightarrow> [] | Some i \<Rightarrow> strncpy_into 64 i), sy_facility = ?f\<rparr>) h"
    unfolding made_def by blast
  moreover have "(case or_null (ch_ident ch) of None \<Rightarrow> [] | Some i \<Rightarrow> strncpy_into 64 i) = strncpy_into 64 (ch_ident ch)"
    by (simp add: or_null_def strncpy_into_def)
  ultimately show ?thesis using assms(4) n
    by (simp add: branch_made_def make_handler_def typed_def base_handler_def ext_configured_def)
qed

lemma make_socket_made:
  assumes "reg_inv s" "ample sys" "Some (section_name ch) \<notin> names s" "ch_type ch = 2"
  shows "branch_made pton sha ch (make_handler sys pton sha ch (k, s))"
proof -
  have n: "section_name ch = ch_name ch" using assms(4) by (simp add: section_name_def)
  from get_socket_made [OF assms(1,2) assms(3) [unfolded n], of k] obtain sp p s1 h where
    sp: "sk_log_servers sp = []" "\<not> sk_psk_enabled sp" and
    h: "lmk_get_socket_log_handler (sys k s) (Some (ch_name ch)) s = Some (Some p, s1)" "rg_handler s1 p = Some h"
    "base_handler (ch_name ch) SOCKET (Socket_ext sp) h" unfolding made_def by blast
  define sp' where "sp' = (if ch_psk ch \<noteq> [] then sp\<lparr>sk_psk_key := derive_key sha (ch_psk ch), sk_psk_enabled := True\<rparr> else sp)"
  define h' where "h' = h\<lparr>lh_ext := Socket_ext sp'\<rparr>"
  have "(if ch_psk ch \<noteq> [] then lmk_set_socket_psk sha (Some (ch_psk ch)) h else h) = h'"
    using h(3) by (auto simp: h'_def sp'_def base_handler_def lmk_set_socket_psk_def)
  with update_if_some [OF h(2), of "ch_psk ch \<noteq> []" "lmk_set_socket_psk sha (Some (ch_psk ch))"] obtain s2 where
    s2: "(if ch_psk ch \<noteq> [] then update_handler (Some p) (lmk_set_socket_psk sha (Some (ch_psk ch))) s1 else Some s1) = Some s2"
    "rg_handler s2 p = Some h'" by auto
  from attach_listeners_made [OF s2(2) _ assms(2), of sp' pton "ch_listeners ch" "Suc k"] obtain k3 s3 where
    s3: "attach_listeners sys pton (Some p) (ch_listeners ch) (Suc k, s2) = Some (k3, s3)"
    "rg_handler s3 p = Some (h'\<lparr>lh_ext := Socket_ext (sp'\<lparr>sk_log_servers := sk_log_servers sp' @ listed_servers pton (ch_listeners ch)\<rparr>)\<rparr>)"
    by (auto simp: h'_def)
  have "make_handler sys pton sha ch (k, s) = Some (Some p, k3, s3)" using assms(4) h(1) s2(1) s3(1) by (simp add: make_handler_def)
  then show ?thesis using s3(2) h(3) sp n assms(4)
    by (simp add: branch_made_def typed_def h'_def sp'_def base_handler_def ext_configured_def)
qed

lemma apply_handler_made:
  assumes "reg_inv s" "ample sys" "Some (section_name ch) \<notin> names s" "makes_handler ch" "cfg_level_ok (ch_level ch)"
  shows "\<exists>k' s' p h. apply_handler sys pton sha ch (k, s) = Some (k', s') \<and> rg_handler s' p = Some h \<and> handler_configured pton sha ch h"
proof -
  have "branch_made pton sha ch (make_handler sys pton sha ch (k, s))"
    using assms(4) make_console_made [OF assms(1-3)] make_file_made [OF assms(1-3)] make_socket_made [OF assms(1-3)] make_syslog_made [OF assms(1-3)]
    by (auto simp: makes_handler_def)
  then obtain p k1 s1 h where s1: "make_handler sys pton sha ch (k, s) = Some (Some p, k1, s1)" "rg_handler s1 p = Some h" "typed pton sha ch h"
    unfolding branch_made_def by blast
  from update_if_some [OF s1(2), of "ch_level ch \<noteq> -1" "lmk_set_handler_log_level (ch_level ch)"] obtain s2 h2 where
    s2: "(if ch_level ch \<noteq> -1 then update_handler (Some p) (lmk_set_handler_log_level (ch_level ch)) s1 else Some s1) = Some s2" "rg_handler s2 p = Some h2"
    "h2 = (if ch_level ch \<noteq> -1 then lmk_set_handler_log_level (ch_level ch) h else h)" by blast
  let ?fn = "lmk_get_format_fn (Some (ch_format ch))"
  from update_if_some [OF s2(2), of "ch_format ch \<noteq> []" "lmk_set_log_format ?fn"] obtain s3 where
    s3: "(if ch_format ch \<noteq> [] then update_handler (Some p) (lmk_set_log_format ?fn) s2 else Some s2) = Some s3"
    "rg_handler s3 p = Some (if ch_format ch \<noteq> [] then lmk_set_log_format ?fn h2 else h2)" by blast
  have "\<not> ch_type ch < 0" using assms(4) by (auto simp: makes_handler_def)
  then have "apply_handler sys pton sha ch (k, s) = Some (k1, s3)" using s1(1) s2(1) s3(1) by (simp add: apply_handler_def)
  moreover have "h2 = h\<lparr>lh_log_level := if ch_level ch = -1 then LMK_LOG_LEVEL_TRACE else ch_level ch\<rparr>"
    using s1(3) s2(3) assms(5) by (auto simp: typed_def lmk_set_handler_log_level_def cfg_level_ok_def LMK_IS_VALID_LOG_LEVEL_def)
  then have "handler_configured pton sha ch (if ch_format ch \<noteq> [] then lmk_set_log_format ?fn h2 else h2)"
    using s1(3) by (simp add: typed_def handler_configured_def lmk_set_log_format_def)
  ultimately show ?thesis using s3(2) by blast
qed

lemma configured_refs: "handler_configured pton sha ch h \<Longrightarrow> handler_configured pton sha ch (h\<lparr>lh_nr_logger_ref := r\<rparr>)"
  by (simp add: handler_configured_def)

text \<open>Some live handler is as the section asks.\<close>

definition section_done :: "(string \<Rightarrow> u32 option) \<Rightarrow> (string \<Rightarrow> bytes) \<Rightarrow> registry \<Rightarrow> lmk_cfg_handler \<Rightarrow> bool" where
  "section_done pton sha s ch \<longleftrightarrow> (\<exists>p h. p \<in> set (rg_handlers s) \<and> rg_handler s p = Some h \<and> handler_configured pton sha ch h)"

lemma section_done_grows:
  assumes "section_done pton sha s ch" "grows N s s'" "section_name ch \<notin> N"
  shows "section_done pton sha s' ch"
proof -
  obtain p h where p: "p \<in> set (rg_handlers s)" "rg_handler s p = Some h" "handler_configured pton sha ch h"
    using assms(1) unfolding section_done_def by blast
  then have "hname s p \<notin> Some ` N" using assms(3) by (auto simp: handler_configured_def)
  then have "rg_handler s' p = Some h" "p \<in> set (rg_handlers s')" using p(1,2) assms(2) by (auto simp: grows_def)
  then show ?thesis using p(3) unfolding section_done_def by blast
qed

lemma section_done_refs: "section_done pton sha s ch \<Longrightarrow> same_handlers s s' \<Longrightarrow> section_done pton sha s' ch"
  unfolding section_done_def same_handlers_def only_refs_def using configured_refs by metis

lemma apply_handlers_made:
  assumes "reg_inv s" "ample sys" "distinct (map section_name (filter makes_handler chs))"
    "\<forall>ch\<in>set chs. cfg_level_ok (ch_level ch) \<and> (makes_handler ch \<longrightarrow> Some (section_name ch) \<notin> names s)"
  shows "\<exists>k' s'. each (apply_handler sys pton sha) chs (k, s) = Some (k', s') \<and>
    (\<forall>ch\<in>set chs. makes_handler ch \<longrightarrow> section_done pton sha s' ch)"
  using assms(1,3,4)
proof (induction chs arbitrary: k s)
  case Nil
  then show ?case by simp
next
  case (Cons ch chs)
  have al: "allocator sys" "strings_copied sys" using assms(2) by (simp_all add: ample_def)
  let ?M = "if makes_handler ch then {section_name ch} else {}"
  let ?N = "section_name ` {ch \<in> set chs. makes_handler ch}"
  from apply_handler_grows [OF Cons.prems(1) al, of ch ?M pton sha k] obtain k1 s1 where
    s1: "apply_handler sys pton sha ch (k, s) = Some (k1, s1)" "grows ?M s s1" by auto
  have disj: "section_name ch \<notin> ?N" if "makes_handler ch" using Cons.prems(2) that by auto
  have new: "names s1 \<subseteq> names s \<union> Some ` ?M" using s1(2) by (simp add: grows_def)
  have "\<forall>c\<in>set chs. cfg_level_ok (ch_level c) \<and> (makes_handler c \<longrightarrow> Some (section_name c) \<notin> names s1)"
  proof
    fix c assume c: "c \<in> set chs"
    have "section_name c \<noteq> section_name ch" if "makes_handler c" "makes_handler ch" using disj [OF that(2)] c that(1) by (metis (mono_tags, lifting) image_eqI mem_Collect_eq)
    then show "cfg_level_ok (ch_level c) \<and> (makes_handler c \<longrightarrow> Some (section_name c) \<notin> names s1)"
      using Cons.prems(3) new c by (auto split: if_splits)
  qed
  then obtain k2 s2 where s2: "each (apply_handler sys pton sha) chs (k1, s1) = Some (k2, s2)" "\<forall>ch\<in>set chs. makes_handler ch \<longrightarrow> section_done pton sha s2 ch"
    using Cons.IH [OF grows_inv [OF s1(2)]] Cons.prems(2) by (metis distinct.simps(2) filter.simps(2) list.simps(9))
  have "section_done pton sha s2 ch" if m: "makes_handler ch"
  proof -
    obtain k1' s1' p h where "apply_handler sys pton sha ch (k, s) = Some (k1', s1')" "rg_handler s1' p = Some h" "handler_configured pton sha ch h"
      using apply_handler_made [OF Cons.prems(1) assms(2) _ m] Cons.prems(3) m by fastforce
    then have "section_done pton sha s1 ch" using s1 reg_invD(6) [OF grows_inv [OF s1(2)]] by (auto simp: section_done_def)
    moreover have "grows ?N s1 s2" using apply_handlers_grows [OF grows_inv [OF s1(2)] al subset_refl, of pton sha chs k1] s2(1) by auto
    ultimately show ?thesis using section_done_grows disj [OF m] by blast
  qed
  then show ?case using s1(1) s2 by simp
qed

lemma reg_inv_config: "reg_inv s \<Longrightarrow> reg_inv (s\<lparr>rg_config := Some c\<rparr>)"
proof -
  have "ref_count (s\<lparr>rg_config := Some c\<rparr>) = ref_count s" by (simp add: ref_count_def fun_eq_iff)
  then show "reg_inv s \<Longrightarrow> reg_inv (s\<lparr>rg_config := Some c\<rparr>)" by (simp add: reg_inv_def logger_ok_def reg_handler_ok_def)
qed

text \<open>The sizes the configuration asks for.\<close>

definition sizes_of :: "lmk_cfg \<Rightarrow> lmk_config" where
  "sizes_of cfg = \<lparr>
     cfg_log_buffer_size = (if cf_log_buffer_size cfg > 0 then of_int (cf_log_buffer_size cfg) else LMK_CFG_DEFAULT_LOG_BUFFER_SIZE),
     cfg_ring_buffer_size = (if cf_ring_buffer_size cfg > 0 then of_int (cf_ring_buffer_size cfg) else LMK_CFG_DEFAULT_RING_BUFFER_SIZE)\<rparr>"

lemma apply_sizes_effect:
  assumes "reg_inv s"
  shows "apply_sizes cfg s = Some (s\<lparr>rg_config := Some (sizes_of cfg)\<rparr>)" "reg_inv (s\<lparr>rg_config := Some (sizes_of cfg)\<rparr>)"
  using reg_invD(2) [OF assms] reg_inv_config [OF assms] by (auto simp: apply_sizes_def sizes_of_def)

lemma cfg_levels: "cfg_ok cfg \<Longrightarrow> list_all (\<lambda>cl. cfg_level_ok (cg_level cl)) (cf_loggers cfg)"
  by (auto simp: cfg_ok_def cfg_logger_ok_def list_all_iff)

lemma cfg_handler_levels: "cfg_ok cfg \<Longrightarrow> ch \<in> set (cf_handlers cfg) \<Longrightarrow> cfg_level_ok (ch_level ch)"
  by (auto simp: cfg_ok_def cfg_handler_ok_def list_all_iff)

text \<open>The handlers of the configuration, by name.\<close>

definition section_names :: "lmk_cfg \<Rightarrow> string set" where
  "section_names cfg = section_name ` {ch \<in> set (cf_handlers cfg). makes_handler ch}"

lemma cfg_apply_handlers:
  assumes "reg_inv s" "allocator sys" "strings_copied sys"
  shows "\<exists>k1 s1. each (apply_handler sys pton sha) (cf_handlers cfg) (k, s\<lparr>rg_config := Some (sizes_of cfg)\<rparr>) = Some (k1, s1) \<and>
    grows (section_names cfg) (s\<lparr>rg_config := Some (sizes_of cfg)\<rparr>) s1 \<and>
    (ample sys \<longrightarrow> (\<forall>ch\<in>set (cf_handlers cfg). makes_handler ch \<longrightarrow> Some (section_name ch) \<in> names s1)) \<and>
    lmk_cfg_apply sys pton sha cfg (k, s) = each (apply_logger sys) (cf_loggers cfg) (k1, s1)"
  using apply_handlers_grows [OF apply_sizes_effect(2) [OF assms(1), of cfg] assms(2,3) subset_refl, of pton sha "cf_handlers cfg" k]
    apply_sizes_effect(1) [OF assms(1), of cfg]
  by (auto simp: lmk_cfg_apply_def section_names_def)

lemma cfg_apply_safe:
  assumes inv: "reg_inv s" and sys: "allocator sys" "strings_copied sys"
    and small: "length (rg_loggers s) + LMK_CFG_MAX_LOGGERS < 2 ^ 32" and ok: "cfg_ok cfg"
  shows "\<exists>k' s'. lmk_cfg_apply sys pton sha cfg (k, s) = Some (k', s') \<and> reg_inv s'"
proof -
  obtain N k1 s1 where s1: "grows N (s\<lparr>rg_config := Some (sizes_of cfg)\<rparr>) s1"
    "lmk_cfg_apply sys pton sha cfg (k, s) = each (apply_logger sys) (cf_loggers cfg) (k1, s1)"
    using cfg_apply_handlers [OF inv sys] by blast
  have "reg_inv s1" "length (rg_loggers s1) + length (cf_loggers cfg) < 2 ^ 32"
    using s1(1) small ok by (auto simp: grows_def cfg_ok_def)
  from apply_loggers_safe [OF this(1) sys(1) this(2) cfg_levels [OF ok], of k1] show ?thesis
    using s1(2) by (auto simp: same_handlers_def)
qed

text \<open>No two sections make a handler of the same name.\<close>

definition distinct_sections :: "lmk_cfg \<Rightarrow> bool" where
  "distinct_sections cfg \<longleftrightarrow> distinct (map section_name (filter makes_handler (cf_handlers cfg)))"

lemma cfg_apply_effect:
  assumes inv: "reg_inv s" and empty: "rg_loggers s = []" "rg_handlers s = []" and sys: "ample sys" and ok: "cfg_ok cfg"
    and dist: "distinct (map cg_name (cf_loggers cfg))"
  shows "\<exists>k' s'. lmk_cfg_apply sys pton sha cfg (k, s) = Some (k', s') \<and> reg_inv s' \<and> rg_config s' = Some (sizes_of cfg) \<and>
    names s' = Some ` section_names cfg \<and>
    (distinct_sections cfg \<longrightarrow> list_all (\<lambda>ch. makes_handler ch \<longrightarrow> section_done pton sha s' ch) (cf_handlers cfg)) \<and>
    list_all (\<lambda>cl. \<exists>p l. rg_logger s' p = Some l \<and> configured s' cl l) (cf_loggers cfg)"
proof -
  have al: "allocator sys" "strings_copied sys" using sys by (simp_all add: ample_def)
  let ?s = "s\<lparr>rg_config := Some (sizes_of cfg)\<rparr>"
  obtain k1 s1 where s1: "each (apply_handler sys pton sha) (cf_handlers cfg) (k, ?s) = Some (k1, s1)" "grows (section_names cfg) ?s s1"
    "\<forall>ch\<in>set (cf_handlers cfg). makes_handler ch \<longrightarrow> Some (section_name ch) \<in> names s1"
    "lmk_cfg_apply sys pton sha cfg (k, s) = each (apply_logger sys) (cf_loggers cfg) (k1, s1)"
    using cfg_apply_handlers [OF inv al, of pton sha cfg k] sys by blast
  have e: "names ?s = {}" using empty(2) by (simp add: names_def)
  have names: "names s1 = Some ` section_names cfg" using s1(2,3) e by (auto simp: grows_def section_names_def)
  have all_done: "\<forall>ch\<in>set (cf_handlers cfg). makes_handler ch \<longrightarrow> section_done pton sha s1 ch" if "distinct_sections cfg"
    using apply_handlers_made [OF apply_sizes_effect(2) [OF inv, of cfg] sys that [unfolded distinct_sections_def], of pton sha k]
      cfg_handler_levels [OF ok] e s1(1) by auto
  have "reg_inv s1" "length (rg_loggers s1) + length (cf_loggers cfg) < 2 ^ 32" "list_all (\<lambda>cl. unused_name s1 (cg_name cl)) (cf_loggers cfg)"
    using s1(2) empty(1) ok by (auto simp: grows_def cfg_ok_def LMK_CFG_MAX_LOGGERS_def unused_name_def list_all_iff)
  from apply_loggers_effect [OF this(1) sys this(2) cfg_levels [OF ok] dist this(3), of k1] obtain k2 s2 where
    s2: "each (apply_logger sys) (cf_loggers cfg) (k1, s1) = Some (k2, s2)" "same_handlers s1 s2"
    "list_all (\<lambda>cl. \<exists>p l. rg_logger s2 p = Some l \<and> configured s1 cl l) (cf_loggers cfg)" by blast
  have "configured s1 = configured s2" using same_handlers_called [OF s2(2)] by (simp add: configured_def fun_eq_iff)
  moreover have "names s2 = names s1" "reg_inv s2" "rg_config s2 = Some (sizes_of cfg)"
    using s2(2) s1(2) by (simp_all add: same_handlers_def only_refs_def names_def grows_def)
  moreover have "list_all (\<lambda>ch. makes_handler ch \<longrightarrow> section_done pton sha s2 ch) (cf_handlers cfg)" if "distinct_sections cfg"
    using all_done [OF that] section_done_refs [OF _ s2(2)] by (auto simp: list_all_iff)
  ultimately show ?thesis using s1(4) s2(1,3) names by (intro exI [of _ k2] exI [of _ s2]) simp
qed

lemma parse_and_apply_safe:
  assumes "reg_inv s" "allocator sys" "strings_copied sys" "length (rg_loggers s) + LMK_CFG_MAX_LOGGERS < 2 ^ 32"
  shows "\<exists>rc k' s'. lmk_parse_and_apply sys pton sha path (k, s) = Some (rc, k', s') \<and> reg_inv s' \<and>
    (if rg_files s path = None then rc = LMK_E_NG \<and> k' = k \<and> s' = s else rc = LMK_E_OK)"
proof (cases "rg_files s path")
  case None
  then show ?thesis using assms(1) by (simp add: lmk_parse_and_apply_def lmk_cfg_parse_file_def)
next
  case (Some bytes)
  obtain cfg where cfg: "lmk_cfg_parse_file (Some bytes) zero_cfg = (LMK_E_OK, cfg)" by (simp add: lmk_cfg_parse_file_def)
  then have "cfg_ok cfg" using parse_file_ok [of "Some bytes"] by simp
  from cfg_apply_safe [OF assms this] obtain k' s' where "lmk_cfg_apply sys pton sha cfg (k, s) = Some (k', s')" "reg_inv s'" by blast
  then show ?thesis using Some cfg by (simp add: lmk_parse_and_apply_def)
qed

section \<open>Properties\<close>

text \<open>
  C35. Loading a configuration file is safe whatever the file contains: if the file cannot be
  opened, the call reports \<open>LMK_E_NG\<close> and changes nothing; otherwise it returns \<open>LMK_E_OK\<close> and a
  registry that still satisfies its invariant. This holds when files, sockets, threads or
  allocations fail on the way, with one exception, which is a hypothesis (\<open>strings_copied\<close>): the name
  and the file name of a new handler can be copied. Where a copy fails the code goes on with a
  \<open>NULL\<close> name or file name, and the behaviour is undefined. The other hypotheses are the registry's
  invariant, an allocator that returns unused addresses (or \<open>NULL\<close>), and room for the 64 loggers of a
  file below the range of the 32-bit counters. Numbers in the file that are out of range are read as
  \<open>strtol\<close> and the conversion to \<open>int\<close> give them with the usual C libraries.
\<close>

theorem config_load_safe:
  assumes "reg_inv s" "allocator sys" "strings_copied sys" "length (rg_loggers s) + LMK_CFG_MAX_LOGGERS < 2 ^ 32"
  shows "\<exists>rc k' s'. lmk_parse_and_apply sys pton sha path (k, s) = Some (rc, k', s') \<and> reg_inv s' \<and>
    (if rg_files s path = None then rc = LMK_E_NG \<and> k' = k \<and> s' = s else rc = LMK_E_OK)"
  by (rule parse_and_apply_safe [OF assms])

text \<open>A system that never fails: \<open>malloc\<close> returns an address above all live ones.\<close>

definition next_addr :: "registry \<Rightarrow> addr" where
  "next_addr s = Suc (sum_list (rg_loggers s @ rg_handlers s))"

definition sample_system :: system where
  "sample_system k s = sample_env (next_addr s)"

lemma next_addr_fresh: "next_addr s \<noteq> NULL" "next_addr s \<notin> set (rg_loggers s)" "next_addr s \<notin> set (rg_handlers s)"
proof -
  have "p < next_addr s" if "p \<in> set (rg_loggers s @ rg_handlers s)" for p
    using member_le_sum_list [OF that] by (simp add: next_addr_def)
  then show "next_addr s \<notin> set (rg_loggers s)" "next_addr s \<notin> set (rg_handlers s)" by fastforce+
  show "next_addr s \<noteq> NULL" by (simp add: next_addr_def)
qed

lemma sample_system_ample: "ample sample_system" "allocator sample_system" "strings_copied sample_system"
  using next_addr_fresh
  by (auto simp: ample_def allocator_def strings_copied_def copies_ok_def sample_system_def fresh_env_def sample_env_def)

lemma empty_registry_inv: "reg_inv empty_registry"
  by (rule reg_init_inv) (simp add: reg_init_def empty_registry_def)

theorem config_load_safe_witness:
  "\<exists>k' s'. lmk_parse_and_apply sample_system (\<lambda>_. None) (\<lambda>_. []) ''a.conf''
      (0, empty_registry\<lparr>rg_files := [''a.conf'' \<mapsto> ''[logger:app]'']\<rparr>) = Some (LMK_E_OK, k', s') \<and> reg_inv s'"
proof -
  let ?s = "empty_registry\<lparr>rg_files := [''a.conf'' \<mapsto> ''[logger:app]'']\<rparr>"
  have inv: "reg_inv ?s" by (rule reg_inv_files(1) [OF empty_registry_inv])
  have small: "length (rg_loggers ?s) + LMK_CFG_MAX_LOGGERS < 2 ^ 32" by (simp add: empty_registry_def LMK_CFG_MAX_LOGGERS_def)
  show ?thesis
    using config_load_safe [OF inv sample_system_ample(2,3) small, where path = "''a.conf''" and k = 0] by auto
qed

text \<open>
  C36. Applying a configuration (any the parser can produce, with distinct logger names) to a
  library that is initialised and has no loggers and handlers yet, when no allocation and no thread
  creation fails, sets both buffer sizes (to their defaults where none is given), makes exactly the
  handlers its sections ask for (a console section leads to the handler named \<open>console\<close>, a file
  section without a file name to none), and every logger section to a logger of that name with the
  given level (\<open>INFO\<close> if none is given), attached to exactly the existing handlers its list names.
  If no two sections make a handler of the same name, each of them makes a handler of its type, with
  its level (\<open>TRACE\<close> if none is given) and its format, and with the settings of the type: file name
  and rotation limits, with their defaults; identity and facility; key and, in order, the listeners
  that have a positive port.
\<close>

theorem config_apply_complete:
  assumes "reg_inv s" "rg_loggers s = []" "rg_handlers s = []" "ample sys" "cfg_ok cfg" "distinct (map cg_name (cf_loggers cfg))"
  shows "\<exists>k' s'. lmk_cfg_apply sys pton sha cfg (k, s) = Some (k', s') \<and> reg_inv s' \<and> rg_config s' = Some (sizes_of cfg) \<and>
    names s' = Some ` section_names cfg \<and>
    (distinct_sections cfg \<longrightarrow> list_all (\<lambda>ch. makes_handler ch \<longrightarrow> section_done pton sha s' ch) (cf_handlers cfg)) \<and>
    list_all (\<lambda>cl. \<exists>p l. rg_logger s' p = Some l \<and> configured s' cl l) (cf_loggers cfg)"
  by (rule cfg_apply_effect [OF assms])

text \<open>A socket handler with a level, a key, and two listeners, one of them without a port.\<close>

definition small_cfg :: lmk_cfg where
  "small_cfg = zero_cfg\<lparr>cf_handlers := [(new_cfg_handler ''net'')\<lparr>ch_type := 2, ch_level := 3, ch_psk := ''k'',
       ch_listeners := [\<lparr>cl_host = ''10.0.0.1'', cl_port = 9000\<rparr>, \<lparr>cl_host = ''10.0.0.2'', cl_port = 0\<rparr>]\<rparr>],
     cf_loggers := [\<lparr>cg_name = ''app'', cg_level = 1, cg_handler_names = [''net'']\<rparr>]\<rparr>"

lemma small_cfg_ok: "cfg_ok small_cfg" "distinct_sections small_cfg" "distinct (map cg_name (cf_loggers small_cfg))"
  by (simp_all add: small_cfg_def zero_cfg_def cfg_ok_def cfg_handler_ok_def cfg_logger_ok_def new_cfg_handler_def strncpy_into_def
      cfg_level_ok_def LMK_IS_VALID_LOG_LEVEL_def level_defs LMK_CFG_MAX_HANDLERS_def LMK_CFG_MAX_LOGGERS_def LMK_CFG_MAX_LISTENERS_def
      LMK_CFG_MAX_HANDLERS_PER_LOGGER_def int_range_def long_range_def distinct_sections_def)

theorem config_apply_complete_witness:
  "\<exists>k' s' p l q h sp. lmk_cfg_apply sample_system (\<lambda>_. Some 7) (\<lambda>_. []) small_cfg (0, empty_registry) = Some (k', s') \<and>
     rg_logger s' p = Some l \<and> lg_name l = ''app'' \<and> lg_log_level l = 1 \<and> q \<in> set (lg_refs l) \<and>
     rg_handler s' q = Some h \<and> lh_type h = SOCKET \<and> lh_log_level h = 3 \<and> lh_ext h = Socket_ext sp \<and>
     sk_log_servers sp = [(7, 9000)] \<and> sk_psk_enabled sp"
proof -
  have e: "rg_loggers empty_registry = []" "rg_handlers empty_registry = []" by (simp_all add: empty_registry_def)
  let ?ch = "(new_cfg_handler ''net'')\<lparr>ch_type := 2, ch_level := 3, ch_psk := ''k'',
       ch_listeners := [\<lparr>cl_host = ''10.0.0.1'', cl_port = 9000\<rparr>, \<lparr>cl_host = ''10.0.0.2'', cl_port = 0\<rparr>]\<rparr>"
  let ?cl = "\<lparr>cg_name = ''app'', cg_level = 1, cg_handler_names = [''net'']\<rparr>"
  have c: "cf_handlers small_cfg = [?ch]" "cf_loggers small_cfg = [?cl]" "makes_handler ?ch" "section_name ?ch = ''net''"
    by (simp_all add: small_cfg_def makes_handler_def section_name_def new_cfg_handler_def strncpy_into_def)
  obtain k' s' p l where s': "lmk_cfg_apply sample_system (\<lambda>_. Some 7) (\<lambda>_. []) small_cfg (0, empty_registry) = Some (k', s')"
    "section_done (\<lambda>_. Some 7) (\<lambda>_. []) s' ?ch" "rg_logger s' p = Some l" "configured s' ?cl l"
    using config_apply_complete [OF empty_registry_inv e sample_system_ample(1) small_cfg_ok(1,3), of "\<lambda>_. Some 7" "\<lambda>_. []" 0]
      small_cfg_ok(2) c(3) unfolding c(1,2) list.pred_inject by blast
  then obtain q h where q: "q \<in> set (rg_handlers s')" "rg_handler s' q = Some h" "handler_configured (\<lambda>_. Some 7) (\<lambda>_. []) ?ch h"
    unfolding section_done_def by blast
  then have "handler_type_code (lh_type h) = 2" "ext_type (lh_ext h) = lh_type h" "lh_name h = Some ''net''" "lh_log_level h = 3"
    "ext_configured (\<lambda>_. Some 7) (\<lambda>_. []) ?ch (lh_ext h)" using c(4) by (simp_all add: handler_configured_def)
  moreover from this obtain sp where "lh_ext h = Socket_ext sp" by (cases "lh_ext h") auto
  moreover have "called s' [''net''] = set (lg_refs l)" "lg_name l = ''app''" "lg_log_level l = 1" using s'(4) by (simp_all add: configured_def)
  ultimately have sp: "lh_ext h = Socket_ext sp" "lh_type h = SOCKET" "lh_log_level h = 3" "sk_log_servers sp = [(7, 9000)]" "sk_psk_enabled sp"
    "lg_name l = ''app''" "lg_log_level l = 1" "called s' [''net''] = set (lg_refs l)"
    by (simp_all add: ext_configured_def listed_servers_def)
  have "q \<in> called s' [''net'']" using q(1,2) \<open>lh_name h = Some ''net''\<close> by (simp add: called_def)
  then show ?thesis using s'(1,3) q(2) sp by blast
qed

text \<open>Initialisation from scratch.\<close>

definition pristine :: "registry \<Rightarrow> bool" where
  "pristine s \<longleftrightarrow> \<not> rg_initialized s \<and> rg_logger s = Map.empty \<and> rg_handler s = Map.empty"

lemma default_sizes_positive: "cfg_log_buffer_size (default_sizes c) > 0" "cfg_ring_buffer_size (default_sizes c) > 0"
  by (auto simp: default_sizes_def LMK_CFG_DEFAULT_LOG_BUFFER_SIZE_def LMK_CFG_DEFAULT_RING_BUFFER_SIZE_def Let_def word_neq_0_conv)

lemma auto_config_safe:
  assumes "reg_inv s" "allocator sys" "strings_copied sys" "length (rg_loggers s) + LMK_CFG_MAX_LOGGERS < 2 ^ 32"
  shows "\<exists>rc k' s'. lmk_apply_auto_config sys pton sha env_path (k, s) = Some (rc, k', s') \<and> reg_inv s'"
  using parse_and_apply_safe [OF assms] by (fastforce simp: lmk_apply_auto_config_def split: option.splits)

lemma init_effect:
  assumes "pristine s" "allocator sys" "strings_copied sys"
  shows "\<exists>k' s'. lmk_init sys pton sha env_path (k, s) = Some (k', s') \<and>
    (if env_ptr (sys k s) = None then pristine s' \<and> rg_config s' = None
     else reg_inv s' \<and> (\<exists>c. rg_config s' = Some c \<and> cfg_log_buffer_size c > 0 \<and> cfg_ring_buffer_size c > 0) \<and>
       lmk_init sys pton sha env_path (k', s') = Some (k', s'))"
proof (cases "env_ptr (sys k s)")
  case None
  then show ?thesis using assms by (simp add: lmk_init_def pristine_def lmk_create_config_def malloc_ok_def)
next
  case (Some p)
  let ?z = "\<lparr>cfg_log_buffer_size = 0, cfg_ring_buffer_size = 0\<rparr>"
  let ?s = "s\<lparr>rg_loggers := [], rg_handlers := [], rg_config := Some ?z, rg_initialized := True\<rparr>"
  have "reg_init ?s" using assms(1) by (simp add: reg_init_def pristine_def)
  then have inv: "reg_inv ?s" by (rule reg_init_inv)
  have small: "length (rg_loggers ?s) + LMK_CFG_MAX_LOGGERS < 2 ^ 32" by (simp add: LMK_CFG_MAX_LOGGERS_def)
  obtain rc k1 s1 where s1: "lmk_apply_auto_config sys pton sha env_path (Suc k, ?s) = Some (rc, k1, s1)" "reg_inv s1"
    using auto_config_safe [OF inv assms(2,3) small] by blast
  then obtain c where c: "rg_config s1 = Some c" using reg_invD(2) by blast
  let ?s' = "s1\<lparr>rg_config := Some (default_sizes c)\<rparr>"
  have "lmk_init sys pton sha env_path (k, s) = Some (k1, ?s')"
    using Some assms(1) s1(1) c by (simp add: lmk_init_def pristine_def lmk_create_config_def malloc_ok_def)
  moreover have "reg_inv ?s'" by (rule reg_inv_config [OF s1(2)])
  moreover have "lmk_init sys pton sha env_path (k1, ?s') = Some (k1, ?s')"
    using reg_invD(1) [OF \<open>reg_inv ?s'\<close>] by (simp add: lmk_init_def)
  ultimately show ?thesis using Some default_sizes_positive [of c] by (intro exI [of _ k1] exI [of _ ?s']) simp
qed

text \<open>
  C37. \<open>lmk_init\<close>, called in a process that has no live loggers and handlers, returns. If the
  configuration cannot be allocated, the library stays uninitialised; otherwise it is initialised,
  its registry satisfies the invariant, and both buffer sizes are positive, whatever configuration
  file was found, and whatever other allocations, files, sockets or threads failed, provided the
  name and the file name of every handler that is made could be copied (\<open>strings_copied\<close>; otherwise
  the code goes on with a \<open>NULL\<close> string and its behaviour is undefined) and the allocator returns
  unused addresses. Calling it again changes nothing.
\<close>

theorem lmk_init_establishes:
  assumes "pristine s" "allocator sys" "strings_copied sys"
  shows "\<exists>k' s'. lmk_init sys pton sha env_path (k, s) = Some (k', s') \<and>
    (if env_ptr (sys k s) = None then \<not> rg_initialized s' \<and> rg_config s' = None
     else reg_inv s' \<and> (\<exists>c. rg_config s' = Some c \<and> cfg_log_buffer_size c > 0 \<and> cfg_ring_buffer_size c > 0) \<and>
       lmk_init sys pton sha env_path (k', s') = Some (k', s'))"
  using init_effect [OF assms, of pton sha env_path k] by (auto simp: pristine_def split: if_splits)

theorem lmk_init_establishes_witness:
  "\<exists>k' s' c. lmk_init sample_system (\<lambda>_. None) (\<lambda>_. []) None (0, empty_registry\<lparr>rg_initialized := False\<rparr>) = Some (k', s') \<and>
     reg_inv s' \<and> rg_config s' = Some c \<and> cfg_ring_buffer_size c > 0"
proof -
  let ?s = "empty_registry\<lparr>rg_initialized := False\<rparr>"
  have p: "pristine ?s" by (simp add: pristine_def empty_registry_def)
  have "env_ptr (sample_system 0 ?s) \<noteq> None" by (simp add: sample_system_def sample_env_def)
  with lmk_init_establishes [OF p sample_system_ample(2,3), of "\<lambda>_. None" "\<lambda>_. []" None 0] show ?thesis by auto
qed

text \<open>
  C38. A console section does not make its handler known under the section's name. Take a
  configuration (any the parser can produce, with distinct logger names), applied to a library that
  is initialised and has no loggers and handlers yet, with no allocation or thread creation failing:
  if every handler section called \<open>x\<close> (other than \<open>console\<close>) is a console section, each logger whose
  list names just \<open>x\<close> is created but attached to no handler, so that what it logs goes nowhere, even
  though a section called \<open>x\<close> makes the console handler.
\<close>

theorem console_section_name_ignored:
  assumes "reg_inv s" "rg_loggers s = []" "rg_handlers s = []" "ample sys" "cfg_ok cfg" "distinct (map cg_name (cf_loggers cfg))"
    and "\<forall>ch\<in>set (cf_handlers cfg). ch_name ch = x \<longrightarrow> ch_type ch = handler_type_code CONSOLE" "x \<noteq> ''console''"
    and "cl \<in> set (cf_loggers cfg)" "cg_handler_names cl = [x]"
  shows "\<exists>k' s' p l. lmk_cfg_apply sys pton sha cfg (k, s) = Some (k', s') \<and> rg_logger s' p = Some l \<and> lg_name l = cg_name cl \<and>
    lg_refs l = [] \<and> ((\<exists>ch\<in>set (cf_handlers cfg). ch_name ch = x) \<longrightarrow> Some ''console'' \<in> names s')"
proof -
  from cfg_apply_effect [OF assms(1-6), of pton sha k] obtain k' s' p l where
    s': "lmk_cfg_apply sys pton sha cfg (k, s) = Some (k', s')" "names s' = Some ` section_names cfg" "rg_logger s' p = Some l" "configured s' cl l"
    using assms(9) by (auto simp: list_all_iff)
  have "x \<notin> section_names cfg" using assms(7,8) by (auto simp: section_names_def section_name_def split: if_splits)
  then have "Some x \<notin> names s'" using s'(2) by auto
  then have "called s' (cg_handler_names cl) = {}" using assms(10) by (force simp: called_def names_def)
  moreover have "''console'' \<in> section_names cfg" if "ch \<in> set (cf_handlers cfg)" "ch_name ch = x" for ch
    using assms(7) that unfolding section_names_def by (intro image_eqI [of _ _ ch]) (auto simp: section_name_def makes_handler_def)
  ultimately have "(\<exists>ch\<in>set (cf_handlers cfg). ch_name ch = x) \<longrightarrow> Some ''console'' \<in> names s'" "lg_refs l = []" "lg_name l = cg_name cl"
    using s'(2,4) by (auto simp: configured_def)
  then show ?thesis using s'(1,3) by blast
qed

theorem console_section_name_ignored_witness:
  "\<exists>k' s' p l. lmk_cfg_apply sample_system (\<lambda>_. None) (\<lambda>_. [])
       (zero_cfg\<lparr>cf_handlers := [(new_cfg_handler ''term'')\<lparr>ch_type := 0\<rparr>, (new_cfg_handler ''net'')\<lparr>ch_type := 2\<rparr>],
          cf_loggers := [\<lparr>cg_name = ''app'', cg_level = -1, cg_handler_names = [''term'']\<rparr>]\<rparr>) (0, empty_registry) = Some (k', s') \<and>
     rg_logger s' p = Some l \<and> lg_name l = ''app'' \<and> lg_refs l = [] \<and> Some ''console'' \<in> names s'"
proof -
  let ?ch = "(new_cfg_handler ''term'')\<lparr>ch_type := 0\<rparr>"
  let ?cl = "\<lparr>cg_name = ''app'', cg_level = -1, cg_handler_names = [''term'']\<rparr>"
  let ?cfg = "zero_cfg\<lparr>cf_handlers := [?ch, (new_cfg_handler ''net'')\<lparr>ch_type := 2\<rparr>], cf_loggers := [?cl]\<rparr>"
  have e: "rg_loggers empty_registry = []" "rg_handlers empty_registry = []" by (simp_all add: empty_registry_def)
  have ok: "cfg_ok ?cfg"
    by (simp add: zero_cfg_def cfg_ok_def cfg_handler_ok_def cfg_logger_ok_def new_cfg_handler_def strncpy_into_def
        cfg_level_ok_def LMK_CFG_MAX_HANDLERS_def LMK_CFG_MAX_LOGGERS_def LMK_CFG_MAX_LISTENERS_def LMK_CFG_MAX_HANDLERS_PER_LOGGER_def
        int_range_def long_range_def)
  have h: "distinct (map cg_name (cf_loggers ?cfg))" "\<forall>ch\<in>set (cf_handlers ?cfg). ch_name ch = ''term'' \<longrightarrow> ch_type ch = handler_type_code CONSOLE"
    "''term'' \<noteq> ''console''" "?cl \<in> set (cf_loggers ?cfg)" "cg_handler_names ?cl = [''term'']"
    by (simp_all add: new_cfg_handler_def strncpy_into_def)
  have "\<exists>ch\<in>set (cf_handlers ?cfg). ch_name ch = ''term''" by (simp add: new_cfg_handler_def strncpy_into_def)
  with console_section_name_ignored [OF empty_registry_inv e sample_system_ample(1) ok h, of "\<lambda>_. None" "\<lambda>_. []" 0] show ?thesis by auto
qed

end
