(* ===== verification/Lifecycle.thy ===== *)
theory Lifecycle
  imports Config_File
begin

text \<open>
  The API as a program sees it. Most entry points (\<open>lmk_get_logger\<close>, \<open>lmk_attach_log_handler\<close>, the
  log functions, the handler constructors, ...) begin with \<open>lmk_init()\<close>, so that the first call
  initialises the library and the first call after \<open>lmk_destroy\<close> initialises it anew. The functions
  of \<open>Registry\<close> are what follows \<open>lmk_init()\<close>; here the two are put together, and the whole library,
  with any number of cycles of initialisation, use and shutdown, is a transition system.
\<close>

section \<open>Entry points\<close>

text \<open>The calls whose function begins with \<open>lmk_init()\<close>. The functions that destroy a handler and the
  setters other than \<open>lmk_set_handler_log_level\<close> do not.\<close>

fun calls_lmk_init :: "api_call \<Rightarrow> bool" where
  "calls_lmk_init (Destroy_handler q) \<longleftrightarrow> False"
| "calls_lmk_init (Change_handler q (Set_level lv)) \<longleftrightarrow> True"
| "calls_lmk_init (Change_handler q f) \<longleftrightarrow> False"
| "calls_lmk_init (Set_filename q f ok) \<longleftrightarrow> False"
| "calls_lmk_init c \<longleftrightarrow> True"

datatype lib_call =
    Init
  | Init_from_file "string option"
  | Call api_call
  | Shutdown

definition enter ::
  "system \<Rightarrow> (string \<Rightarrow> u32 option) \<Rightarrow> (string \<Rightarrow> bytes) \<Rightarrow> string option \<Rightarrow> api_call \<Rightarrow> machine \<Rightarrow> machine option" where
  "enter sys pton sha env_path c m = (if calls_lmk_init c then lmk_init sys pton sha env_path m else Some m)"

fun run_lib ::
  "system \<Rightarrow> (string \<Rightarrow> u32 option) \<Rightarrow> (string \<Rightarrow> bytes) \<Rightarrow> string option \<Rightarrow> lib_call \<Rightarrow> machine \<Rightarrow> machine option" where
  "run_lib sys pton sha env_path Init m = lmk_init sys pton sha env_path m"
| "run_lib sys pton sha env_path (Init_from_file path) m = map_option snd (lmk_init_from_file sys pton sha env_path path m)"
| "run_lib sys pton sha env_path (Call c) m = do {
     (k, s) \<leftarrow> enter sys pton sha env_path c m;
     s \<leftarrow> run_call pton sha c s;
     Some (k, s) }"
| "run_lib sys pton sha env_path Shutdown m = map_option (Pair (fst m)) (lmk_destroy (snd m))"

section \<open>The library as a transition system\<close>

text \<open>Between calls the library is either initialised and intact, or shut down with nothing left alive.\<close>

definition lib_inv :: "machine \<Rightarrow> bool" where
  "lib_inv m \<longleftrightarrow> reg_inv (snd m) \<or> pristine (snd m)"

definition lib_start :: "machine \<Rightarrow> bool" where
  "lib_start m \<longleftrightarrow> pristine (snd m)"

text \<open>What a program has to see to: pointers are valid at the time they are used, and the library is
  initialised by then (it is not only if the allocation of its configuration failed). Initialising
  and shutting down is always allowed.\<close>

fun lib_valid ::
  "system \<Rightarrow> (string \<Rightarrow> u32 option) \<Rightarrow> (string \<Rightarrow> bytes) \<Rightarrow> string option \<Rightarrow> lib_call \<Rightarrow> machine \<Rightarrow> bool" where
  "lib_valid sys pton sha env_path Init m \<longleftrightarrow> True"
| "lib_valid sys pton sha env_path (Init_from_file path) m \<longleftrightarrow>
     (\<forall>k s. lmk_init sys pton sha env_path m = Some (k, s) \<longrightarrow> rg_initialized s \<and> length (rg_loggers s) + LMK_CFG_MAX_LOGGERS < 2 ^ 32)"
| "lib_valid sys pton sha env_path (Call c) m \<longleftrightarrow>
     (\<forall>k s. enter sys pton sha env_path c m = Some (k, s) \<longrightarrow> rg_initialized s \<and> call_valid c s)"
| "lib_valid sys pton sha env_path Shutdown m \<longleftrightarrow> True"

definition lib_step ::
  "system \<Rightarrow> (string \<Rightarrow> u32 option) \<Rightarrow> (string \<Rightarrow> bytes) \<Rightarrow> string option \<Rightarrow> machine \<Rightarrow> lib_call \<Rightarrow> machine \<Rightarrow> bool" where
  "lib_step sys pton sha env_path m c m' \<longleftrightarrow>
     allocator sys \<and> strings_copied sys \<and> lib_valid sys pton sha env_path c m \<and> run_lib sys pton sha env_path c m = Some m'"

lemma lib_inv_initialized: "lib_inv (k, s) \<Longrightarrow> rg_initialized s \<Longrightarrow> reg_inv s"
  by (auto simp: lib_inv_def pristine_def)

lemma init_safe:
  assumes "lib_inv m" "allocator sys" "strings_copied sys"
  shows "\<exists>m'. lmk_init sys pton sha env_path m = Some m' \<and> lib_inv m'"
proof -
  obtain k s where m: "m = (k, s)" by (cases m)
  consider "reg_inv s" | "pristine s" using assms(1) m by (auto simp: lib_inv_def)
  then show ?thesis
  proof cases
    case 1
    then show ?thesis using m reg_invD(1) [OF 1] by (simp add: lmk_init_def lib_inv_def)
  next
    case 2
    from init_effect [OF 2 assms(2,3), of pton sha env_path k] show ?thesis
      using m by (fastforce simp: lib_inv_def split: if_splits)
  qed
qed

lemma enter_safe:
  assumes "lib_inv m" "allocator sys" "strings_copied sys"
  shows "\<exists>m'. enter sys pton sha env_path c m = Some m' \<and> lib_inv m'"
  using assms(1) init_safe [OF assms] by (cases m) (simp add: enter_def)

lemma init_from_file_safe:
  assumes "lib_inv m" "allocator sys" "strings_copied sys" "lib_valid sys pton sha env_path (Init_from_file path) m"
  shows "\<exists>m'. run_lib sys pton sha env_path (Init_from_file path) m = Some m' \<and> lib_inv m'"
proof -
  obtain k s where i: "lmk_init sys pton sha env_path m = Some (k, s)" "lib_inv (k, s)" using init_safe [OF assms(1-3)] by fast
  then have inv: "reg_inv s" and small: "length (rg_loggers s) + LMK_CFG_MAX_LOGGERS < 2 ^ 32"
    using assms(4) lib_inv_initialized by auto
  show ?thesis
  proof (cases path)
    case None
    then show ?thesis using i(1) auto_config_safe [OF inv assms(2,3) small, of pton sha env_path k]
      by (auto simp: lmk_init_from_file_def lib_inv_def)
  next
    case (Some f)
    obtain rc k' s' where "lmk_parse_and_apply sys pton sha f (k, s) = Some (rc, k', s')" "reg_inv s'"
      using parse_and_apply_safe [OF inv assms(2,3) small] by blast
    then show ?thesis using i(1) Some by (simp add: lmk_init_from_file_def lib_inv_def reg_inv_files(2))
  qed
qed

lemma shutdown_safe:
  assumes "lib_inv m"
  shows "\<exists>m'. run_lib sys pton sha env_path Shutdown m = Some m' \<and> pristine (snd m')"
proof (cases "pristine (snd m)")
  case True
  then show ?thesis by (simp add: lmk_destroy_def pristine_def)
next
  case False
  then have "reg_inv (snd m)" using assms by (simp add: lib_inv_def)
  from destroy_effect [OF this] show ?thesis by (auto simp: pristine_def dom_def)
qed

lemma lib_call_safe:
  assumes "lib_inv m" "allocator sys" "strings_copied sys" "lib_valid sys pton sha env_path c m"
  shows "\<exists>m'. run_lib sys pton sha env_path c m = Some m' \<and> lib_inv m'"
proof (cases c)
  case (Call a)
  obtain k s where e: "enter sys pton sha env_path a m = Some (k, s)" "lib_inv (k, s)" using enter_safe [OF assms(1-3)] by fast
  then have "reg_inv s" "call_valid a s" using assms(4) Call lib_inv_initialized by auto
  from call_safe [OF this, of pton sha] show ?thesis using Call e(1) by (auto simp: lib_inv_def)
next
  case Shutdown
  then show ?thesis using shutdown_safe [OF assms(1)] by (auto simp: lib_inv_def)
qed (use assms init_safe init_from_file_safe in auto)

interpretation lib: transition_system lib_start "lib_step sys pton sha env_path" lib_inv for sys pton sha env_path
proof unfold_locales
  show "lib_inv m" if "lib_start m" for m using that by (simp add: lib_start_def lib_inv_def)
  show "lib_inv m'" if "lib_inv m" "lib_step sys pton sha env_path m c m'" for m c m'
    using lib_call_safe [OF that(1), of sys pton sha env_path c] that(2) by (auto simp: lib_step_def)
qed

text \<open>Why the validity of a call asks for an initialised library: if \<open>lmk_init\<close> cannot allocate the
  configuration, it returns all the same, and the constructor that called it goes on to read the
  ring size through the \<open>NULL\<close> configuration.\<close>

lemma failed_init_null_config:
  assumes "\<not> rg_initialized s" "env_ptr (sys k s) = None" "env_ptr e \<noteq> None"
  shows "run_lib sys pton sha env_path (Call (Get_console e)) (k, s) = None"
  using assms
  by (auto simp: enter_def lmk_init_def lmk_create_config_def malloc_ok_def lmk_get_console_log_handler_def lmk_search_log_handler_by_name_def)

section \<open>Properties\<close>

text \<open>
  C27. The library is safe to use: in every state that any sequence of API calls can lead to,
  initialisation, loading of configuration files, shutdown and renewed initialisation included,
  every further call with valid pointers returns (no undefined behaviour, no endless loop) and
  leaves the library either shut down with nothing alive or initialised with lists and structs
  that agree, unique names, live references, levels in range and exact counts. A pointer is valid if
  it is \<open>NULL\<close> or points to a live struct; for \<open>lmk_set_log_filename\<close>, which dereferences it before its
  test, it must not be \<open>NULL\<close>. Whatever the configuration files contain, and whichever threads, files,
  sockets and allocations fail, this holds, but for two kinds of allocation the code does not survive
  and that are assumed to succeed: the configuration (a call other than \<open>lmk_init\<close> and \<open>lmk_destroy\<close>
  needs the library initialised), and the copies of the name and the file name of a new handler
  (\<open>strings_copied\<close>, \<open>copies_ok\<close>). The allocator returns unused addresses, the number of loggers stays
  below \<open>2^32\<close>, and out-of-range numbers in a file are read as the usual C libraries read them. The
  theorem is about the calls; the consumer threads of the handlers are not part of it.
\<close>

theorem library_calls_safe:
  assumes "reachable lib_start (lib_step sys pton sha env_path) m" "allocator sys" "strings_copied sys" "lib_valid sys pton sha env_path c m"
  shows "\<exists>m'. run_lib sys pton sha env_path c m = Some m' \<and> (reg_inv (snd m') \<or> pristine (snd m'))"
  using lib_call_safe [OF lib.reachable_inv [OF assms(1)] assms(2-4)] by (simp add: lib_inv_def)

text \<open>A library that was initialised without a configuration file and shut down again.\<close>

definition used_registry :: registry where
  "used_registry = empty_registry\<lparr>rg_initialized := False, rg_config := None\<rparr>"

definition idle_registry :: registry where
  "idle_registry = empty_registry\<lparr>rg_config := Some (default_sizes \<lparr>cfg_log_buffer_size = 0, cfg_ring_buffer_size = 0\<rparr>)\<rparr>"

lemma idle_init: "lmk_init sample_system pton sha None (k, used_registry) = Some (Suc k, idle_registry)"
  by (simp add: lmk_init_def used_registry_def idle_registry_def empty_registry_def lmk_create_config_def malloc_ok_def
      sample_system_def sample_env_def lmk_apply_auto_config_def lmk_parse_and_apply_def lmk_cfg_parse_file_def)

lemma idle_destroy: "lmk_destroy idle_registry = Some used_registry"
  by (simp add: lmk_destroy_def idle_registry_def used_registry_def empty_registry_def destroy_loggers.simps destroy_handlers.simps)

lemma used_reachable: "reachable lib_start (lib_step sample_system pton sha None) (1, used_registry)"
proof -
  have "reachable lib_start (lib_step sample_system pton sha None) (0, used_registry)"
    by (rule reach_init) (simp add: lib_start_def pristine_def used_registry_def empty_registry_def)
  from reach_step [OF this, of Init "(1, idle_registry)"]
  have "reachable lib_start (lib_step sample_system pton sha None) (1, idle_registry)"
    by (simp add: lib_step_def sample_system_ample(2,3) idle_init)
  from reach_step [OF this, of Shutdown "(1, used_registry)"] show ?thesis
    by (simp add: lib_step_def sample_system_ample(2,3) idle_destroy)
qed

theorem library_calls_safe_witness:
  "\<exists>m'. run_lib sample_system (\<lambda>_. None) (\<lambda>_. []) None (Call (Get_logger (sample_env 10) (Some ''app''))) (1, used_registry) = Some m' \<and>
     rg_loggers (snd m') = [10] \<and> reg_inv (snd m')"
proof -
  let ?c = "Call (Get_logger (sample_env 10) (Some ''app''))"
  have v: "lib_valid sample_system (\<lambda>_. None) (\<lambda>_. []) None ?c (1, used_registry)"
    by (simp add: enter_def idle_init fresh_env_def sample_env_def idle_registry_def empty_registry_def)
  have "map_option (rg_loggers \<circ> snd) (run_lib sample_system (\<lambda>_. None) (\<lambda>_. []) None ?c (1, used_registry)) = Some [10]"
    by (simp add: enter_def idle_init lmk_get_logger_def lmk_search_logger_by_name_def sample_env_def idle_registry_def empty_registry_def)
  moreover have "map_option (rg_initialized \<circ> snd) (run_lib sample_system (\<lambda>_. None) (\<lambda>_. []) None ?c (1, used_registry)) = Some True"
    by (simp add: enter_def idle_init lmk_get_logger_def lmk_search_logger_by_name_def sample_env_def idle_registry_def empty_registry_def)
  ultimately show ?thesis
    using library_calls_safe [OF used_reachable sample_system_ample(2,3) v] by (auto simp: pristine_def)
qed

end
