(* ===== verification/Memory.thy ===== *)
theory Memory
  imports Prelude
begin

text \<open>
  The allocation wrappers (\<open>logmoko_mem.c\<close>). A block is the list of its bytes, \<open>None\<close> a \<open>NULL\<close>
  pointer; \<open>malloc_ok\<close> is whether \<open>malloc\<close> succeeds. The other theories use what is shown here: a
  new struct is zeroed, and a duplicated string reads as the original.
\<close>

definition lmk_malloc :: "bool \<Rightarrow> nat \<Rightarrow> char list option" where
  "lmk_malloc malloc_ok n = (if malloc_ok then Some (replicate n NUL) else None)"

text \<open>\<open>memcpy(dst, src, n)\<close>.\<close>

definition memcpy :: "char list \<Rightarrow> char list \<Rightarrow> nat \<Rightarrow> char list" where
  "memcpy dst src n = take n src @ drop n dst"

text \<open>A C string in memory is its characters and the \<open>NUL\<close> after them.\<close>

definition lmk_strdup :: "bool \<Rightarrow> string option \<Rightarrow> char list option" where
  "lmk_strdup malloc_ok str =
     (case str of
        None \<Rightarrow> None
      | Some str \<Rightarrow>
          let len = length str + 1
          in case lmk_malloc malloc_ok len of
               None \<Rightarrow> None
             | Some new_str \<Rightarrow> Some (memcpy new_str (str @ [NUL]) len))"

lemma strdup_reads_back:
  assumes "NUL \<notin> set s" "lmk_strdup malloc_ok (Some s) = Some b"
  shows "cstr b = s" "length b = length s + 1"
  using assms by (auto simp: lmk_strdup_def lmk_malloc_def memcpy_def Let_def split: if_splits)

lemma strdup_fails: "lmk_strdup malloc_ok str = None \<longleftrightarrow> str = None \<or> \<not> malloc_ok"
  by (auto simp: lmk_strdup_def lmk_malloc_def Let_def split: option.splits)

end
