(* ===== verification/Rate_Limiter.thy ===== *)
theory Rate_Limiter
  imports Complex_Main
begin

text \<open>
  The rate limiter (\<open>logmoko_rate_limiter.c\<close>). A \<open>double\<close> is a real number, and every operation on
  doubles rounds its result: the rounding is the argument \<open>fl\<close> of the definitions, applied where C
  converts to \<open>double\<close>, adds, subtracts, multiplies and divides; what the properties rely on is the
  hypothesis \<open>ieee_double\<close>. A \<open>struct timespec\<close> is a pair of seconds and nanoseconds.
  \<open>lmk_rate_limiter_wait\<close> takes the reading of the monotonic clock as an argument and returns the
  argument it passes to \<open>nanosleep\<close>, or \<open>None\<close> if it does not call it: what is modelled is the sleep
  it asks for (a signal can end a sleep early, and the code does not resume it). \<open>rl->count\<close> is an
  \<open>int\<close> without a bound; the properties are about fewer than \<open>2^53\<close> calls, which fit a \<open>long\<close>.
\<close>

record lmk_rate_limiter =
  rl_rps :: int
  rl_count :: int
  rl_start :: real

type_synonym timespec = "int \<times> int"

text \<open>The time a \<open>timespec\<close> stands for.\<close>

definition seconds :: "timespec \<Rightarrow> real" where
  "seconds t = of_int (fst t) + of_int (snd t) / 10 ^ 9"

definition rl_now :: "(real \<Rightarrow> real) \<Rightarrow> timespec \<Rightarrow> real" where
  "rl_now fl t = fl (fl (of_int (fst t)) + fl (fl (of_int (snd t)) / 10 ^ 9))"

definition lmk_rate_limiter_init :: "int \<Rightarrow> lmk_rate_limiter" where
  "lmk_rate_limiter_init rps = \<lparr>rl_rps = rps, rl_count = 0, rl_start = 0\<rparr>"

text \<open>The casts to \<open>time_t\<close> and \<open>long\<close> truncate.\<close>

definition c_trunc :: "real \<Rightarrow> int" where
  "c_trunc x = (if x \<ge> 0 then \<lfloor>x\<rfloor> else \<lceil>x\<rceil>)"

definition to_timespec :: "(real \<Rightarrow> real) \<Rightarrow> real \<Rightarrow> timespec" where
  "to_timespec fl wait =
     (let tv_sec = c_trunc wait; tv_nsec = c_trunc (fl (fl (wait - fl (of_int tv_sec)) * 10 ^ 9)) in (tv_sec, tv_nsec))"

definition lmk_rate_limiter_wait :: "(real \<Rightarrow> real) \<Rightarrow> timespec \<Rightarrow> lmk_rate_limiter \<Rightarrow> lmk_rate_limiter \<times> timespec option" where
  "lmk_rate_limiter_wait fl clock rl =
     (if rl_rps rl \<le> 0 then (rl, None)
      else
        let now = rl_now fl clock;
            rl = (if rl_start rl = 0 then rl\<lparr>rl_start := now\<rparr> else rl);
            rl = rl\<lparr>rl_count := rl_count rl + 1\<rparr>;
            deadline = fl (rl_start rl + fl (fl (of_int (rl_count rl)) / fl (of_int (rl_rps rl))));
            wait = fl (deadline - now)
        in (rl, if wait > 0 then Some (to_timespec fl wait) else None))"

definition lmk_rate_limiter_reset :: "lmk_rate_limiter \<Rightarrow> lmk_rate_limiter" where
  "lmk_rate_limiter_reset rl = rl\<lparr>rl_count := 0, rl_start := 0\<rparr>"

text \<open>A run: the clock reading at each call of \<open>lmk_rate_limiter_wait\<close>, and the sleep each call asks for.\<close>

fun run_waits :: "(real \<Rightarrow> real) \<Rightarrow> timespec list \<Rightarrow> lmk_rate_limiter \<Rightarrow> lmk_rate_limiter \<times> timespec option list" where
  "run_waits fl [] rl = (rl, [])"
| "run_waits fl (c # cs) rl =
     (let (rl, z) = lmk_rate_limiter_wait fl c rl; (rl, zs) = run_waits fl cs rl in (rl, z # zs))"

definition requested :: "timespec option \<Rightarrow> real" where
  "requested z = (case z of None \<Rightarrow> 0 | Some t \<Rightarrow> seconds t)"

section \<open>Rounding\<close>

text \<open>What IEEE 754 promises of \<open>double\<close> in rounding to nearest: a result in range has a relative error
  of at most \<open>2^-53\<close>, or where it underflows an absolute one of at most \<open>2^-1075\<close>; integers up to \<open>2^53\<close>
  are exact; a result is not negative when its exact value is not.\<close>

definition ieee_double :: "(real \<Rightarrow> real) \<Rightarrow> bool" where
  "ieee_double fl \<longleftrightarrow> (\<forall>x. \<bar>x\<bar> \<le> 2 ^ 1000 \<longrightarrow> \<bar>fl x - x\<bar> \<le> \<bar>x\<bar> / 2 ^ 53 + 1 / 2 ^ 1075) \<and>
     (\<forall>i. \<bar>i\<bar> \<le> 2 ^ 53 \<longrightarrow> fl (of_int i) = of_int i) \<and> (\<forall>x. 0 \<le> x \<longrightarrow> 0 \<le> fl x)"

text \<open>Rounding to the nearest number with 53 significant bits.\<close>

definition round_double :: "real \<Rightarrow> real" where
  "round_double x =
     (if x = 0 then 0
      else let ulp = 2 powr of_int (\<lfloor>log 2 \<bar>x\<bar>\<rfloor> - 52) in of_int (round (x / ulp)) * ulp)"

lemma round_double_error: "\<bar>round_double x - x\<bar> \<le> \<bar>x\<bar> / 2 ^ 53"
proof (cases "x = 0")
  case False
  define e where "e = \<lfloor>log 2 \<bar>x\<bar>\<rfloor>"
  define p :: real where "p = 2 powr of_int (e - 52)"
  have p: "p > 0" by (simp add: p_def)
  have "\<bar>of_int (round (x / p)) - x / p\<bar> * p \<le> 1 / 2 * p" using of_int_round_abs_le [of "x / p"] p by (intro mult_right_mono) auto
  moreover have "(of_int (round (x / p)) - x / p) * p = round_double x - x" using False p by (simp add: round_double_def Let_def e_def p_def algebra_simps)
  ultimately have "\<bar>round_double x - x\<bar> \<le> p / 2" using p by (metis abs_mult abs_of_pos mult_1 times_divide_eq_left)
  moreover have "p * 2 ^ 52 = 2 powr of_int e" by (simp add: p_def powr_diff)
  moreover have "2 powr of_int e \<le> 2 powr log 2 \<bar>x\<bar>" by (intro powr_mono) (simp_all add: e_def)
  moreover have "2 powr log 2 \<bar>x\<bar> = \<bar>x\<bar>" using False by simp
  ultimately show ?thesis by simp
qed (simp add: round_double_def)

lemma round_double_int:
  fixes i :: int
  assumes "\<bar>i\<bar> \<le> 2 ^ 53"
  shows "round_double (of_int i) = of_int i"
proof (cases "i = 0")
  case False
  define e where "e = \<lfloor>log 2 \<bar>real_of_int i\<bar>\<rfloor>"
  define p :: real where "p = 2 powr of_int (e - 52)"
  have p: "p > 0" by (simp add: p_def)
  have i: "1 \<le> \<bar>real_of_int i\<bar>" "\<bar>real_of_int i\<bar> \<le> 2 ^ 53"
    using False assms by (auto simp flip: of_int_abs)
  have "\<exists>j. real_of_int i / p = of_int j"
  proof (cases "e \<le> 52")
    case True
    then have "2 powr of_int (52 - e) = (2::real) ^ nat (52 - e)" by (subst powr_realpow [symmetric]) simp_all
    moreover have "1 / p = 2 powr of_int (52 - e)" by (simp add: p_def powr_diff)
    ultimately have "real_of_int i * (1 / p) = of_int (i * 2 ^ nat (52 - e))" by (simp only: of_int_mult of_int_power of_int_numeral)
    then have "real_of_int i / p = of_int (i * 2 ^ nat (52 - e))" by simp
    then show ?thesis by blast
  next
    case False
    have "log 2 \<bar>real_of_int i\<bar> \<le> log 2 (2 ^ 53)" using i by (subst log_le_cancel_iff) auto
    also have "log 2 (2 ^ 53) = (53::real)" using log_nat_power [of 2 2 53] by simp
    finally have "e \<le> 53" unfolding e_def by linarith
    then have "e = 53" using False by simp
    then have "53 \<le> log 2 \<bar>real_of_int i\<bar>" unfolding e_def by linarith
    then have "2 powr 53 \<le> \<bar>real_of_int i\<bar>" using i(1) by (subst (asm) le_log_iff) auto
    then have "\<bar>real_of_int i\<bar> = 2 ^ 53" using i(2) by simp
    then have "real_of_int i = of_int (2 ^ 53) \<or> real_of_int i = of_int (- (2 ^ 53))" by auto
    then have "real_of_int i / 2 = of_int (2 ^ 52) \<or> real_of_int i / 2 = of_int (- (2 ^ 52))" by auto
    moreover have "p = 2" using \<open>e = 53\<close> by (simp add: p_def)
    ultimately show ?thesis by metis
  qed
  then obtain j where "real_of_int i / p = of_int j" by blast
  moreover from this have "of_int j * p = real_of_int i" using p by (metis less_irrefl nonzero_eq_divide_eq)
  moreover have "round_double (of_int i) = of_int (round (real_of_int i / p)) * p"
    using False by (simp add: round_double_def Let_def e_def p_def)
  ultimately show ?thesis by simp
qed (simp add: round_double_def)

lemma round_double_ieee: "ieee_double round_double"
proof -
  have "\<bar>round_double x - x\<bar> \<le> \<bar>x\<bar> / 2 ^ 53 + 1 / 2 ^ 1075" for x using round_double_error [of x] by (rule order_trans) simp
  moreover have "0 \<le> round_double x" if "0 \<le> x" for x
  proof -
    have "0 \<le> round (x / 2 powr of_int (\<lfloor>log 2 \<bar>x\<bar>\<rfloor> - 52))" using that round_mono [of 0 "x / 2 powr of_int (\<lfloor>log 2 \<bar>x\<bar>\<rfloor> - 52)"] by simp
    then show ?thesis by (simp add: round_double_def Let_def)
  qed
  ultimately show ?thesis unfolding ieee_double_def using round_double_int by blast
qed

lemma fl_error:
  assumes "ieee_double fl" "\<bar>x\<bar> \<le> 2 ^ 1000"
  shows "\<bar>fl x - x\<bar> \<le> (\<bar>x\<bar> + 1) / 2 ^ 53"
proof -
  have "\<bar>fl x - x\<bar> \<le> \<bar>x\<bar> / 2 ^ 53 + 1 / 2 ^ 1075" using assms by (simp add: ieee_double_def)
  moreover have "(1::real) / 2 ^ 1075 \<le> 1 / 2 ^ 53" by simp
  ultimately show ?thesis unfolding add_divide_distrib by linarith
qed

lemma fl_int: "ieee_double fl \<Longrightarrow> \<bar>i\<bar> \<le> 2 ^ 53 \<Longrightarrow> fl (of_int i) = of_int i"
  by (simp add: ieee_double_def)

lemma fl_nonneg: "ieee_double fl \<Longrightarrow> 0 \<le> x \<Longrightarrow> 0 \<le> fl x"
  by (simp add: ieee_double_def)

section \<open>The error of a wait\<close>

text \<open>A normal reading of a clock that has run for at most \<open>B\<close> seconds.\<close>

definition reading :: "real \<Rightarrow> timespec \<Rightarrow> bool" where
  "reading B t \<longleftrightarrow> 0 \<le> fst t \<and> 0 \<le> snd t \<and> snd t < 10 ^ 9 \<and> seconds t \<le> B"

text \<open>The bound \<open>(x + 1) u\<close> on the error of one operation, with \<open>u\<close> for \<open>2^-53\<close>.\<close>

lemma fl_near:
  assumes "ieee_double fl" "\<bar>x\<bar> \<le> m" "m \<le> 2 ^ 60" "u = 1 / 2 ^ 53"
  shows "\<bar>fl x - x\<bar> \<le> m * u + u"
proof -
  have "(2::real) ^ 60 \<le> 2 ^ 1000" by (rule power_increasing) simp_all
  then have "\<bar>fl x - x\<bar> \<le> (\<bar>x\<bar> + 1) / 2 ^ 53" using assms by (intro fl_error) auto
  also have "\<dots> \<le> (m + 1) / 2 ^ 53" using assms(2) by (intro divide_right_mono) auto
  also have "\<dots> = m * u + u" unfolding assms(4) by (simp add: add_divide_distrib)
  finally show ?thesis .
qed

lemma roundoff_small:
  fixes B u :: real
  assumes "1 \<le> B" "B \<le> 2 ^ 40" "u = 1 / 2 ^ 53"
  shows "0 < u" "u \<le> B * u" "B * u \<le> 1 / 8192"
proof -
  show "0 < u" using assms(3) by simp
  then show "u \<le> B * u" using assms(1) by simp
  have "B * u \<le> 2 ^ 40 * u" using assms(2) \<open>0 < u\<close> by simp
  also have "\<dots> = 1 / 8192" using assms(3) by simp
  finally show "B * u \<le> 1 / 8192" .
qed

lemma now_error:
  assumes "ieee_double fl" "1 \<le> B" "B \<le> 2 ^ 40" "reading B t" "u = 1 / 2 ^ 53"
  shows "\<bar>rl_now fl t - seconds t\<bar> \<le> B * u + 4 * u"
proof -
  note u = roundoff_small [OF assms(2,3,5)]
  let ?q = "real_of_int (snd t) / 10 ^ 9"
  have q: "0 \<le> ?q" "?q < 1" "0 \<le> real_of_int (fst t)" "real_of_int (fst t) + ?q \<le> B" using assms(4) by (simp_all add: reading_def seconds_def)
  then have "real_of_int (fst t) \<le> of_int (2 ^ 53)" using assms(3) by simp
  then have i: "fl (of_int (fst t)) = of_int (fst t)" "fl (of_int (snd t)) = of_int (snd t)"
    using assms(4) by (auto simp: reading_def intro!: fl_int [OF assms(1)] simp del: of_int_power)
  have e1: "\<bar>fl ?q - ?q\<bar> \<le> 1 * u + u" by (rule fl_near [OF assms(1) _ _ assms(5)]) (use q in auto)
  have "\<bar>of_int (fst t) + fl ?q\<bar> \<le> B + 1" using e1 q u by linarith
  then have "\<bar>fl (of_int (fst t) + fl ?q) - (of_int (fst t) + fl ?q)\<bar> \<le> (B + 1) * u + u"
    by (rule fl_near [OF assms(1) _ _ assms(5)]) (use assms(3) in simp)
  moreover have "(B + 1) * u = B * u + u" by (simp add: algebra_simps)
  ultimately show ?thesis using e1 by (simp add: rl_now_def seconds_def i)
qed

lemma timespec_error:
  assumes "ieee_double fl" "0 < w" "w \<le> 2 ^ 50" "u = 1 / 2 ^ 53"
  shows "w - 1 / 10 ^ 9 - 5 * u < seconds (to_timespec fl w)" "seconds (to_timespec fl w) \<le> w + 5 * u"
proof -
  have u: "0 < u" "u \<le> 1 / 2" using assms(4) by simp_all
  define k where "k = \<lfloor>w\<rfloor>"
  define f where "f = fl (w - of_int k)"
  define g where "g = fl (f * 10 ^ 9)"
  have k: "0 \<le> k" "of_int k \<le> w" "w < of_int k + 1" using assms(2) unfolding k_def by (auto simp: zero_le_floor)
  have "real_of_int k \<le> of_int (2 ^ 53)" using k assms(3) by simp
  then have "fl (of_int k) = of_int k" using k(1) by (intro fl_int [OF assms(1)]) (simp del: of_int_power)
  moreover have f: "\<bar>f - (w - of_int k)\<bar> \<le> 1 * u + u" "0 \<le> f" unfolding f_def
    by (rule fl_near [OF assms(1) _ _ assms(4)], use k in auto, rule fl_nonneg [OF assms(1)], simp)
  moreover have g: "\<bar>g - f * 10 ^ 9\<bar> \<le> (2 * 10 ^ 9) * u + u" "0 \<le> g" unfolding g_def
    by (rule fl_near [OF assms(1) _ _ assms(4)], use f k u in auto, rule fl_nonneg [OF assms(1)], simp)
  ultimately have ts: "to_timespec fl w = (k, \<lfloor>g\<rfloor>)" using assms(2) by (simp add: to_timespec_def c_trunc_def k_def f_def g_def Let_def)
  have n: "of_int \<lfloor>g\<rfloor> \<le> g" "g < of_int \<lfloor>g\<rfloor> + 1" by linarith+
  show "w - 1 / 10 ^ 9 - 5 * u < seconds (to_timespec fl w)" "seconds (to_timespec fl w) \<le> w + 5 * u"
    using f(1) g(1) n u by (simp_all add: ts seconds_def field_simps) linarith+
qed

text \<open>The \<open>n\<close>-th call of a run whose first call read the clock at \<open>start\<close>: up to an error of a nanosecond,
  for the truncation to nanoseconds, and of \<open>B / 2^48\<close> seconds, for the rounding of doubles, the clock
  reading and the sleep the call asks for reach the call's deadline, and a sleep does not exceed it.\<close>

definition paced :: "real \<Rightarrow> timespec \<Rightarrow> int \<Rightarrow> int \<Rightarrow> timespec \<Rightarrow> timespec option \<Rightarrow> bool" where
  "paced B start rps n clock z \<longleftrightarrow>
     seconds start + of_int n / of_int rps - 1 / 10 ^ 9 - B / 2 ^ 48 < seconds clock + requested z \<and>
     (z \<noteq> None \<longrightarrow> seconds clock + requested z \<le> seconds start + of_int n / of_int rps + B / 2 ^ 48)"

lemma wait_error:
  assumes "ieee_double fl" "1 \<le> B" "B \<le> 2 ^ 40" "u = 1 / 2 ^ 53" "reading B c0" "reading B c"
    and n: "0 < rps" "rps < 2 ^ 31" "0 \<le> n" "n \<le> 2 ^ 53" "of_int n / of_int rps \<le> B"
    and w: "w = fl (fl (rl_now fl c0 + fl (fl (of_int n) / fl (of_int rps))) - rl_now fl c)"
  shows "\<bar>w - (seconds c0 + of_int n / of_int rps - seconds c)\<bar> \<le> 8 * (B * u) + 17 * u" "w \<le> 2 ^ 50"
proof -
  note u = roundoff_small [OF assms(2-4)]
  note near = fl_near [OF assms(1) _ _ assms(4)]
  let ?q = "real_of_int n / of_int rps"
  have q: "0 \<le> ?q" using n by simp
  have now: "\<bar>rl_now fl c0 - seconds c0\<bar> \<le> B * u + 4 * u" "\<bar>rl_now fl c - seconds c\<bar> \<le> B * u + 4 * u"
    using now_error [OF assms(1-3) _ assms(4)] assms(5,6) by blast+
  have s: "0 \<le> seconds c0" "seconds c0 \<le> B" "0 \<le> seconds c" "seconds c \<le> B" using assms(5,6) by (simp_all add: reading_def seconds_def)
  have i: "fl (of_int n) = of_int n" "fl (of_int rps) = of_int rps" using n by (auto intro!: fl_int [OF assms(1)])
  have e1: "\<bar>fl ?q - ?q\<bar> \<le> B * u + u" by (rule near) (use q n(5) assms(3) in auto)
  define d where "d = rl_now fl c0 + fl ?q"
  have d: "\<bar>d\<bar> \<le> 2 * B + 2" unfolding d_def using e1 now s q n(5) u by linarith
  then have "\<bar>fl d - d\<bar> \<le> (2 * B + 2) * u + u" by (rule near) (use assms(3) in simp)
  then have e2: "\<bar>fl d - d\<bar> \<le> 2 * (B * u) + 3 * u" by (simp add: algebra_simps)
  have d2: "\<bar>fl d - rl_now fl c\<bar> \<le> 3 * B + 4" using e2 d now s u by linarith
  then have "\<bar>fl (fl d - rl_now fl c) - (fl d - rl_now fl c)\<bar> \<le> (3 * B + 4) * u + u" by (rule near) (use assms(3) in simp)
  then have e3: "\<bar>w - (fl d - rl_now fl c)\<bar> \<le> 3 * (B * u) + 5 * u" by (simp add: w i d_def algebra_simps)
  show "\<bar>w - (seconds c0 + ?q - seconds c)\<bar> \<le> 8 * (B * u) + 17 * u" using e1 e2 e3 now d_def by linarith
  have "w \<le> 3 * B + 5" using e3 d2 u by linarith
  then show "w \<le> 2 ^ 50" using assms(3) by simp
qed

lemma wait_paced:
  assumes fl: "ieee_double fl" and B: "1 \<le> B" "B \<le> 2 ^ 40" "reading B c0" "reading B c"
    and n: "0 < rps" "rps < 2 ^ 31" "0 \<le> n" "n \<le> 2 ^ 53" "of_int n / of_int rps \<le> B"
    and w: "w = fl (fl (rl_now fl c0 + fl (fl (of_int n) / fl (of_int rps))) - rl_now fl c)"
  shows "paced B c0 rps n c (if w > 0 then Some (to_timespec fl w) else None)"
proof -
  define u :: real where "u = 1 / 2 ^ 53"
  note u = roundoff_small [OF B(1,2) u_def]
  note e = wait_error [OF fl B(1,2) u_def B(3,4) n w]
  have r: "B / 2 ^ 48 = 32 * (B * u)" by (simp add: u_def)
  show ?thesis
  proof (cases "w > 0")
    case True
    let ?z = "seconds (to_timespec fl w)"
    note z = timespec_error [OF fl True e(2) u_def]
    have "seconds c0 + of_int n / of_int rps - 1 / 10 ^ 9 - 32 * (B * u) < seconds c + ?z" using e(1) u z(1) by linarith
    moreover have "seconds c + ?z \<le> seconds c0 + of_int n / of_int rps + 32 * (B * u)" using e(1) u z(2) by linarith
    ultimately show ?thesis using True unfolding paced_def r by (simp add: requested_def)
  next
    case False
    have "0 < (1::real) / 10 ^ 9" by simp
    then have "seconds c0 + of_int n / of_int rps - 1 / 10 ^ 9 - 32 * (B * u) < seconds c" using e(1) u False by linarith
    then show ?thesis using False unfolding paced_def r by (simp add: requested_def)
  qed
qed

lemma wait_started:
  assumes fl: "ieee_double fl" and B: "1 \<le> B" "B \<le> 2 ^ 40" "reading B c0" "reading B c"
    and rl: "rl_start rl = rl_now fl c0" "rl_now fl c0 \<noteq> 0" "0 < rl_rps rl" "rl_rps rl < 2 ^ 31" "0 \<le> rl_count rl"
    and n: "rl_count rl + 1 \<le> 2 ^ 53" "of_int (rl_count rl + 1) / of_int (rl_rps rl) \<le> B"
  shows "\<exists>z. lmk_rate_limiter_wait fl c rl = (rl\<lparr>rl_count := rl_count rl + 1\<rparr>, z) \<and>
    paced B c0 (rl_rps rl) (rl_count rl + 1) c z"
proof -
  let ?w = "fl (fl (rl_now fl c0 + fl (fl (of_int (rl_count rl + 1)) / fl (of_int (rl_rps rl)))) - rl_now fl c)"
  have "0 \<le> rl_count rl + 1" using rl(5) by simp
  from wait_paced [OF fl B rl(3,4) this n refl] have "paced B c0 (rl_rps rl) (rl_count rl + 1) c (if ?w > 0 then Some (to_timespec fl ?w) else None)" .
  moreover have "lmk_rate_limiter_wait fl c rl = (rl\<lparr>rl_count := rl_count rl + 1\<rparr>, if ?w > 0 then Some (to_timespec fl ?w) else None)"
    using rl(1-3) by (simp add: lmk_rate_limiter_wait_def Let_def)
  ultimately show ?thesis by blast
qed

lemma run_waits_started:
  assumes fl: "ieee_double fl" and B: "1 \<le> B" "B \<le> 2 ^ 40" "reading B c0"
    and "rl_start rl = rl_now fl c0" "rl_now fl c0 \<noteq> 0" "0 < rl_rps rl" "rl_rps rl < 2 ^ 31" "0 \<le> rl_count rl"
    and "list_all (reading B) cs" "rl_count rl + int (length cs) \<le> 2 ^ 53" "of_int (rl_count rl + int (length cs)) / of_int (rl_rps rl) \<le> B"
  shows "length (snd (run_waits fl cs rl)) = length cs \<and> fst (run_waits fl cs rl) = rl\<lparr>rl_count := rl_count rl + int (length cs)\<rparr> \<and>
    (\<forall>i<length cs. paced B c0 (rl_rps rl) (rl_count rl + int i + 1) (cs ! i) (snd (run_waits fl cs rl) ! i))"
  using assms(5-)
proof (induction cs arbitrary: rl)
  case (Cons c cs)
  let ?rl = "rl\<lparr>rl_count := rl_count rl + 1\<rparr>"
  have "real_of_int (rl_count rl + 1) / of_int (rl_rps rl) \<le> of_int (rl_count rl + int (length (c # cs))) / of_int (rl_rps rl)"
    using Cons.prems(3) by (intro divide_right_mono) auto
  then have "real_of_int (rl_count rl + 1) / of_int (rl_rps rl) \<le> B" using Cons.prems(8) by linarith
  then obtain z where z: "lmk_rate_limiter_wait fl c rl = (?rl, z)" "paced B c0 (rl_rps rl) (rl_count rl + 1) c z"
    using wait_started [OF fl B _ Cons.prems(1-5), of c] Cons.prems(6,7) by auto
  obtain rl' zs where zs: "run_waits fl cs ?rl = (rl', zs)" by fastforce
  have IH: "length zs = length cs" "rl' = rl\<lparr>rl_count := rl_count rl + 1 + int (length cs)\<rparr>"
    "\<And>i. i < length cs \<Longrightarrow> paced B c0 (rl_rps rl) (rl_count rl + 1 + int i + 1) (cs ! i) (zs ! i)"
    using Cons.IH [of ?rl] Cons.prems zs by (auto simp: add.assoc)
  have run: "run_waits fl (c # cs) rl = (rl', z # zs)" by (simp add: z(1) zs)
  have "paced B c0 (rl_rps rl) (rl_count rl + int i + 1) ((c # cs) ! i) ((z # zs) ! i)" if i: "i < length (c # cs)" for i
  proof (cases i)
    case (Suc j)
    have "rl_count rl + 1 + int j + 1 = rl_count rl + int i + 1" using Suc by simp
    then show ?thesis using IH(3) [of j] i Suc by simp
  qed (use z(2) in simp)
  then show ?case using IH(1,2) unfolding run by simp
qed simp

lemma run_waits_init:
  assumes "rps > 0" "rl_now fl c \<noteq> 0"
  shows "run_waits fl (c # cs) (lmk_rate_limiter_init rps) = run_waits fl (c # cs) \<lparr>rl_rps = rps, rl_count = 0, rl_start = rl_now fl c\<rparr>"
  using assms by (simp add: lmk_rate_limiter_wait_def lmk_rate_limiter_init_def Let_def)

lemma now_nonzero:
  assumes "ieee_double fl" "1 \<le> B" "B \<le> 2 ^ 40" "reading B c" "fst c \<ge> 1"
  shows "rl_now fl c \<noteq> 0"
proof -
  define u :: real where "u = 1 / 2 ^ 53"
  note u = roundoff_small [OF assms(2,3) u_def]
  have "1 \<le> seconds c" using assms(4,5) by (auto simp: reading_def seconds_def)
  then show ?thesis using now_error [OF assms(1-4) u_def] u by linarith
qed

section \<open>Properties\<close>

text \<open>
  C39. The limiter paces to its rate without drift, up to the precision of \<open>double\<close>. Take a run of
  calls after \<open>init\<close> with a positive rate, with rounding as IEEE 754 prescribes, whatever the clock
  shows at each call, as long as its readings are normal and at most \<open>B\<close> (between one and \<open>2^40\<close>
  seconds), the first is not in the clock's first second (a start of zero stands for ``not started''),
  there are at most \<open>2^53\<close> calls and the last deadline is at most \<open>B\<close> seconds after the first call. Then
  the sleep the \<open>n\<close>-th call asks for ends no earlier than \<open>n/rps\<close> seconds after the first reading, less one
  nanosecond and \<open>B/2^48\<close> seconds, and no later than that deadline plus \<open>B/2^48\<close> seconds (4
  nanoseconds for a machine that has been up for \<open>2^20\<close> seconds, about twelve days); the errors do not
  add up over the calls. Every call is counted; and a limiter with a rate of zero or less never asks
  for a sleep. An interrupted sleep, which the code does not resume, is not covered.
\<close>

theorem rate_limiter_paces:
  assumes "ieee_double fl" "1 \<le> B" "B \<le> 2 ^ 40" "list_all (reading B) (c # cs)" "fst c \<ge> 1"
    and "0 < rps" "rps < 2 ^ 31" "int (length (c # cs)) \<le> 2 ^ 53" "of_int (int (length (c # cs))) / of_int rps \<le> B"
  shows "(\<exists>rl zs. run_waits fl (c # cs) (lmk_rate_limiter_init rps) = (rl, zs) \<and> rl_count rl = int (length (c # cs)) \<and>
      length zs = length (c # cs) \<and> (\<forall>i < length (c # cs). paced B c rps (int i + 1) ((c # cs) ! i) (zs ! i))) \<and>
    (\<forall>r t. r \<le> 0 \<longrightarrow> lmk_rate_limiter_wait fl t (lmk_rate_limiter_init r) = (lmk_rate_limiter_init r, None))"
proof -
  let ?rl = "\<lparr>rl_rps = rps, rl_count = 0, rl_start = rl_now fl c\<rparr>"
  have c: "reading B c" using assms(4) by simp
  have nz: "rl_now fl c \<noteq> 0" by (rule now_nonzero [OF assms(1-3) c assms(5)])
  obtain rl zs where r: "run_waits fl (c # cs) ?rl = (rl, zs)" by fastforce
  have "length zs = length (c # cs)" "rl = ?rl\<lparr>rl_count := int (length (c # cs))\<rparr>"
    "\<forall>i<length (c # cs). paced B c rps (int i + 1) ((c # cs) ! i) (zs ! i)"
    using run_waits_started [OF assms(1-3) c, of ?rl "c # cs"] nz assms(4,6-9) unfolding r by auto
  then show ?thesis
    unfolding run_waits_init [OF assms(6) nz] r by (auto simp: lmk_rate_limiter_wait_def lmk_rate_limiter_init_def)
qed

theorem rate_limiter_paces_witness:
  "\<exists>rl zs. run_waits round_double [(5, 0), (5, 1)] (lmk_rate_limiter_init 1000) = (rl, zs) \<and> rl_count rl = 2 \<and>
     paced 8 (5, 0) 1000 2 (5, 1) (zs ! 1)"
proof -
  have "list_all (reading 8) [(5, 0), (5, 1)]" by (simp add: reading_def seconds_def)
  then obtain rl zs where "run_waits round_double [(5, 0), (5, 1)] (lmk_rate_limiter_init 1000) = (rl, zs)" "rl_count rl = 2"
    "\<forall>i < 2. paced 8 (5, 0) 1000 (int i + 1) ([(5, 0), (5, 1)] ! i) (zs ! i)"
    using rate_limiter_paces [OF round_double_ieee, of 8 "(5, 0)" "[(5, 1)]" 1000] by (auto simp: numeral_2_eq_2)
  then show ?thesis by (metis One_nat_def lessI nth_Cons_0 nth_Cons_Suc numeral_2_eq_2 of_nat_1 one_add_one)
qed

end
