(* ===== verification/Receiver.thy ===== *)
theory Receiver
  imports Encryption C_Library
begin

text \<open>
  The log receiver (\<open>logmoko_log_receiver.c\<close>): its options, the checks before it listens, and its
  loop. \<open>getopt\<close>'s results are a list of option letters with their arguments (a letter that is not
  an option is \<open>?\<close>); the results of \<open>socket\<close>, \<open>inet_pton\<close>, \<open>bind\<close> and \<open>EVP_CIPHER_CTX_new\<close> are
  arguments. The loop is given the results of \<open>recvfrom\<close>: a datagram, or \<open>None\<close> for an error.
\<close>

definition DEFAULT_PORT :: int where "DEFAULT_PORT = 9000"
definition MAX_PACKET_SIZE :: nat where "MAX_PACKET_SIZE = 4096"

section \<open>Start\<close>

record receiver_options =
  ro_psk :: "string option"
  ro_host :: string
  ro_port :: int

definition default_options :: receiver_options where
  "default_options = \<lparr>ro_psk = None, ro_host = ''0.0.0.0'', ro_port = DEFAULT_PORT\<rparr>"

fun parse_options :: "(char \<times> string) list \<Rightarrow> receiver_options \<Rightarrow> receiver_options option" where
  "parse_options [] o' = Some o'"
| "parse_options ((c, arg) # rest) o' =
     (if c = CHR ''p'' then parse_options rest (o'\<lparr>ro_psk := Some arg\<rparr>)
      else if c = CHR ''b'' then parse_options rest (o'\<lparr>ro_host := arg\<rparr>)
      else if c = CHR ''l'' then parse_options rest (o'\<lparr>ro_port := atoi arg\<rparr>)
      else None)"

datatype receiver_error = Usage | Psk_required | Socket_failed | Invalid_address | Bind_failed | No_cipher_context

text \<open>Everything before the loop: the key and the port to listen on, or the first failure.\<close>

definition receiver_start ::
  "(string \<Rightarrow> bytes) \<Rightarrow> (string \<Rightarrow> u32 option) \<Rightarrow> (u32 \<Rightarrow> 16 word \<Rightarrow> bool) \<Rightarrow> bool \<Rightarrow> bool \<Rightarrow> (char \<times> string) list
    \<Rightarrow> receiver_error + bytes \<times> u32 \<times> 16 word" where
  "receiver_start sha256 pton bind_ok socket_ok ctx_ok args =
     (case parse_options args default_options of
        None \<Rightarrow> Inl Usage
      | Some opts \<Rightarrow>
          (case ro_psk opts of
             None \<Rightarrow> Inl Psk_required
           | Some psk \<Rightarrow>
               (let key = derive_key sha256 psk; port = of_int (ro_port opts)
                in if \<not> socket_ok then Inl Socket_failed
                   else case pton (ro_host opts) of
                          None \<Rightarrow> Inl Invalid_address
                        | Some a \<Rightarrow>
                            if \<not> bind_ok a port then Inl Bind_failed
                            else if \<not> ctx_ok then Inl No_cipher_context
                            else Inr (key, a, port))))"

section \<open>Loop\<close>

record receiver_state =
  rv_stdout :: string
  rv_failures :: nat

definition receive_packet :: "gcm_decrypt \<Rightarrow> bytes \<Rightarrow> bytes \<Rightarrow> receiver_state \<Rightarrow> receiver_state" where
  "receive_packet dec key datagram s =
     (let buf = take MAX_PACKET_SIZE datagram
      in case decrypt_packet dec key buf of
           None \<Rightarrow> s\<lparr>rv_failures := Suc (rv_failures s)\<rparr>
         | Some plain \<Rightarrow>
             s\<lparr>rv_stdout := rv_stdout s @ plain @
               (if plain \<noteq> [] \<and> last plain \<noteq> CHR 0x0A then [CHR 0x0A] else [])\<rparr>)"

text \<open>The loop ends at the first error of \<open>recvfrom\<close>.\<close>

fun receiver_loop :: "gcm_decrypt \<Rightarrow> bytes \<Rightarrow> bytes option list \<Rightarrow> receiver_state \<Rightarrow> receiver_state" where
  "receiver_loop dec key [] s = s"
| "receiver_loop dec key (None # rs) s = s"
| "receiver_loop dec key (Some d # rs) s = receiver_loop dec key rs (receive_packet dec key d s)"

section \<open>Lemmas\<close>

text \<open>A line as the receiver prints it.\<close>

definition printed :: "string \<Rightarrow> string" where
  "printed line = line @ (if line \<noteq> [] \<and> last line \<noteq> CHR 0x0A then [CHR 0x0A] else [])"

lemma receiver_loop_genuine:
  assumes "list_all2 (\<lambda>line d. length d \<le> MAX_PACKET_SIZE \<and> decrypt_packet dec key d = Some line) lines ds"
  shows "receiver_loop dec key (map Some ds) s = s\<lparr>rv_stdout := rv_stdout s @ concat (map printed lines)\<rparr>"
  using assms
proof (induction lines ds arbitrary: s rule: list_all2_induct)
  case Nil
  then show ?case by simp
next
  case (Cons line lines d ds)
  then have "receive_packet dec key d s = s\<lparr>rv_stdout := rv_stdout s @ printed line\<rparr>"
    by (simp add: receive_packet_def printed_def Let_def)
  with Cons.IH show ?case by simp
qed

section \<open>Properties\<close>

text \<open>
  C26. The receiver refuses to start without a preshared key, whatever the other options, and prints
  nothing that is not authentic: a datagram that \<open>decrypt_packet\<close> rejects, or that is too short to
  be a packet, changes nothing but the failure count, and the loop carries on with the next one.
\<close>

theorem receiver_rejects_forgeries:
  assumes "decrypt_packet dec key (take MAX_PACKET_SIZE d) = None"
  shows "receiver_loop dec key (Some d # rs) s = receiver_loop dec key rs (s\<lparr>rv_failures := Suc (rv_failures s)\<rparr>) \<and>
    (\<forall>args. CHR ''p'' \<notin> fst ` set args \<longrightarrow>
      receiver_start sha256 pton bind_ok socket_ok ctx_ok args \<in> {Inl Usage, Inl Psk_required})"
proof
  show "receiver_loop dec key (Some d # rs) s = receiver_loop dec key rs (s\<lparr>rv_failures := Suc (rv_failures s)\<rparr>)"
    using assms by (simp add: receive_packet_def)
  have "parse_options args o' = None \<or> (\<exists>o''. parse_options args o' = Some o'' \<and> ro_psk o'' = ro_psk o')"
    if "CHR ''p'' \<notin> fst ` set args" for args o'
    using that by (induction args o' rule: parse_options.induct) auto
  from this [of _ default_options]
  show "\<forall>args. CHR ''p'' \<notin> fst ` set args \<longrightarrow>
      receiver_start sha256 pton bind_ok socket_ok ctx_ok args \<in> {Inl Usage, Inl Psk_required}"
    by (fastforce simp: receiver_start_def default_options_def)
qed

theorem receiver_rejects_forgeries_witness:
  "receiver_loop toy_dec ''key'' [Some ''junk''] \<lparr>rv_stdout = [], rv_failures = 0\<rparr> = \<lparr>rv_stdout = [], rv_failures = 1\<rparr>"
proof -
  have "decrypt_packet toy_dec ''key'' (take MAX_PACKET_SIZE ''junk'') = None"
    by (simp add: decrypt_packet_def MAX_PACKET_SIZE_def crypto_sizes)
  from receiver_rejects_forgeries [OF this, of "[]" "\<lparr>rv_stdout = [], rv_failures = 0\<rparr>"] show ?thesis by simp
qed

end
