(* ===== verification/Spec2Isabelle.thy ===== *)
theory Spec2Isabelle
  imports Async_Handler Dump Lifecycle Memory Rate_Limiter Receiver
begin

text \<open>
  \<^bold>\<open>Logmoko: an asynchronous logging library in C, and its verification.\<close>

  \<^bold>\<open>The program.\<close> A program that uses Logmoko asks for loggers by name and attaches handlers to
  them. A log call formats its message into a thread-local buffer and hands a record to every
  attached handler whose level admits it (\<open>logmoko_logger.c\<close>). A handler (console, file, socket,
  syslog) puts the record into a lock-free ring (\<open>logmoko.h\<close>) and wakes its consumer thread if that
  sleeps; the consumer formats the messages (\<open>logmoko_handler.c\<close>) and writes them out, with rotation
  for files and, for sockets, optional AES-GCM encryption (\<open>logmoko_encryption.c\<close>); a separate
  program (\<open>logmoko_log_receiver.c\<close>) receives and prints encrypted datagrams. Loggers and handlers
  live in two global linked lists (\<open>logmoko_list.c\<close>, \<open>logmoko.c\<close>) and can be set up from a
  configuration file (\<open>logmoko_config_file.c\<close>).

  \<^bold>\<open>The theories\<close>, in the order they build on each other; paths are below \<open>src/src/main\<close>.

  \<^item> \<open>Prelude\<close>: machine types, result codes, rule collections, lemmas on lists and words, and the
    interface \<open>transition_system\<close> (reachable states, invariants, traces) that the ring protocol, the
    handler protocol and the registry interpret.
  \<^item> \<open>C_Library\<close>: the functions of the C library that the sources call on strings, with \<open>strtol\<close>,
    \<open>atol\<close> and \<open>atoi\<close> as glibc has them (\<open>strtol\<close> stops at the ends of the range of \<open>long\<close>, \<open>atoi\<close>
    converts its result to a 32-bit \<open>int\<close>, as \<open>c_int\<close> does).
  \<^item> \<open>Memory\<close>: \<open>logmoko_mem.c\<close>.
  \<^item> \<open>Ring\<close>: the ring of \<open>logmoko.h\<close> on 64-bit cursors, one operation at a time: \<open>lmk_next_pow2\<close>,
    \<open>lmk_ring_init\<close>, \<open>lmk_ring_enqueue\<close> (with its retry loop), \<open>lmk_ring_peek_slot\<close>,
    \<open>lmk_ring_consume\<close>. The interface \<open>bounded_fifo\<close> says what a handler needs of a queue; the ring
    interprets it, also across the wrap-around of the cursors (C1--C4).
  \<^item> \<open>Ring_Concurrent\<close>: the same functions as atomic steps of any number of producers and one
    consumer: claims, writes and publication interleave freely (C5--C8).
  \<^item> \<open>Async_Handler\<close>: the protocol all four handlers repeat around the ring: \<open>running\<close>, \<open>sleeping\<close>,
    \<open>wakeup_lock\<close>, \<open>wakeup_cond\<close>, as steps of callers, the consumer thread and \<open>destroy\<close> on top of
    the steps of the ring (C9--C11).
  \<^item> \<open>Linked_List\<close>: \<open>logmoko_list.c\<close> and the iteration macros on a store of links; the interface
    \<open>sequence_store\<close> lets the other theories use sequences of addresses instead (C12, C13).
  \<^item> \<open>Format\<close>: levels, the three line formats, JSON escaping, the cached time stamp and
    \<open>lmk_format_log_line\<close>; the interface \<open>line_formatter\<close> is what that function needs of a format
    (C14--C17).
  \<^item> \<open>Handler\<close>, \<open>Console_Handler\<close>, \<open>Syslog_Handler\<close>, \<open>File_Handler\<close>, \<open>Socket_Handler\<close>: the handler
    structs, their \<open>init\<close>, \<open>log_impl\<close>, \<open>destroy\<close> and setters, and what one pass of each consumer
    thread does with the messages in the ring (C18--C22, C25). For the file handler the log is a
    history of segments, one per file, of which rotation keeps the newest (C22). \<open>Encryption\<close> is the packet format
    (C23, C24), \<open>Receiver\<close> the receiving program (C26).
  \<^item> \<open>Registry\<close>: the global lists, loggers, handler constructors, reference counting, logging and
    shutdown; \<open>Registry_Invariant\<close>: their invariant, that every API call keeps it, and what the
    calls do (C28--C32). \<open>Dump\<close>: \<open>lmk_dump_loggers\<close>, which an intact registry never makes fail.
  \<^item> \<open>Config_Parser\<close>: the parser of configuration files, its bounds, and that it inverts printing
    (C33, C34). \<open>Config_File\<close>: applying a configuration, \<open>lmk_init\<close> and \<open>lmk_init_from_file\<close>: that
    they are safe, and what loggers and handlers, with which settings, a configuration leads to
    (C35--C38).
  \<^item> \<open>Lifecycle\<close>: the entry points as a program calls them, with the \<open>lmk_init()\<close> most of them begin
    with, and the library over any number of cycles of initialisation, use and shutdown (C27).
  \<^item> \<open>Rate_Limiter\<close>: \<open>logmoko_rate_limiter.c\<close>, with the rounding of every operation on \<open>double\<close>
    (C39).
  \<^item> This theory: delivery from a handler's ring to the output of the receiver (C40).

  \<^bold>\<open>How the code is modelled.\<close> A struct is a record with the fields of the source, a fixed
  \<open>char\<close> array the string it holds, an array with its counter a list, a pointer an address or \<open>None\<close>
  for \<open>NULL\<close>, \<open>size_t\<close> and \<open>unsigned\<close> are words, \<open>int\<close> and \<open>long\<close> are integers, with the conversions
  that can change a value (\<open>c_int\<close>, \<open>atoi\<close>, \<open>of_int\<close> into words) written out; numbers read from a
  configuration are shown to be in the range of their type (C33). An operation that C leaves
  undefined (a dangling or \<open>NULL\<close> pointer, a \<open>NULL\<close> file name, an index outside an array) has the result \<open>None\<close>,
  so that a theorem with a result \<open>Some\<close> also says that this does not happen. Loops that the code
  does not bound are \<open>partial_function (option)\<close>; the theorems show that they return. What the
  host decides (\<open>malloc\<close>, \<open>fopen\<close>, \<open>pthread_create\<close>, \<open>socket\<close>, \<open>sendto\<close>, the clock, \<open>getenv\<close>) is an
  argument, and so are OpenSSL, \<open>inet_pton\<close>, \<open>inet_ntop\<close> and the rendering of times; what is relied
  on of them is a hypothesis with a name that a witness instantiates: \<open>aead_laws\<close> and \<open>socket_env\<close>;
  \<open>fresh_env\<close> and \<open>allocator\<close> (an allocation fails or returns an unused address); \<open>copies_ok\<close> and
  \<open>strings_copied\<close> (the name and the file name of a new handler could be copied: the code does not
  test this, and goes on with a \<open>NULL\<close> string that is undefined for \<open>strcmp\<close> and \<open>fopen\<close>); \<open>ample\<close> (no
  allocation and no thread creation fails); \<open>ieee_double\<close> (the error of one operation on doubles). No
  fuel is used.

  The files \<open>Registry\<close> to \<open>Config_File\<close> take each API call as one step: the library has no lock on
  its lists, and concurrent calls that change them are not supported by the code either. What
  does run concurrently (log calls, consumers, and destroying a handler) is the subject of
  \<open>Ring_Concurrent\<close> and \<open>Async_Handler\<close>. Most API functions begin with \<open>lmk_init()\<close>; the functions of
  \<open>Registry\<close> are what follows it, \<open>Lifecycle.run_lib\<close> puts the two together, and C37 shows that on an
  initialised library \<open>lmk_init\<close> does nothing.

  \<^bold>\<open>Bounds.\<close> Cursors of the ring are 64-bit words and may wrap in \<open>Ring\<close>; \<open>Ring_Concurrent\<close> assumes
  fewer than \<open>2 ^ 63\<close> claims minus the size of the ring in total (\<open>cs_young\<close>), since a counter in the
  model tells the claims apart. Reference counts are 32-bit words, hence the bound of \<open>2 ^ 32\<close>
  loggers in \<open>reg_inv\<close>.

  \<^bold>\<open>Not modelled\<close>: memory orders weaker than sequential consistency; writes to files that fail or
  are short, and file sizes beyond the range of \<open>long\<close>; sleeps that a signal ends; the text of messages
  to \<open>stderr\<close> in failing constructors; \<open>errno\<close>; contents of uninitialised memory; the debug output
  under \<open>LMK_DEBUG\<close>; the benchmarks, examples and unit tests of the repository, which only call the
  library.
\<close>

section \<open>From a logger's ring to the receiver's output\<close>

text \<open>The lines of a batch of entries, and those of them a server is sent.\<close>

fun entry_lines :: "(int \<Rightarrow> string) \<Rightarrow> (nat \<Rightarrow> int) \<Rightarrow> lmk_format_fn option \<Rightarrow> nat \<Rightarrow> log_entry list \<Rightarrow> string list" where
  "entry_lines render clock fn k [] = []"
| "entry_lines render clock fn k (e # es) =
     entry_text fn SOCKET_OUT_SIZE (render (clock k)) e # entry_lines render clock fn (Suc k) es"

definition to_server :: "sockaddr \<Rightarrow> (sockaddr \<times> 'a) list \<Rightarrow> 'a list" where
  "to_server srv xs = map snd (filter (\<lambda>x. fst x = srv) xs)"

lemma to_server_append: "to_server srv (xs @ ys) = to_server srv xs @ to_server srv ys"
  by (simp add: to_server_def)

lemma to_server_broadcast: "distinct srvs \<Longrightarrow> srv \<in> set srvs \<Longrightarrow> to_server srv (map (\<lambda>a. (a, line)) srvs) = [line]"
proof (induction srvs)
  case (Cons a srvs)
  have "to_server srv (map (\<lambda>a. (a, line)) srvs) = []" if "srv \<notin> set srvs" using that by (induction srvs) (auto simp: to_server_def)
  then show ?case using Cons by (cases "a = srv") (auto simp: to_server_def)
qed simp

lemma to_server_lines:
  assumes "distinct srvs" "srv \<in> set srvs"
  shows "to_server srv (socket_lines render clock fn srvs k es) = entry_lines render clock fn k es"
  by (induction es arbitrary: k) (simp_all add: to_server_append to_server_broadcast [OF assms], simp add: to_server_def)

lemma entry_lines_short: "line \<in> set (entry_lines render clock fn k es) \<Longrightarrow> length line < SOCKET_OUT_SIZE"
  by (induction es arbitrary: k) (auto simp: entry_text_def SOCKET_OUT_SIZE_def)

lemma carried_to_server:
  assumes "list_all2 (carries dec p) xs sent" "sk_psk_enabled p"
  shows "list_all2 (\<lambda>line d. length d = length line + CRYPTO_OVERHEAD \<and> decrypt_packet dec (sk_psk_key p) d = Some line)
    (to_server srv xs) (to_server srv sent)"
  using assms(1)
proof (induction xs sent rule: list_all2_induct)
  case (Cons x xs d sent)
  obtain a line where x: "x = (a, line)" by (cases x)
  obtain b pkt where d: "d = (b, pkt)" by (cases d)
  have "b = a" "decrypt_packet dec (sk_psk_key p) pkt = Some line" "length pkt = length line + CRYPTO_OVERHEAD"
    using Cons.hyps(1) assms(2) by (simp_all add: x d)
  then show ?case using Cons.IH by (simp add: to_server_def x d)
qed (simp add: to_server_def)

lemma packets_fit:
  assumes "list_all2 (\<lambda>line d. length d = length line + CRYPTO_OVERHEAD \<and> decrypt_packet dec key d = Some line) lines ds"
    and "\<forall>line\<in>set lines. length line < SOCKET_OUT_SIZE"
  shows "list_all2 (\<lambda>line d. length d \<le> MAX_PACKET_SIZE \<and> decrypt_packet dec key d = Some line) lines ds"
  using assms by (induction lines ds rule: list_all2_induct) (auto simp: SOCKET_OUT_SIZE_def LMK_LOG_MSG_MAX_SIZE_def MAX_PACKET_SIZE_def crypto_sizes)

text \<open>
  C40. Encrypted logging works end to end: one pass of a socket handler that has a preshared key
  empties its ring, and a receiver started with the same key at any one of its listeners, given
  the datagrams addressed to it in the order they were sent, prints exactly the formatted lines of
  all messages that were in the ring, each on a line of its own, in order, and reports no failure.
\<close>

theorem encrypted_delivery:
  assumes "ring_invar r" "\<forall>e\<in>set (ring_contents r). entry_ok e" "ts_ok render (ss_ts s)"
    and "\<forall>k. clock k \<noteq> 0" "\<forall>t. c_string (render t)" "socket_env sendto enc dec rand"
    and "distinct (sk_log_servers p)" "srv \<in> set (sk_log_servers p)" "sk_psk_enabled p" "sk_psk_key p = derive_key sha256 psk"
  shows "\<exists>r' s' sent. lmk_socket_log_handler_thread_pass sendto enc rand render clock (lmk_get_format_fn name) p r s = Some (r', s') \<and>
    ring_contents r' = [] \<and> ss_net s' = ss_net s @ sent \<and>
    receiver_loop dec (derive_key sha256 psk) (map Some (to_server srv sent)) st =
      st\<lparr>rv_stdout := rv_stdout st @ concat (map printed (entry_lines render clock (lmk_get_format_fn name) (ss_tick s) (ring_contents r)))\<rparr>"
proof -
  let ?fn = "lmk_get_format_fn name"
  let ?h = "socket_handle sendto enc rand render clock ?fn p"
  let ?lines = "entry_lines render clock ?fn (ss_tick s) (ring_contents r)"
  obtain r' where r': "consumer_drain ?h r s = Some (r', fold (\<lambda>e. ?h (request_of_entry e)) (ring_contents r) s)" "ring_contents r' = []"
    using consumer_drain_spec [OF assms(1) socket_reads_entry] by blast
  obtain sent where sent: "ss_net (fold (\<lambda>e. ?h (request_of_entry e)) (ring_contents r) s) = ss_net s @ sent"
    "list_all2 (carries dec p) (socket_lines render clock ?fn (sk_log_servers p) (ss_tick s) (ring_contents r)) sent"
    using socket_fold [OF assms(6,2-5)] by blast
  have "list_all2 (\<lambda>line d. length d \<le> MAX_PACKET_SIZE \<and> decrypt_packet dec (derive_key sha256 psk) d = Some line) ?lines (to_server srv sent)"
    using carried_to_server [OF sent(2) assms(9), of srv] entry_lines_short
    by (intro packets_fit) (auto simp: to_server_lines [OF assms(7,8)] assms(10))
  from receiver_loop_genuine [OF this, of st] show ?thesis
    using r' sent(1) by (auto simp: lmk_socket_log_handler_thread_pass_def)
qed

theorem encrypted_delivery_witness:
  "\<exists>r' s' sent. lmk_socket_log_handler_thread_pass (\<lambda>_ b. int (length b)) toy_enc (\<lambda>_. Some (replicate 12 (CHR ''i'')))
      (\<lambda>_. ''12:00'') (\<lambda>_. 5) (lmk_get_format_fn (Some ''simple'')) sample_socket_part sample_ring
      \<lparr>ss_net = [], ss_ts = ts_start, ss_tick = 0, ss_rand = 0\<rparr> = Some (r', s') \<and> ss_net s' = sent \<and>
    rv_stdout (receiver_loop toy_dec ''key'' (map Some (to_server (2, 9001) sent)) \<lparr>rv_stdout = [], rv_failures = 0\<rparr>) =
      concat (map printed (entry_lines (\<lambda>_. ''12:00'') (\<lambda>_. 5) (lmk_get_format_fn (Some ''simple'')) 0 (ring_contents sample_ring)))"
proof -
  let ?s = "\<lparr>ss_net = [], ss_ts = ts_start, ss_tick = 0, ss_rand = 0\<rparr>"
  let ?st = "\<lparr>rv_stdout = [], rv_failures = 0\<rparr>"
  have ts: "ts_ok (\<lambda>_. ''12:00'') (ss_ts ?s)" by (simp add: ts_ok_def ts_start_def)
  have c: "\<forall>k :: nat. (5 :: int) \<noteq> 0" "\<forall>t :: int. c_string ''12:00''" by simp_all
  have p: "distinct (sk_log_servers sample_socket_part)" "(2, 9001) \<in> set (sk_log_servers sample_socket_part)"
    "sk_psk_enabled sample_socket_part" "sk_psk_key sample_socket_part = derive_key (\<lambda>_. ''key'') ''psk''"
    by (simp_all add: sample_socket_part_def derive_key_def)
  have "\<exists>r' s' sent. lmk_socket_log_handler_thread_pass (\<lambda>_ b. int (length b)) toy_enc (\<lambda>_. Some (replicate 12 (CHR ''i'')))
      (\<lambda>_. ''12:00'') (\<lambda>_. 5) (lmk_get_format_fn (Some ''simple'')) sample_socket_part sample_ring ?s = Some (r', s') \<and>
    ring_contents r' = [] \<and> ss_net s' = ss_net ?s @ sent \<and>
    receiver_loop toy_dec (derive_key (\<lambda>_. ''key'') ''psk'') (map Some (to_server (2, 9001) sent)) ?st =
      ?st\<lparr>rv_stdout := rv_stdout ?st @ concat (map printed
        (entry_lines (\<lambda>_. ''12:00'') (\<lambda>_. 5) (lmk_get_format_fn (Some ''simple'')) (ss_tick ?s) (ring_contents sample_ring)))\<rparr>"
    by (rule encrypted_delivery [OF sample_ring_facts(1) sample_ring_entries_ok ts c toy_socket_env p])
  then show ?thesis by (auto simp: derive_key_def)
qed

end
